(* ===== verification/Prelude.thy ===== *)
theory Prelude
  imports Main "HOL-Library.Word"
begin

text \<open>
  Shared vocabulary of the development: the machine integer types of \<^verbatim>\<open>kernel/types.h\<close>,
  byte arrays with little-endian loads and stores (the RISC-V byte order), and the
  generic facts on words, lists and functions that the component theories use.

  A C object that the code reads through casts (a page of memory, a disk block) is a
  byte array, a function from offsets to bytes. A load or store of \<open>n\<close> bytes goes
  through \<open>le_load\<close> and \<open>le_store\<close>; the typed accesses \<open>ld16\<close>, \<open>ld32\<close>, \<open>ld64\<close>
  and \<open>st16\<close>, \<open>st32\<close>, \<open>st64\<close> are instances of them.
\<close>

section \<open>Machine integers\<close>

type_synonym byte = "8 word"
type_synonym u16 = "16 word"
type_synonym u32 = "32 word"
type_synonym u64 = "64 word"

text \<open>The named collections of the development: rules that evaluate kernel code
  (\<open>kernel_simps\<close>), rules for byte arrays (\<open>bytes_simps\<close>).\<close>

named_theorems kernel_simps
named_theorems bytes_simps

section \<open>Byte arrays\<close>

type_synonym bytes = "nat \<Rightarrow> byte"

fun le_load :: "nat \<Rightarrow> bytes \<Rightarrow> nat \<Rightarrow> nat" where
  "le_load 0 f a = 0"
| "le_load (Suc n) f a = unat (f a) + 256 * le_load n f (Suc a)"

fun le_store :: "nat \<Rightarrow> bytes \<Rightarrow> nat \<Rightarrow> nat \<Rightarrow> bytes" where
  "le_store 0 f a v = f"
| "le_store (Suc n) f a v = le_store n (f(a := of_nat v)) (Suc a) (v div 256)"

definition ld16 :: "bytes \<Rightarrow> nat \<Rightarrow> u16" where
  "ld16 f a = of_nat (le_load 2 f a)"

definition ld32 :: "bytes \<Rightarrow> nat \<Rightarrow> u32" where
  "ld32 f a = of_nat (le_load 4 f a)"

definition ld64 :: "bytes \<Rightarrow> nat \<Rightarrow> u64" where
  "ld64 f a = of_nat (le_load 8 f a)"

definition st16 :: "bytes \<Rightarrow> nat \<Rightarrow> u16 \<Rightarrow> bytes" where
  "st16 f a v = le_store 2 f a (unat v)"

definition st32 :: "bytes \<Rightarrow> nat \<Rightarrow> u32 \<Rightarrow> bytes" where
  "st32 f a v = le_store 4 f a (unat v)"

definition st64 :: "bytes \<Rightarrow> nat \<Rightarrow> u64 \<Rightarrow> bytes" where
  "st64 f a v = le_store 8 f a (unat v)"

definition get_bytes :: "bytes \<Rightarrow> nat \<Rightarrow> nat \<Rightarrow> byte list" where
  "get_bytes f a n = map f [a..<a + n]"

definition put_bytes :: "bytes \<Rightarrow> nat \<Rightarrow> byte list \<Rightarrow> bytes" where
  "put_bytes f a xs = (\<lambda>x. if a \<le> x \<and> x < a + length xs then xs ! (x - a) else f x)"

text \<open>The list of bytes a load of \<open>n\<close> bytes would see for the value \<open>v\<close>.\<close>

fun le_bytes :: "nat \<Rightarrow> nat \<Rightarrow> byte list" where
  "le_bytes 0 v = []"
| "le_bytes (Suc n) v = of_nat v # le_bytes n (v div 256)"

subsection \<open>Loads, stores and frames\<close>

lemma le_store_outside [bytes_simps]:
  "x < a \<or> a + n \<le> x \<Longrightarrow> le_store n f a v x = f x"
  by (induction n f a v rule: le_store.induct) auto

lemma le_load_cong:
  "(\<And>i. i < n \<Longrightarrow> f (a + i) = g (b + i)) \<Longrightarrow> le_load n f a = le_load n g b"
proof (induction n arbitrary: a b)
  case 0
  then show ?case by simp
next
  case (Suc n)
  have "le_load n f (Suc a) = le_load n g (Suc b)"
    by (rule Suc.IH) (use Suc.prems [of "Suc i" for i] in auto)
  with Suc.prems [of 0] show ?case by simp
qed

lemma le_load_less: "le_load n f a < 256 ^ n"
proof (induction n arbitrary: a)
  case 0
  then show ?case by simp
next
  case (Suc n)
  have "unat (f a) < 256"
    using unsigned_less [of "f a"] by simp
  moreover have "le_load n f (Suc a) < 256 ^ n" by (rule Suc.IH)
  ultimately show ?case by simp
qed

lemma le_load_le_store:
  "le_load n (le_store n f a v) a = v mod 256 ^ n"
proof (induction n arbitrary: f a v)
  case 0
  then show ?case by simp
next
  case (Suc n)
  have "le_store n (f(a := of_nat v)) (Suc a) (v div 256) a = of_nat v"
    by (simp add: le_store_outside)
  moreover have "unat (of_nat v :: byte) = v mod 256"
    by (simp add: unat_of_nat)
  ultimately have "le_load (Suc n) (le_store (Suc n) f a v) a
      = v mod 256 + 256 * (v div 256 mod 256 ^ n)"
    by (simp add: Suc.IH)
  also have "\<dots> = v mod (256 * 256 ^ n)"
    by (simp add: mod_mult2_eq)
  finally show ?case by simp
qed

lemma le_load_le_store_other [bytes_simps]:
  "b + m \<le> a \<or> a + n \<le> b \<Longrightarrow> le_load m (le_store n f a v) b = le_load m f b"
  by (rule le_load_cong) (auto intro!: le_store_outside)

lemma ld16_st16 [simp]: "ld16 (st16 f a v) a = v"
  using unsigned_less [of v, where ?'a = nat] by (simp add: ld16_def st16_def le_load_le_store)

lemma ld32_st32 [simp]: "ld32 (st32 f a v) a = v"
  using unsigned_less [of v, where ?'a = nat] by (simp add: ld32_def st32_def le_load_le_store)

lemma ld64_st64 [simp]: "ld64 (st64 f a v) a = v"
  using unsigned_less [of v, where ?'a = nat] by (simp add: ld64_def st64_def le_load_le_store)

lemma ld16_st16_other [bytes_simps]: "b + 2 \<le> a \<or> a + 2 \<le> b \<Longrightarrow> ld16 (st16 f a v) b = ld16 f b"
  by (simp add: ld16_def st16_def le_load_le_store_other)

lemma ld16_st32_other [bytes_simps]: "b + 2 \<le> a \<or> a + 4 \<le> b \<Longrightarrow> ld16 (st32 f a v) b = ld16 f b"
  by (simp add: ld16_def st32_def le_load_le_store_other)

lemma ld32_st32_other [bytes_simps]: "b + 4 \<le> a \<or> a + 4 \<le> b \<Longrightarrow> ld32 (st32 f a v) b = ld32 f b"
  by (simp add: ld32_def st32_def le_load_le_store_other)

lemma ld32_st16_other [bytes_simps]: "b + 4 \<le> a \<or> a + 2 \<le> b \<Longrightarrow> ld32 (st16 f a v) b = ld32 f b"
  by (simp add: ld32_def st16_def le_load_le_store_other)

lemma ld64_st64_other [bytes_simps]: "b + 8 \<le> a \<or> a + 8 \<le> b \<Longrightarrow> ld64 (st64 f a v) b = ld64 f b"
  by (simp add: ld64_def st64_def le_load_le_store_other)

lemma st16_outside [bytes_simps]: "x < a \<or> a + 2 \<le> x \<Longrightarrow> st16 f a v x = f x"
  by (simp add: st16_def le_store_outside)

lemma st32_outside [bytes_simps]: "x < a \<or> a + 4 \<le> x \<Longrightarrow> st32 f a v x = f x"
  by (simp add: st32_def le_store_outside)

lemma st64_outside [bytes_simps]: "x < a \<or> a + 8 \<le> x \<Longrightarrow> st64 f a v x = f x"
  by (simp add: st64_def le_store_outside)

lemma ld16_cong: "(\<And>i. i < 2 \<Longrightarrow> f (a + i) = g (b + i)) \<Longrightarrow> ld16 f a = ld16 g b"
  unfolding ld16_def using le_load_cong [of 2 f a g b] by simp

lemma ld32_cong: "(\<And>i. i < 4 \<Longrightarrow> f (a + i) = g (b + i)) \<Longrightarrow> ld32 f a = ld32 g b"
  unfolding ld32_def using le_load_cong [of 4 f a g b] by simp

lemma ld64_cong: "(\<And>i. i < 8 \<Longrightarrow> f (a + i) = g (b + i)) \<Longrightarrow> ld64 f a = ld64 g b"
  unfolding ld64_def using le_load_cong [of 8 f a g b] by simp

lemma le_load_zero: "(\<And>i. i < n \<Longrightarrow> f (a + i) = 0) \<Longrightarrow> le_load n f a = 0"
proof (induction n arbitrary: a)
  case 0
  then show ?case by simp
next
  case (Suc n)
  have "le_load n f (Suc a) = 0"
    by (rule Suc.IH) (use Suc.prems [of "Suc i" for i] in auto)
  with Suc.prems [of 0] show ?case by simp
qed

lemma ld64_zero: "(\<And>i. i < 8 \<Longrightarrow> f (a + i) = 0) \<Longrightarrow> ld64 f a = 0"
  by (simp add: ld64_def le_load_zero)

lemma length_get_bytes [simp]: "length (get_bytes f a n) = n"
  by (simp add: get_bytes_def)

lemma nth_get_bytes [simp]: "i < n \<Longrightarrow> get_bytes f a n ! i = f (a + i)"
  by (simp add: get_bytes_def)

lemma put_bytes_outside [bytes_simps]: "x < a \<or> a + length xs \<le> x \<Longrightarrow> put_bytes f a xs x = f x"
  by (auto simp: put_bytes_def)

lemma put_bytes_inside: "i < length xs \<Longrightarrow> put_bytes f a xs (a + i) = xs ! i"
  by (simp add: put_bytes_def)

lemma put_bytes_Nil [simp]: "put_bytes f a [] = f"
  by (rule ext) (auto simp: put_bytes_def)

lemma put_bytes_Cons: "put_bytes f a (x # xs) = put_bytes (f(a := x)) (Suc a) xs"
  by (rule ext) (auto simp: put_bytes_def nth_Cons' Suc_diff_Suc)

lemma get_put_bytes [simp]: "get_bytes (put_bytes f a xs) a (length xs) = xs"
  by (rule nth_equalityI) (auto simp: put_bytes_inside)

lemma put_get_bytes [simp]: "put_bytes f a (get_bytes f a n) = f"
  by (rule ext) (auto simp: put_bytes_def)

lemma get_put_bytes_other:
  "b + m \<le> a \<or> a + length xs \<le> b \<Longrightarrow> get_bytes (put_bytes f a xs) b m = get_bytes f b m"
  by (rule nth_equalityI) (auto intro!: put_bytes_outside)

lemma put_bytes_append:
  "put_bytes f a (xs @ ys) = put_bytes (put_bytes f a xs) (a + length xs) ys"
  by (rule ext) (auto simp: put_bytes_def nth_append)

lemma get_bytes_append: "get_bytes f a (m + n) = get_bytes f a m @ get_bytes f (a + m) n"
  by (rule nth_equalityI) (auto simp: nth_append)

lemma length_le_bytes [simp]: "length (le_bytes n v) = n"
  by (induction n arbitrary: v) auto

lemma le_load_put_le_bytes:
  "le_load n (put_bytes f a (le_bytes n v)) a = v mod 256 ^ n"
proof (induction n arbitrary: f a v)
  case 0
  then show ?case by simp
next
  case (Suc n)
  have eq: "put_bytes f a (le_bytes (Suc n) v)
      = put_bytes (f(a := of_nat v)) (Suc a) (le_bytes n (v div 256))"
    by (simp add: put_bytes_Cons)
  have "put_bytes (f(a := of_nat v)) (Suc a) (le_bytes n (v div 256)) a = of_nat v"
    by (simp add: put_bytes_outside)
  moreover have "unat (of_nat v :: byte) = v mod 256"
    by (simp add: unat_of_nat)
  ultimately have "le_load (Suc n) (put_bytes f a (le_bytes (Suc n) v)) a
      = v mod 256 + 256 * (v div 256 mod 256 ^ n)"
    unfolding eq by (simp add: Suc.IH)
  also have "\<dots> = v mod (256 * 256 ^ n)"
    by (simp add: mod_mult2_eq)
  finally show ?case by simp
qed

section \<open>Words and lists\<close>

lemma unat_add_less: 
  fixes a b :: "'a::len word"
  assumes "unat a + unat b < 2 ^ LENGTH('a)"
  shows "unat (a + b) = unat a + unat b"
  using assms by (simp add: unat_word_ariths)

lemma unat_le_mono: 
  fixes a b :: "'a::len word"
  shows "a \<le> b \<longleftrightarrow> unat a \<le> unat b"
  by (simp add: word_le_nat_alt)

lemma unat_less_mono: 
  fixes a b :: "'a::len word"
  shows "a < b \<longleftrightarrow> unat a < unat b"
  by (simp add: word_less_nat_alt)

text \<open>The first index of a list segment that satisfies a predicate: what a C loop
  \<open>for (i = lo; i < hi; i++) if (P(i)) return i;\<close> finds.\<close>

definition first_idx :: "(nat \<Rightarrow> bool) \<Rightarrow> nat \<Rightarrow> nat option" where
  "first_idx P n = find P [0..<n]"

lemma first_idx_None: "first_idx P n = None \<longleftrightarrow> (\<forall>i<n. \<not> P i)"
  by (auto simp: first_idx_def find_None_iff)

lemma first_idx_Some:
  "first_idx P n = Some i \<longleftrightarrow> i < n \<and> P i \<and> (\<forall>j<i. \<not> P j)"
proof -
  have "find P [0..<n] = Some i \<longleftrightarrow> i < n \<and> P i \<and> (\<forall>j<i. \<not> P j)"
    unfolding find_Some_iff
    by (auto intro!: exI [of _ i])
  then show ?thesis by (simp add: first_idx_def)
qed

lemma first_idx_ex: "i < n \<Longrightarrow> P i \<Longrightarrow> \<exists>j. first_idx P n = Some j"
  by (metis first_idx_None option.exhaust)

end
