(* ===== verification/Kmonad.thy ===== *)
theory Kmonad
  imports Prelude
begin

text \<open>
  The shape of kernel code. A kernel routine is a function from the kernel state to an
  outcome: it returns a value (\<open>Done\<close>), it calls \<^verbatim>\<open>panic\<close> (\<open>Panic\<close>, kernel/printf.c), or
  it gives up the hart in \<^verbatim>\<open>sched\<close> (\<open>Swtch\<close>, kernel/proc.c), after which it continues only
  when a scheduler picks its process again; \<^verbatim>\<open>sleep\<close>, \<^verbatim>\<open>yield\<close> and \<^verbatim>\<open>exit\<close> end this way.
  Statements are composed with \<open>bnd\<close> and \<open>thn\<close>; every early return, panic and switch of
  the source is a branch.

  The state of every component is an extensible record, and each component extends the
  record of the components it calls, so a routine of a lower component runs unchanged on
  the states of the higher ones. The lowest record is \<open>hart\<close>, the hart's view of the spin
  locks it holds. Locks and sleep channels are addresses of distinct C objects in the
  source; here they are the constructors of \<open>lockid\<close>, \<open>slkid\<close> and \<open>chan\<close>.
\<close>

section \<open>Names of locks and channels\<close>

datatype slkid = SlBuf nat | SlInode nat

datatype lockid =
    LkKmem | LkPid | LkWait | LkProc nat | LkTicks | LkBcache | LkLog | LkItable
  | LkFtable | LkPipe u64 | LkSleep slkid | LkCons | LkUart | LkPr | LkVdisk

datatype chan =
    ChTicks | ChProc nat | ChLog | ChSleep slkid | ChNread u64 | ChNwrite u64
  | ChConsR | ChUartTxR | ChDiskFree | ChBuf nat

section \<open>Outcomes and sequencing\<close>

datatype ('s, 'a) outcome = Done 'a 's | Panic string | Swtch 's

type_synonym ('s, 'a) K = "'s \<Rightarrow> ('s, 'a) outcome"

definition ret :: "'a \<Rightarrow> ('s, 'a) K" where
  "ret a = (\<lambda>s. Done a s)"

definition bnd :: "('s, 'a) K \<Rightarrow> ('a \<Rightarrow> ('s, 'b) K) \<Rightarrow> ('s, 'b) K" where
  "bnd m f = (\<lambda>s. case m s of Done a t \<Rightarrow> f a t | Panic p \<Rightarrow> Panic p | Swtch t \<Rightarrow> Swtch t)"

definition thn :: "('s, 'a) K \<Rightarrow> ('s, 'b) K \<Rightarrow> ('s, 'b) K" where
  "thn m n = bnd m (\<lambda>_. n)"

definition getk :: "('s \<Rightarrow> 'a) \<Rightarrow> ('s, 'a) K" where
  "getk f = (\<lambda>s. Done (f s) s)"

definition modk :: "('s \<Rightarrow> 's) \<Rightarrow> ('s, unit) K" where
  "modk f = (\<lambda>s. Done () (f s))"

definition panic :: "string \<Rightarrow> ('s, 'a) K" where
  "panic m = (\<lambda>s. Panic m)"

definition whenk :: "bool \<Rightarrow> ('s, unit) K \<Rightarrow> ('s, unit) K" where
  "whenk b m = (if b then m else ret ())"

text \<open>\<open>for (i in xs) f(i);\<close> with no early exit.\<close>

fun eachk :: "('i \<Rightarrow> ('s, unit) K) \<Rightarrow> 'i list \<Rightarrow> ('s, unit) K" where
  "eachk f [] = ret ()"
| "eachk f (x # xs) = thn (f x) (eachk f xs)"

lemma ret_app [simp, kernel_simps]: "ret a s = Done a s"
  by (simp add: ret_def)

lemma getk_app [simp, kernel_simps]: "getk f s = Done (f s) s"
  by (simp add: getk_def)

lemma modk_app [simp, kernel_simps]: "modk f s = Done () (f s)"
  by (simp add: modk_def)

lemma panic_app [simp, kernel_simps]: "panic m s = Panic m"
  by (simp add: panic_def)

lemma bnd_app [kernel_simps]:
  "bnd m f s = (case m s of Done a t \<Rightarrow> f a t | Panic p \<Rightarrow> Panic p | Swtch t \<Rightarrow> Swtch t)"
  by (simp add: bnd_def)

lemma thn_app [kernel_simps]:
  "thn m n s = (case m s of Done a t \<Rightarrow> n t | Panic p \<Rightarrow> Panic p | Swtch t \<Rightarrow> Swtch t)"
  by (simp add: thn_def bnd_def)

lemma whenk_app [kernel_simps]: "whenk b m s = (if b then m s else Done () s)"
  by (simp add: whenk_def)

lemma bnd_Done_iff:
  "bnd m f s = Done b u \<longleftrightarrow> (\<exists>a t. m s = Done a t \<and> f a t = Done b u)"
  by (auto simp: bnd_app split: outcome.splits)

lemma thn_Done_iff:
  "thn m n s = Done b u \<longleftrightarrow> (\<exists>a t. m s = Done a t \<and> n t = Done b u)"
  by (auto simp: thn_app split: outcome.splits)

lemma whenk_Done_iff:
  "whenk b m s = Done u t \<longleftrightarrow> (if b then m s = Done u t else t = s)"
  by (auto simp: whenk_app)

lemma eachk_append: "eachk f (xs @ ys) s = thn (eachk f xs) (eachk f ys) s"
  by (induction xs arbitrary: s) (auto simp: thn_app split: outcome.splits)

section \<open>Invariants and total runs\<close>

text \<open>\<open>keeps I m\<close>: started in a state with \<open>I\<close>, the routine leaves \<open>I\<close> true whenever it
  returns or gives up the hart. \<open>runs m s Q\<close>: started in \<open>s\<close>, the routine returns (no panic,
  no switch) with a value and state that satisfy \<open>Q\<close>.\<close>

definition keeps :: "('s \<Rightarrow> bool) \<Rightarrow> ('s, 'a) K \<Rightarrow> bool" where
  "keeps I m \<longleftrightarrow> (\<forall>s. I s \<longrightarrow>
     (case m s of Done a t \<Rightarrow> I t | Panic p \<Rightarrow> True | Swtch t \<Rightarrow> I t))"

definition runs :: "('s, 'a) K \<Rightarrow> 's \<Rightarrow> ('a \<Rightarrow> 's \<Rightarrow> bool) \<Rightarrow> bool" where
  "runs m s Q \<longleftrightarrow> (\<exists>a t. m s = Done a t \<and> Q a t)"

named_theorems keeps_intros

lemma keeps_ret [keeps_intros]: "keeps I (ret a)"
  by (simp add: keeps_def)

lemma keeps_getk [keeps_intros]: "keeps I (getk f)"
  by (simp add: keeps_def)

lemma keeps_panic [keeps_intros]: "keeps I (panic m)"
  by (simp add: keeps_def)

lemma keeps_modk: "(\<And>s. I s \<Longrightarrow> I (f s)) \<Longrightarrow> keeps I (modk f)"
  by (simp add: keeps_def)

lemma keepsE:
  assumes "keeps I m" and "I s"
  shows "case m s of Done a t \<Rightarrow> I t | Panic p \<Rightarrow> True | Swtch t \<Rightarrow> I t"
  using assms by (simp add: keeps_def)

lemma keeps_bnd [keeps_intros]:
  assumes m: "keeps I m" and f: "\<And>a. keeps I (f a)"
  shows "keeps I (bnd m f)"
  unfolding keeps_def
proof (intro allI impI)
  fix s assume s: "I s"
  show "case bnd m f s of Done a t \<Rightarrow> I t | Panic p \<Rightarrow> True | Swtch t \<Rightarrow> I t"
    using keepsE [OF m s] keepsE [OF f] by (cases "m s") (simp_all add: bnd_app)
qed

lemma keeps_thn [keeps_intros]: "keeps I m \<Longrightarrow> keeps I n \<Longrightarrow> keeps I (thn m n)"
  unfolding thn_def by (rule keeps_bnd)

lemma keeps_whenk [keeps_intros]: "(b \<Longrightarrow> keeps I m) \<Longrightarrow> keeps I (whenk b m)"
  by (simp add: whenk_def keeps_ret)

lemma keeps_if [keeps_intros]:
  "(b \<Longrightarrow> keeps I m) \<Longrightarrow> (\<not> b \<Longrightarrow> keeps I n) \<Longrightarrow> keeps I (if b then m else n)"
  by simp

lemma keeps_eachk [keeps_intros]: "(\<And>x. x \<in> set xs \<Longrightarrow> keeps I (f x)) \<Longrightarrow> keeps I (eachk f xs)"
  by (induction xs) (auto intro!: keeps_ret keeps_thn)

lemma keepsD: "keeps I m \<Longrightarrow> I s \<Longrightarrow> m s = Done a t \<Longrightarrow> I t"
  by (drule (1) keepsE) simp

lemma runsI: "m s = Done a t \<Longrightarrow> Q a t \<Longrightarrow> runs m s Q"
  by (auto simp: runs_def)

lemma runs_bnd: "runs m s (\<lambda>a t. runs (f a) t Q) \<Longrightarrow> runs (bnd m f) s Q"
  by (auto simp: runs_def bnd_app)

lemma runs_thn: "runs m s (\<lambda>a t. runs n t Q) \<Longrightarrow> runs (thn m n) s Q"
  by (auto simp: runs_def thn_app)

lemma runs_mono: "runs m s Q \<Longrightarrow> (\<And>a t. Q a t \<Longrightarrow> R a t) \<Longrightarrow> runs m s R"
  by (auto simp: runs_def)

section \<open>The hart's locks\<close>

text \<open>The spin locks the running hart holds, most recent first. \<open>acquire\<close> and \<open>release\<close>
  are kernel/spinlock.c as one hart sees it: waiting for another hart to let go of the lock
  takes time but has no other effect, a lock that this hart already holds is a panic, and so
  is the release of a lock it does not hold. The theory \<^verbatim>\<open>Spinlock\<close> has the per-instruction
  model of that file and proves that it behaves this way.\<close>

record hart =
  held :: "lockid list"

definition holding :: "lockid \<Rightarrow> 'x hart_scheme \<Rightarrow> bool" where
  "holding lk s \<longleftrightarrow> lk \<in> set (held s)"

definition acquire :: "lockid \<Rightarrow> ('x hart_scheme, unit) K" where
  "acquire lk =
     bnd (getk (holding lk)) (\<lambda>h.
     if h then panic ''acquire''
     else modk (\<lambda>s. s\<lparr>held := lk # held s\<rparr>))"

definition release :: "lockid \<Rightarrow> ('x hart_scheme, unit) K" where
  "release lk =
     bnd (getk (holding lk)) (\<lambda>h.
     if \<not> h then panic ''release''
     else modk (\<lambda>s. s\<lparr>held := remove1 lk (held s)\<rparr>))"

text \<open>\<open>initlock\<close> stores an unlocked lock word, whatever the lock was before.\<close>

definition initlk :: "lockid \<Rightarrow> ('x hart_scheme, unit) K" where
  "initlk lk = modk (\<lambda>s. s\<lparr>held := removeAll lk (held s)\<rparr>)"

lemma acquire_app [simp, kernel_simps]:
  "acquire lk s = (if lk \<in> set (held s) then Panic ''acquire''
                   else Done () (s\<lparr>held := lk # held s\<rparr>))"
  by (simp add: acquire_def bnd_app holding_def)

lemma release_app [simp, kernel_simps]:
  "release lk s = (if lk \<in> set (held s) then Done () (s\<lparr>held := remove1 lk (held s)\<rparr>)
                   else Panic ''release'')"
  by (simp add: release_def bnd_app holding_def)

end
