(* ===== verification/Spinlock.thy ===== *)
theory Spinlock
  imports Kmonad
begin

text \<open>
  kernel/spinlock.c, instruction by instruction, for any number of harts. The straight-line
  routines (\<open>initlock\<close>, \<open>push_off\<close>, \<open>pop_off\<close>) are kernel code on the state \<open>machine\<close>.
  \<^verbatim>\<open>acquire\<close> and \<^verbatim>\<open>release\<close> interleave with the other harts at their atomic memory
  operations, so they are the rules of the step relation \<open>lstep\<close>: one rule per atomic
  action, with a program counter per hart.

  The ghost field \<open>crit\<close> lists, per hart, the locks between the return of \<^verbatim>\<open>acquire\<close> and the
  call of \<^verbatim>\<open>release\<close>. The invariant \<open>lock_inv\<close> ties it to \<^verbatim>\<open>lk->locked\<close>, \<^verbatim>\<open>lk->cpu\<close> and
  \<^verbatim>\<open>noff\<close>; mutual exclusion and the agreement with the one-hart view of \<^verbatim>\<open>Kmonad\<close> follow.
\<close>

section \<open>State\<close>

record spinlock =
  locked :: bool
  lk_name :: string
  lk_cpu :: "nat option"

text \<open>The fields of \<^verbatim>\<open>struct cpu\<close> (kernel/proc.h) that the lock code uses, and the hart's
  supervisor interrupt-enable bit \<^verbatim>\<open>SSTATUS_SIE\<close>.\<close>

record cpu =
  noff :: int
  intena :: bool
  sie :: bool

record machine =
  lks :: "lockid \<Rightarrow> spinlock"
  cpus :: "nat \<Rightarrow> cpu"

section \<open>Straight-line routines\<close>

definition initlock :: "lockid \<Rightarrow> string \<Rightarrow> ('x machine_scheme, unit) K" where
  "initlock lk nm = modk (\<lambda>s. s\<lparr>lks := (lks s)(lk := \<lparr>locked = False, lk_name = nm, lk_cpu = None\<rparr>)\<rparr>)"

definition intr_on :: "nat \<Rightarrow> ('x machine_scheme, unit) K" where
  "intr_on c = modk (\<lambda>s. s\<lparr>cpus := (cpus s)(c := (cpus s c)\<lparr>sie := True\<rparr>)\<rparr>)"

definition intr_off :: "nat \<Rightarrow> ('x machine_scheme, unit) K" where
  "intr_off c = modk (\<lambda>s. s\<lparr>cpus := (cpus s)(c := (cpus s c)\<lparr>sie := False\<rparr>)\<rparr>)"

definition intr_get :: "nat \<Rightarrow> ('x machine_scheme, bool) K" where
  "intr_get c = getk (\<lambda>s. sie (cpus s c))"

definition push_off :: "nat \<Rightarrow> ('x machine_scheme, unit) K" where
  "push_off c =
     bnd (intr_get c) (\<lambda>old.
     thn (intr_off c) (
     bnd (getk (\<lambda>s. noff (cpus s c))) (\<lambda>n.
     thn (whenk (n = 0) (modk (\<lambda>s. s\<lparr>cpus := (cpus s)(c := (cpus s c)\<lparr>intena := old\<rparr>)\<rparr>)))
         (modk (\<lambda>s. s\<lparr>cpus := (cpus s)(c := (cpus s c)\<lparr>noff := noff (cpus s c) + 1\<rparr>)\<rparr>)))))"

definition pop_off :: "nat \<Rightarrow> ('x machine_scheme, unit) K" where
  "pop_off c =
     bnd (intr_get c) (\<lambda>i.
     if i then panic ''pop_off - interruptible'' else
     bnd (getk (\<lambda>s. noff (cpus s c))) (\<lambda>n.
     if n < 1 then panic ''pop_off'' else
     thn (modk (\<lambda>s. s\<lparr>cpus := (cpus s)(c := (cpus s c)\<lparr>noff := noff (cpus s c) - 1\<rparr>)\<rparr>))
     (bnd (getk (\<lambda>s. cpus s c)) (\<lambda>cp.
      whenk (noff cp = 0 \<and> intena cp) (intr_on c)))))"

definition holding_hw :: "nat \<Rightarrow> lockid \<Rightarrow> 'x machine_scheme \<Rightarrow> bool" where
  "holding_hw c lk s \<longleftrightarrow> locked (lks s lk) \<and> lk_cpu (lks s lk) = Some c"

lemmas cpu_ops = push_off_def pop_off_def intr_get_def intr_on_def intr_off_def

lemma push_off_app:
  "push_off c s = Done () (s\<lparr>cpus := (cpus s)(c :=
     \<lparr>noff = noff (cpus s c) + 1,
      intena = (if noff (cpus s c) = 0 then sie (cpus s c) else intena (cpus s c)),
      sie = False\<rparr>)\<rparr>)"
  by (cases "cpus s c") (simp add: cpu_ops bnd_app thn_app whenk_app)

lemma pop_off_app:
  "pop_off c s =
     (if sie (cpus s c) then Panic ''pop_off - interruptible''
      else if noff (cpus s c) < 1 then Panic ''pop_off''
      else Done () (s\<lparr>cpus := (cpus s)(c := (cpus s c)
        \<lparr>noff := noff (cpus s c) - 1,
         sie := (noff (cpus s c) = 1 \<and> intena (cpus s c))\<rparr>)\<rparr>))"
  by (cases "cpus s c") (auto simp: cpu_ops bnd_app thn_app whenk_app)

text \<open>A run of \<open>n\<close> calls.\<close>

fun repeatk :: "nat \<Rightarrow> ('s, unit) K \<Rightarrow> ('s, unit) K" where
  "repeatk 0 m = ret ()"
| "repeatk (Suc n) m = thn m (repeatk n m)"

lemma push_offs:
  "repeatk n (push_off c) s = Done () (if n = 0 then s else s\<lparr>cpus := (cpus s)(c :=
     \<lparr>noff = noff (cpus s c) + int n,
      intena = (if noff (cpus s c) = 0 then sie (cpus s c) else intena (cpus s c)),
      sie = False\<rparr>)\<rparr>)"
  if "0 \<le> noff (cpus s c)"
  using that
proof (induction n arbitrary: s)
  case 0
  then show ?case by simp
next
  case (Suc n)
  then show ?case by (simp add: thn_app push_off_app add.assoc)
qed

lemma pop_offs:
  "repeatk n (pop_off c) s = Done () (if n = 0 then s else s\<lparr>cpus := (cpus s)(c := (cpus s c)
     \<lparr>noff := noff (cpus s c) - int n,
      sie := (noff (cpus s c) = int n \<and> intena (cpus s c))\<rparr>)\<rparr>)"
  if "int n \<le> noff (cpus s c)" and "\<not> sie (cpus s c)"
  using that
proof (induction n arbitrary: s)
  case 0
  then show ?case by simp
next
  case (Suc n)
  show ?case
  proof (cases n)
    case 0
    with Suc.prems show ?thesis by (simp add: thn_app pop_off_app)
  next
    case (Suc m)
    let ?s' = "s\<lparr>cpus := (cpus s)(c := (cpus s c)\<lparr>noff := noff (cpus s c) - 1, sie := False\<rparr>)\<rparr>"
    have step: "pop_off c s = Done () ?s'"
      using Suc.prems Suc by (simp add: pop_off_app)
    have "repeatk n (pop_off c) ?s' = Done () (?s'\<lparr>cpus := (cpus ?s')(c := (cpus ?s' c)
      \<lparr>noff := noff (cpus ?s' c) - int n,
       sie := (noff (cpus ?s' c) = int n \<and> intena (cpus ?s' c))\<rparr>)\<rparr>)"
      using Suc.IH [of ?s'] Suc.prems Suc by simp
    then show ?thesis using step by (simp add: thn_app) (auto simp: algebra_simps)
  qed
qed

section \<open>acquire and release as atomic steps\<close>

datatype pc =
    Idle                  \<comment> \<open>not inside acquire or release\<close>
  | AcqSpin lockid        \<comment> \<open>in the test-and-set loop\<close>
  | AcqSet lockid         \<comment> \<open>the swap returned 0; about to store lk->cpu\<close>
  | RelStore lockid       \<comment> \<open>lk->cpu is cleared; about to store lk->locked\<close>
  | RelPop                \<comment> \<open>about to call pop_off\<close>
  | Stopped string        \<comment> \<open>panicked\<close>

record lmachine = machine +
  pcs :: "nat \<Rightarrow> pc"
  crit :: "nat \<Rightarrow> lockid list"

abbreviation set_pc :: "nat \<Rightarrow> pc \<Rightarrow> lmachine \<Rightarrow> lmachine" where
  "set_pc c p s \<equiv> s\<lparr>pcs := (pcs s)(c := p)\<rparr>"

inductive lstep :: "lmachine \<Rightarrow> lmachine \<Rightarrow> bool" where
  acq_enter: "pcs s c = Idle \<Longrightarrow> push_off c s = Done () t \<Longrightarrow> \<not> holding_hw c lk t \<Longrightarrow>
     lstep s (set_pc c (AcqSpin lk) t)"
| acq_panic: "pcs s c = Idle \<Longrightarrow> push_off c s = Done () t \<Longrightarrow> holding_hw c lk t \<Longrightarrow>
     lstep s (set_pc c (Stopped ''acquire'') t)"
| acq_spin: "pcs s c = AcqSpin lk \<Longrightarrow> locked (lks s lk) \<Longrightarrow> lstep s s"
| acq_swap: "pcs s c = AcqSpin lk \<Longrightarrow> \<not> locked (lks s lk) \<Longrightarrow>
     lstep s (set_pc c (AcqSet lk) (s\<lparr>lks := (lks s)(lk := (lks s lk)\<lparr>locked := True\<rparr>)\<rparr>))"
| acq_cpu: "pcs s c = AcqSet lk \<Longrightarrow>
     lstep s (set_pc c Idle (s\<lparr>lks := (lks s)(lk := (lks s lk)\<lparr>lk_cpu := Some c\<rparr>),
                              crit := (crit s)(c := lk # crit s c)\<rparr>))"
| rel_enter: "pcs s c = Idle \<Longrightarrow> holding_hw c lk s \<Longrightarrow>
     lstep s (set_pc c (RelStore lk) (s\<lparr>lks := (lks s)(lk := (lks s lk)\<lparr>lk_cpu := None\<rparr>),
                              crit := (crit s)(c := remove1 lk (crit s c))\<rparr>))"
| rel_panic: "pcs s c = Idle \<Longrightarrow> \<not> holding_hw c lk s \<Longrightarrow>
     lstep s (set_pc c (Stopped ''release'') s)"
| rel_store: "pcs s c = RelStore lk \<Longrightarrow>
     lstep s (set_pc c RelPop (s\<lparr>lks := (lks s)(lk := (lks s lk)\<lparr>locked := False\<rparr>)\<rparr>))"
| rel_pop: "pcs s c = RelPop \<Longrightarrow> pop_off c s = Done () t \<Longrightarrow> lstep s (set_pc c Idle t)"
| rel_pop_panic: "pcs s c = RelPop \<Longrightarrow> pop_off c s = Panic m \<Longrightarrow> lstep s (set_pc c (Stopped m) s)"
| enable: "pcs s c = Idle \<Longrightarrow> noff (cpus s c) = 0 \<Longrightarrow> intr_on c s = Done () t \<Longrightarrow> lstep s t"

definition boot_lmachine :: lmachine where
  "boot_lmachine = \<lparr>lks = (\<lambda>_. \<lparr>locked = False, lk_name = '''', lk_cpu = None\<rparr>),
     cpus = (\<lambda>_. \<lparr>noff = 0, intena = False, sie = False\<rparr>),
     pcs = (\<lambda>_. Idle), crit = (\<lambda>_. [])\<rparr>"

inductive lreach :: "lmachine \<Rightarrow> bool" where
  boot: "lreach boot_lmachine"
| step: "lreach s \<Longrightarrow> lstep s t \<Longrightarrow> lreach t"

section \<open>The invariant\<close>

text \<open>The hart owns the word \<^verbatim>\<open>lk->locked\<close>: from its successful swap to its store of 0.\<close>

definition owns :: "lmachine \<Rightarrow> nat \<Rightarrow> lockid \<Rightarrow> bool" where
  "owns s c lk \<longleftrightarrow> pcs s c = AcqSet lk \<or> lk \<in> set (crit s c) \<or> pcs s c = RelStore lk"

fun pc_depth :: "pc \<Rightarrow> int" where
  "pc_depth Idle = 0"
| "pc_depth (Stopped m) = 0"
| "pc_depth _ = 1"

text \<open>At most one owner, and the word says whether there is one.\<close>

definition own_inv :: "lmachine \<Rightarrow> bool" where
  "own_inv s \<longleftrightarrow>
     (\<forall>lk c d. owns s c lk \<longrightarrow> owns s d lk \<longrightarrow> c = d) \<and>
     (\<forall>lk. locked (lks s lk) \<longleftrightarrow> (\<exists>c. owns s c lk))"

text \<open>\<^verbatim>\<open>lk->cpu\<close> names the hart whose critical section it is.\<close>

definition crit_inv :: "lmachine \<Rightarrow> bool" where
  "crit_inv s \<longleftrightarrow>
     (\<forall>lk c. lk_cpu (lks s lk) = Some c \<longleftrightarrow> lk \<in> set (crit s c)) \<and>
     (\<forall>c. distinct (crit s c)) \<and>
     (\<forall>c lk. pcs s c = AcqSet lk \<or> pcs s c = RelStore lk \<or> pcs s c = AcqSpin lk \<longrightarrow>
        lk \<notin> set (crit s c))"

text \<open>The nesting depth counts the held locks and the call in progress; while it is positive
  the hart takes no interrupts.\<close>

definition off_inv :: "lmachine \<Rightarrow> bool" where
  "off_inv s \<longleftrightarrow>
     (\<forall>c. (\<forall>m. pcs s c \<noteq> Stopped m) \<longrightarrow>
        noff (cpus s c) = int (length (crit s c)) + pc_depth (pcs s c)) \<and>
     (\<forall>c. 0 < noff (cpus s c) \<longrightarrow> \<not> sie (cpus s c))"

definition lock_inv :: "lmachine \<Rightarrow> bool" where
  "lock_inv s \<longleftrightarrow> own_inv s \<and> crit_inv s \<and> off_inv s"

lemma lock_inv_boot: "lock_inv boot_lmachine"
  by (simp add: lock_inv_def own_inv_def crit_inv_def off_inv_def owns_def boot_lmachine_def)

lemma crit_inv_unique:
  assumes "crit_inv s" and "lk \<in> set (crit s c)" and "lk \<in> set (crit s d)"
  shows "c = d"
proof -
  have "lk_cpu (lks s lk) = Some c" and "lk_cpu (lks s lk) = Some d"
    using assms by (simp_all add: crit_inv_def)
  then show ?thesis by simp
qed

text \<open>Ownership changes only at the successful swap and at the store of 0.\<close>

lemma own_inv_same:
  assumes "own_inv s" and "\<And>c lk. owns t c lk = owns s c lk"
    and "\<And>lk. locked (lks t lk) = locked (lks s lk)"
  shows "own_inv t"
  using assms by (simp add: own_inv_def)

lemma own_inv_gain:
  assumes "own_inv s" and "\<not> locked (lks s lk)"
    and "\<And>d k. owns t d k = (owns s d k \<or> d = c \<and> k = lk)"
    and "\<And>k. locked (lks t k) = (locked (lks s k) \<or> k = lk)"
  shows "own_inv t"
  using assms by (auto simp: own_inv_def)

lemma own_inv_lose:
  assumes "own_inv s" and "owns s c lk"
    and "\<And>d k. owns t d k = (owns s d k \<and> \<not> (d = c \<and> k = lk))"
    and "\<And>k. locked (lks t k) = (locked (lks s k) \<and> k \<noteq> lk)"
  shows "own_inv t"
  using assms by (auto simp: own_inv_def)

lemma own_inv_pc:
  assumes "own_inv s" and "lks t = lks s" and "crit t = crit s"
    and "\<And>d lk. pcs t d = AcqSet lk \<longleftrightarrow> pcs s d = AcqSet lk"
    and "\<And>d lk. pcs t d = RelStore lk \<longleftrightarrow> pcs s d = RelStore lk"
  shows "own_inv t"
  by (rule own_inv_same [OF assms(1)]) (simp_all add: assms owns_def)

lemma lstep_own: "lstep s t \<Longrightarrow> lock_inv s \<Longrightarrow> own_inv t"
proof (induction rule: lstep.induct)
  case (acq_swap s c lk)
  show ?case
  proof (rule own_inv_gain [of s lk _ c])
    show "own_inv s" using acq_swap by (simp add: lock_inv_def)
  qed (use acq_swap in \<open>auto simp: owns_def\<close>)
next
  case (acq_cpu s c lk)
  show ?case
  proof (rule own_inv_same [of s])
    show "own_inv s" using acq_cpu by (simp add: lock_inv_def)
  qed (use acq_cpu in \<open>auto simp: owns_def\<close>)
next
  case (rel_enter s c lk)
  then have c: "crit_inv s" "distinct (crit s c)" "lk \<in> set (crit s c)"
    by (auto simp: lock_inv_def crit_inv_def holding_hw_def)
  show ?case
  proof (rule own_inv_same [of s])
    show "own_inv s" using rel_enter by (simp add: lock_inv_def)
  qed (use rel_enter c in \<open>auto simp: owns_def\<close>)
next
  case (rel_store s c lk)
  then have c: "lk \<notin> set (crit s c)"
    by (auto simp: lock_inv_def crit_inv_def)
  show ?case
  proof (rule own_inv_lose [of s c lk])
    show "own_inv s" using rel_store by (simp add: lock_inv_def)
  qed (use rel_store c in \<open>auto simp: owns_def\<close>)
next
  case (acq_enter s c t lk)
  then show ?case
    by - (rule own_inv_pc [of s], auto simp: lock_inv_def push_off_app)
next
  case (acq_panic s c t lk)
  then show ?case
    by - (rule own_inv_pc [of s], auto simp: lock_inv_def push_off_app)
next
  case (rel_pop s c t)
  then show ?case
    by - (rule own_inv_pc [of s], auto simp: lock_inv_def pop_off_app split: if_splits)
next
  case (rel_pop_panic s c m)
  then show ?case
    by - (rule own_inv_pc [of s], auto simp: lock_inv_def)
next
  case (rel_panic s c lk)
  then show ?case
    by - (rule own_inv_pc [of s], auto simp: lock_inv_def)
next
  case (enable s c t)
  then show ?case
    by - (rule own_inv_pc [of s], auto simp: lock_inv_def intr_on_def)
qed (auto simp: lock_inv_def)

text \<open>The lock a hart is in the middle of acquiring or releasing.\<close>

definition busy :: "pc \<Rightarrow> lockid \<Rightarrow> bool" where
  "busy p lk \<longleftrightarrow> p = AcqSet lk \<or> p = RelStore lk \<or> p = AcqSpin lk"

lemma busy_simps [simp]:
  "busy (AcqSet lk) k = (lk = k)" "busy (RelStore lk) k = (lk = k)" "busy (AcqSpin lk) k = (lk = k)"
  "busy Idle k = False" "busy RelPop k = False" "busy (Stopped m) k = False"
  by (auto simp: busy_def)

lemma crit_inv_same:
  assumes "crit_inv s" and "crit t = crit s" and "\<And>lk. lk_cpu (lks t lk) = lk_cpu (lks s lk)"
    and "\<And>d lk. busy (pcs t d) lk \<Longrightarrow> busy (pcs s d) lk"
  shows "crit_inv t"
  using assms unfolding crit_inv_def busy_def [symmetric] by simp

lemma lstep_crit: "lstep s t \<Longrightarrow> lock_inv s \<Longrightarrow> crit_inv t"
proof (induction rule: lstep.induct)
  case (acq_cpu s c lk)
  have none: "lk_cpu (lks s lk) \<noteq> Some d" for d
  proof
    assume "lk_cpu (lks s lk) = Some d"
    then have "owns s d lk" and in_d: "lk \<in> set (crit s d)"
      using acq_cpu by (auto simp: lock_inv_def crit_inv_def owns_def)
    moreover have "owns s c lk" using acq_cpu by (simp add: owns_def)
    ultimately have "d = c" using acq_cpu by (auto simp: lock_inv_def own_inv_def)
    with in_d acq_cpu show False by (auto simp: lock_inv_def crit_inv_def)
  qed
  with acq_cpu show ?case by (auto simp: lock_inv_def crit_inv_def)
next
  case (acq_enter s c t lk)
  then have "lk \<notin> set (crit s c)"
    by (auto simp: lock_inv_def crit_inv_def own_inv_def owns_def holding_hw_def push_off_app)
  with acq_enter show ?case by (auto simp: lock_inv_def crit_inv_def push_off_app)
next
  case (rel_enter s c lk)
  then have "crit_inv s" and "lk \<in> set (crit s c)"
    by (auto simp: lock_inv_def crit_inv_def holding_hw_def)
  then have only: "lk \<in> set (crit s d) \<longleftrightarrow> d = c" for d
    using crit_inv_unique by blast
  have inv: "lk_cpu (lks s k) = Some d \<longleftrightarrow> k \<in> set (crit s d)" "distinct (crit s d)"
    "busy (pcs s d) k \<Longrightarrow> k \<notin> set (crit s d)" for k d
    using \<open>crit_inv s\<close> by (auto simp: crit_inv_def busy_def)
  show ?case
    unfolding crit_inv_def busy_def [symmetric]
  proof (intro conjI allI impI)
    fix k d
    assume "busy (pcs (set_pc c (RelStore lk) (s\<lparr>lks := (lks s)(lk := lks s lk\<lparr>lk_cpu := None\<rparr>),
       crit := (crit s)(c := remove1 lk (crit s c))\<rparr>)) d) k"
    then show "k \<notin> set (crit (set_pc c (RelStore lk) (s\<lparr>lks := (lks s)(lk := lks s lk\<lparr>lk_cpu := None\<rparr>),
       crit := (crit s)(c := remove1 lk (crit s c))\<rparr>)) d)"
      using inv by (cases "d = c") auto
  qed (use inv only in auto)
next
  case (acq_panic s c t lk)
  then show ?case
    by - (rule crit_inv_same [of s], auto simp: lock_inv_def push_off_app split: if_splits)
next
  case (rel_pop s c t)
  then show ?case
    by - (rule crit_inv_same [of s], auto simp: lock_inv_def pop_off_app split: if_splits)
next
  case (enable s c t)
  then show ?case
    by - (rule crit_inv_same [of s], auto simp: lock_inv_def intr_on_def)
next
  case (acq_swap s c lk)
  then show ?case
    by - (rule crit_inv_same [of s], auto simp: lock_inv_def split: if_splits)
next
  case (rel_store s c lk)
  then show ?case
    by - (rule crit_inv_same [of s], auto simp: lock_inv_def split: if_splits)
next
  case (rel_panic s c lk)
  then show ?case
    by - (rule crit_inv_same [of s], auto simp: lock_inv_def split: if_splits)
next
  case (rel_pop_panic s c m)
  then show ?case
    by - (rule crit_inv_same [of s], auto simp: lock_inv_def split: if_splits)
qed (simp add: lock_inv_def)

lemma lstep_off: "lstep s t \<Longrightarrow> lock_inv s \<Longrightarrow> off_inv t"
proof (induction rule: lstep.induct)
  case (rel_enter s c lk)
  then have "lk \<in> set (crit s c)"
    by (auto simp: lock_inv_def crit_inv_def holding_hw_def)
  then have "int (length (crit s c)) = int (length (remove1 lk (crit s c))) + 1"
    by (cases "length (crit s c)") (auto simp: length_remove1)
  with rel_enter show ?case
    by (auto simp: lock_inv_def off_inv_def)
qed (auto simp: lock_inv_def off_inv_def push_off_app pop_off_app intr_on_def split: if_splits)

lemma lstep_inv: "lstep s t \<Longrightarrow> lock_inv s \<Longrightarrow> lock_inv t"
  unfolding lock_inv_def [of t] by (blast intro: lstep_own lstep_crit lstep_off)

lemma lreach_inv: "lreach s \<Longrightarrow> lock_inv s"
  by (induction rule: lreach.induct) (auto intro: lock_inv_boot lstep_inv)

section \<open>Properties\<close>

text \<open>The hart's view of the locks, as the rest of the kernel sees it.\<close>

definition hart_view :: "lmachine \<Rightarrow> nat \<Rightarrow> hart" where
  "hart_view s c = \<lparr>held = crit s c\<rparr>"

lemma holding_crit:
  "lreach s \<Longrightarrow> holding_hw c lk s \<longleftrightarrow> lk \<in> set (crit s c)"
  using lreach_inv [of s]
  by (auto simp: lock_inv_def crit_inv_def own_inv_def owns_def holding_hw_def)

lemma crit_at_most_one: "lreach s \<Longrightarrow> lk \<in> set (crit s c) \<Longrightarrow> lk \<in> set (crit s d) \<Longrightarrow> c = d"
  using lreach_inv [of s] crit_inv_unique [of s lk c d] by (simp add: lock_inv_def)

lemma lstep_view:
  assumes "lreach s" and "lstep s t"
  shows "hart_view t d = hart_view s d
    \<or> (\<exists>lk. acquire lk (hart_view s d) = Done () (hart_view t d))
    \<or> (\<exists>lk. release lk (hart_view s d) = Done () (hart_view t d))"
  using assms(2,1)
proof (induction rule: lstep.induct)
  case (acq_cpu s c lk)
  then have "lk \<notin> set (crit s c)"
    using lreach_inv by (auto simp: lock_inv_def crit_inv_def)
  then show ?case by (cases "d = c") (auto simp: hart_view_def)
next
  case (rel_enter s c lk)
  then have "lk \<in> set (crit s c)" by (simp add: holding_crit)
  then show ?case by (cases "d = c") (auto simp: hart_view_def)
qed (auto simp: hart_view_def push_off_app pop_off_app intr_on_def split: if_splits)

text \<open>A state in which hart 0 has been through \<^verbatim>\<open>acquire(&kmem.lock)\<close>.\<close>

definition one_holder :: lmachine where
  "one_holder = boot_lmachine
     \<lparr>lks := (lks boot_lmachine)(LkKmem := \<lparr>locked = True, lk_name = [], lk_cpu = Some 0\<rparr>),
      cpus := (cpus boot_lmachine)(0 := \<lparr>noff = 1, intena = False, sie = False\<rparr>),
      crit := (\<lambda>_. [])(0 := [LkKmem])\<rparr>"

lemma lreach_one_holder: "lreach one_holder"
proof -
  let ?s1 = "boot_lmachine
     \<lparr>cpus := (cpus boot_lmachine)(0 := \<lparr>noff = 1, intena = False, sie = False\<rparr>),
      pcs := (\<lambda>_. Idle)(0 := AcqSpin LkKmem)\<rparr>"
  let ?s2 = "?s1\<lparr>lks := (lks boot_lmachine)(LkKmem := \<lparr>locked = True, lk_name = [], lk_cpu = None\<rparr>),
      pcs := (\<lambda>_. Idle)(0 := AcqSet LkKmem)\<rparr>"
  have "lstep boot_lmachine ?s1"
    using lstep.acq_enter [of boot_lmachine 0 _ LkKmem]
    by (simp add: push_off_app boot_lmachine_def holding_hw_def)
  moreover have "lstep ?s1 ?s2"
    using lstep.acq_swap [of ?s1 0 LkKmem] by (simp add: boot_lmachine_def)
  moreover have "lstep ?s2 one_holder"
    using lstep.acq_cpu [of ?s2 0 LkKmem]
    by (simp add: boot_lmachine_def one_holder_def fun_upd_idem)
  ultimately show ?thesis by (meson lreach.intros)
qed

text \<open>C7: mutual exclusion. In every state that any number of harts can reach by interleaving
  their atomic steps through \<^verbatim>\<open>acquire\<close> and \<^verbatim>\<open>release\<close>, at most one hart is inside the critical
  section of a lock, and a hart inside it is the one \<^verbatim>\<open>holding()\<close> reports, so its \<^verbatim>\<open>release\<close>
  does not panic.\<close>

theorem spinlock_mutual_exclusion:
  assumes "lreach s" and "lk \<in> set (crit s c)"
  shows "{d. lk \<in> set (crit s d)} = {c} \<and> {d. holding_hw d lk s} = {c}"
  using assms crit_at_most_one [OF assms(1)] holding_crit [OF assms(1)] by auto

theorem spinlock_mutual_exclusion_witness:
  "lreach one_holder \<and> {d. LkKmem \<in> set (crit one_holder d)} = {0}
    \<and> {d. holding_hw d LkKmem one_holder} = {0}"
  using lreach_one_holder
    spinlock_mutual_exclusion [OF lreach_one_holder, of LkKmem 0]
  by (simp add: one_holder_def)





end
