(* ===== verification/CString.thy ===== *)
theory CString
  imports Prelude
begin

text \<open>
  kernel/string.c. Memory is one byte array, so that overlapping arguments alias as they do
  in C. A routine that only reads through a pointer takes the bytes seen from that pointer
  (\<open>p i\<close> is \<^verbatim>\<open>p[i]\<close>). Counts are natural numbers, the value of the unsigned argument;
  \<open>strncpy\<close> and \<open>safestrcpy\<close> take the value of their signed count.
\<close>

section \<open>Definitions\<close>

fun memset :: "bytes \<Rightarrow> nat \<Rightarrow> u32 \<Rightarrow> nat \<Rightarrow> bytes" where
  "memset m dst c 0 = m"
| "memset m dst c (Suc n) = (memset m dst c n)(dst + n := ucast c)"

fun memcmp :: "bytes \<Rightarrow> bytes \<Rightarrow> nat \<Rightarrow> int" where
  "memcmp s1 s2 0 = 0"
| "memcmp s1 s2 (Suc n) =
     (if s1 0 \<noteq> s2 0 then uint (s1 0) - uint (s2 0)
      else memcmp (\<lambda>i. s1 (Suc i)) (\<lambda>i. s2 (Suc i)) n)"

text \<open>The two loops of \<^verbatim>\<open>memmove\<close>: \<open>*--d = *--s\<close> from the ends, \<open>*d++ = *s++\<close> from the
  starts.\<close>

fun memmove_down :: "bytes \<Rightarrow> nat \<Rightarrow> nat \<Rightarrow> nat \<Rightarrow> bytes" where
  "memmove_down m d s 0 = m"
| "memmove_down m d s (Suc n) = memmove_down (m(d - 1 := m (s - 1))) (d - 1) (s - 1) n"

fun memmove_up :: "bytes \<Rightarrow> nat \<Rightarrow> nat \<Rightarrow> nat \<Rightarrow> bytes" where
  "memmove_up m d s 0 = m"
| "memmove_up m d s (Suc n) = memmove_up (m(d := m s)) (Suc d) (Suc s) n"

definition memmove :: "bytes \<Rightarrow> nat \<Rightarrow> nat \<Rightarrow> nat \<Rightarrow> bytes" where
  "memmove m dst src n =
     (if n = 0 then m
      else if src < dst \<and> src + n > dst then memmove_down m (dst + n) (src + n) n
      else memmove_up m dst src n)"

definition memcpy :: "bytes \<Rightarrow> nat \<Rightarrow> nat \<Rightarrow> nat \<Rightarrow> bytes" where
  "memcpy m dst src n = memmove m dst src n"

fun strncmp :: "bytes \<Rightarrow> bytes \<Rightarrow> nat \<Rightarrow> int" where
  "strncmp p q 0 = 0"
| "strncmp p q (Suc n) =
     (if p 0 \<noteq> 0 \<and> p 0 = q 0 then strncmp (\<lambda>i. p (Suc i)) (\<lambda>i. q (Suc i)) n
      else uint (p 0) - uint (q 0))"

fun strncpy_pad :: "bytes \<Rightarrow> nat \<Rightarrow> nat \<Rightarrow> bytes" where
  "strncpy_pad m s 0 = m"
| "strncpy_pad m s (Suc n) = strncpy_pad (m(s := 0)) (Suc s) n"

fun strncpy_copy :: "bytes \<Rightarrow> nat \<Rightarrow> nat \<Rightarrow> nat \<Rightarrow> bytes" where
  "strncpy_copy m s t 0 = m"
| "strncpy_copy m s t (Suc n) =
     (if m t \<noteq> 0 then strncpy_copy (m(s := m t)) (Suc s) (Suc t) n
      else strncpy_pad (m(s := m t)) (Suc s) n)"

definition strncpy :: "bytes \<Rightarrow> nat \<Rightarrow> nat \<Rightarrow> int \<Rightarrow> bytes" where
  "strncpy m s t n = strncpy_copy m s t (nat n)"

text \<open>The loop runs while \<open>--n > 0\<close>; it stops after copying a NUL, and then one more NUL
  is written where \<open>s\<close> points.\<close>

fun safestrcpy_copy :: "bytes \<Rightarrow> nat \<Rightarrow> nat \<Rightarrow> nat \<Rightarrow> bytes" where
  "safestrcpy_copy m s t n =
     (if n > 1 then
        (if m t \<noteq> 0 then safestrcpy_copy (m(s := m t)) (Suc s) (Suc t) (n - 1)
         else (m(s := m t))(Suc s := 0))
      else m(s := 0))"

declare safestrcpy_copy.simps [simp del]

definition safestrcpy :: "bytes \<Rightarrow> nat \<Rightarrow> nat \<Rightarrow> int \<Rightarrow> bytes" where
  "safestrcpy m s t n = (if n \<le> 0 then m else safestrcpy_copy m s t (nat n))"

partial_function (option) strlen_from :: "bytes \<Rightarrow> nat \<Rightarrow> nat option" where
  "strlen_from s n = (if s n = 0 then Some n else strlen_from s (Suc n))"

definition strlen :: "bytes \<Rightarrow> nat option" where
  "strlen s = strlen_from s 0"

section \<open>memset and memmove\<close>

lemma memset_eq [bytes_simps]:
  "memset m dst c n = (\<lambda>x. if dst \<le> x \<and> x < dst + n then ucast c else m x)"
  by (induction n) (auto simp: fun_eq_iff)

lemma memmove_down_eq:
  "n \<le> d \<Longrightarrow> n \<le> s \<Longrightarrow> s \<le> d \<Longrightarrow>
   memmove_down m d s n = put_bytes m (d - n) (get_bytes m (s - n) n)"
proof (induction n arbitrary: m d s)
  case 0
  then show ?case by (simp add: get_bytes_def)
next
  case (Suc n)
  have "memmove_down m d s (Suc n)
      = put_bytes (m(d - 1 := m (s - 1))) (d - 1 - n) (get_bytes (m(d - 1 := m (s - 1))) (s - 1 - n) n)"
    using Suc by simp
  also have "\<dots> = put_bytes m (d - Suc n) (get_bytes m (s - Suc n) (Suc n))"
  proof
    fix x
    show "put_bytes (m(d - 1 := m (s - 1))) (d - 1 - n) (get_bytes (m(d - 1 := m (s - 1))) (s - 1 - n) n) x
        = put_bytes m (d - Suc n) (get_bytes m (s - Suc n) (Suc n)) x"
      using Suc.prems by (cases "x = d - 1") (auto simp: put_bytes_def)
  qed
  finally show ?case .
qed

lemma memmove_up_eq:
  "d \<le> s \<or> s + n \<le> d \<Longrightarrow> memmove_up m d s n = put_bytes m d (get_bytes m s n)"
proof (induction n arbitrary: m d s)
  case 0
  then show ?case by (simp add: get_bytes_def)
next
  case (Suc n)
  have "memmove_up m d s (Suc n) = put_bytes (m(d := m s)) (Suc d) (get_bytes (m(d := m s)) (Suc s) n)"
    unfolding memmove_up.simps by (rule Suc.IH) (use Suc.prems in auto)
  also have "\<dots> = put_bytes m d (get_bytes m s (Suc n))"
  proof
    fix x
    show "put_bytes (m(d := m s)) (Suc d) (get_bytes (m(d := m s)) (Suc s) n) x
        = put_bytes m d (get_bytes m s (Suc n)) x"
      using Suc.prems by (cases "x = d") (auto simp: put_bytes_def Suc_diff_Suc)
  qed
  finally show ?case .
qed

lemma memmove_eq [bytes_simps]: "memmove m dst src n = put_bytes m dst (get_bytes m src n)"
  unfolding memmove_def
  by (auto simp: memmove_down_eq memmove_up_eq get_bytes_def)

section \<open>Comparison\<close>

text \<open>What \<^verbatim>\<open>strncmp\<close> compares: the first \<open>n\<close> bytes, cut at the first NUL.\<close>

fun cstr :: "bytes \<Rightarrow> nat \<Rightarrow> byte list" where
  "cstr p 0 = []"
| "cstr p (Suc n) = (if p 0 = 0 then [] else p 0 # cstr (\<lambda>i. p (Suc i)) n)"

lemma strncmp_eq_0: "strncmp p q n = 0 \<longleftrightarrow> cstr p n = cstr q n"
proof (induction p q n rule: strncmp.induct)
  case (1 p q)
  then show ?case by simp
next
  case (2 p q n)
  have "uint (p 0) - uint (q 0) = 0 \<longleftrightarrow> p 0 = q 0"
    by (simp add: word_uint_eq_iff)
  with 2 show ?case by auto
qed

lemma memcmp_eq_0: "memcmp p q n = 0 \<longleftrightarrow> (\<forall>i<n. p i = q i)"
proof (induction p q n rule: memcmp.induct)
  case (1 p q)
  then show ?case by simp
next
  case (2 p q n)
  then show ?case
    by (auto simp: word_uint_eq_iff less_Suc_eq_0_disj)
qed

section \<open>Copying strings\<close>

lemma strncpy_pad_eq:
  "strncpy_pad m s n = (\<lambda>x. if s \<le> x \<and> x < s + n then 0 else m x)"
  by (induction n arbitrary: m s) (auto simp: fun_eq_iff)

lemma length_cstr: "length (cstr p n) \<le> n"
  by (induction p n rule: cstr.induct) auto

lemma cstr_cong: "(\<And>i. i < n \<Longrightarrow> p i = q i) \<Longrightarrow> cstr p n = cstr q n"
proof (induction n arbitrary: p q)
  case 0
  then show ?case by simp
next
  case (Suc n)
  have "cstr (\<lambda>i. p (Suc i)) n = cstr (\<lambda>i. q (Suc i)) n"
    by (rule Suc.IH) (use Suc.prems in auto)
  with Suc.prems [of 0] show ?case by simp
qed

text \<open>With arguments that do not overlap, \<^verbatim>\<open>strncpy\<close> writes exactly \<open>n\<close> bytes: the string
  cut at \<open>n\<close>, padded with NULs.\<close>

lemma strncpy_copy_eq:
  assumes "s + n \<le> t \<or> t + n \<le> s"
  shows "strncpy_copy m s t n
    = put_bytes m s (cstr (\<lambda>i. m (t + i)) n @ replicate (n - length (cstr (\<lambda>i. m (t + i)) n)) 0)"
  using assms
proof (induction n arbitrary: m s t)
  case 0
  then show ?case by simp
next
  case (Suc n)
  let ?m' = "m(s := m t)"
  have same: "cstr (\<lambda>i. ?m' (Suc t + i)) n = cstr (\<lambda>i. m (t + Suc i)) n"
    by (rule cstr_cong) (use Suc.prems in auto)
  show ?case
  proof (cases "m t = 0")
    case True
    then show ?thesis
      by (simp add: strncpy_pad_eq put_bytes_Cons)
        (auto simp: put_bytes_def fun_eq_iff)
  next
    case False
    let ?xs = "cstr (\<lambda>i. m (t + Suc i)) n"
    have "strncpy_copy m s t (Suc n) = strncpy_copy ?m' (Suc s) (Suc t) n"
      using False by simp
    also have "\<dots> = put_bytes ?m' (Suc s) (?xs @ replicate (n - length ?xs) 0)"
      unfolding same [symmetric] by (rule Suc.IH) (use Suc.prems in auto)
    also have "\<dots> = put_bytes m s (m t # ?xs @ replicate (n - length ?xs) 0)"
      by (simp add: put_bytes_Cons)
    finally show ?thesis using False by simp
  qed
qed

lemma safestrcpy_copy_eq:
  assumes "0 < n" and "s + n \<le> t \<or> t + n \<le> s"
  shows "\<exists>ys. safestrcpy_copy m s t n
      = put_bytes m s (cstr (\<lambda>i. m (t + i)) (n - 1) @ 0 # ys)
    \<and> length (cstr (\<lambda>i. m (t + i)) (n - 1) @ 0 # ys) \<le> n"
  using assms
proof (induction n arbitrary: m s t)
  case 0
  then show ?case by simp
next
  case (Suc n)
  let ?m' = "m(s := m t)"
  show ?case
  proof (cases "n = 0")
    case True
    then show ?thesis
      by (intro exI [of _ "[]"]) (simp add: safestrcpy_copy.simps put_bytes_Cons)
  next
    case n: False
    then obtain k where k: "n = Suc k" by (cases n) auto
    show ?thesis
    proof (cases "m t = 0")
      case True
      with n k show ?thesis
        by (intro exI [of _ "[0]"])
          (simp add: safestrcpy_copy.simps [of m s t "Suc (Suc k)"] put_bytes_Cons)
    next
      case False
      have same: "cstr (\<lambda>i. ?m' (Suc t + i)) (n - 1) = cstr (\<lambda>i. m (t + Suc i)) (n - 1)"
        by (rule cstr_cong) (use Suc.prems in auto)
      obtain ys where ys: "safestrcpy_copy ?m' (Suc s) (Suc t) n
          = put_bytes ?m' (Suc s) (cstr (\<lambda>i. m (t + Suc i)) (n - 1) @ 0 # ys)"
        and len: "length (cstr (\<lambda>i. m (t + Suc i)) (n - 1) @ 0 # ys) \<le> n"
      proof -
        have "0 < n" and "Suc s + n \<le> Suc t \<or> Suc t + n \<le> Suc s"
          using n Suc.prems(2) by auto
        from Suc.IH [OF this, of ?m'] show ?thesis
          unfolding same using that by blast
      qed
      have "safestrcpy_copy m s t (Suc n) = safestrcpy_copy ?m' (Suc s) (Suc t) n"
        using False n by (simp add: safestrcpy_copy.simps [of m s t "Suc n"])
      also have "\<dots> = put_bytes m s (m t # cstr (\<lambda>i. m (t + Suc i)) (n - 1) @ 0 # ys)"
        unfolding ys by (simp add: put_bytes_Cons)
      finally show ?thesis
        using False len k by (intro exI [of _ ys]) simp
    qed
  qed
qed

section \<open>String length\<close>

lemma strlen_from_Some:
  "n \<le> k \<Longrightarrow> s k = 0 \<Longrightarrow> (\<And>i. n \<le> i \<Longrightarrow> i < k \<Longrightarrow> s i \<noteq> 0) \<Longrightarrow> strlen_from s n = Some k"
proof (induction "k - n" arbitrary: n)
  case 0
  then show ?case by (simp add: strlen_from.simps)
next
  case (Suc d)
  then have "strlen_from s (Suc n) = Some k" by simp
  moreover have "s n \<noteq> 0" using Suc by simp
  ultimately show ?case by (simp add: strlen_from.simps)
qed

lemma strlen_least:
  assumes "s k = 0"
  shows "strlen s = Some (LEAST i. s i = 0)"
  unfolding strlen_def
  by (rule strlen_from_Some) (use assms not_less_Least in \<open>auto intro: LeastI\<close>)

section \<open>Properties\<close>

text \<open>C17: \<^verbatim>\<open>memmove\<close> copies as if through a temporary buffer, for every overlap of source and
  destination: the \<open>n\<close> destination bytes get the old source bytes and nothing else changes.\<close>

theorem memmove_as_if_buffered:
  "memmove m dst src n = (\<lambda>x. if dst \<le> x \<and> x < dst + n then m (src + (x - dst)) else m x)"
  by (auto simp: memmove_eq put_bytes_def fun_eq_iff)

text \<open>C18: \<^verbatim>\<open>safestrcpy\<close> between buffers that do not overlap writes at most \<open>n\<close> bytes, the longest
  prefix of the source string that leaves room for a NUL, and that NUL.\<close>

theorem safestrcpy_bounded_terminated:
  assumes "0 < n" and "s + nat n \<le> t \<or> t + nat n \<le> s"
  shows "\<exists>ys. safestrcpy m s t n = put_bytes m s (cstr (\<lambda>i. m (t + i)) (nat n - 1) @ 0 # ys)
    \<and> length (cstr (\<lambda>i. m (t + i)) (nat n - 1) @ 0 # ys) \<le> nat n"
  using safestrcpy_copy_eq [of "nat n" s t m] assms by (simp add: safestrcpy_def)

theorem safestrcpy_bounded_terminated_witness:
  "\<exists>ys. safestrcpy ((\<lambda>_. 0)(100 := 65, 101 := 66, 102 := 67)) 10 100 3
      = put_bytes ((\<lambda>_. 0)(100 := 65, 101 := 66, 102 := 67)) 10 ([65, 66] @ 0 # ys)"
proof -
  let ?m = "(\<lambda>_. 0)(100 := 65, 101 := 66, 102 := 67) :: bytes"
  have two: "nat 3 - 1 = Suc (Suc 0)" by simp
  have "(65 :: byte) \<noteq> 0" "(66 :: byte) \<noteq> 0" by simp_all
  then have "cstr (\<lambda>i. ?m (100 + i)) (nat 3 - 1) = [65, 66]" unfolding two by simp
  with safestrcpy_bounded_terminated [of 3 10 100 ?m] show ?thesis by auto
qed

end
