(* ===== verification/Kalloc.thy ===== *)
theory Kalloc
  imports Kmonad CString
begin

text \<open>
  kernel/kalloc.c: the allocator of 4096-byte pages of physical memory. Physical memory is
  one byte array indexed by the physical address; the free list is linked through the
  first eight bytes of the free pages, as \<^verbatim>\<open>struct run\<close> does. The symbol \<^verbatim>\<open>end\<close>, the first address
  after the kernel, comes from the linker script and is the field \<open>kend\<close>.
  The list of free pages (\<open>flist\<close>) is the abstract state: \<^verbatim>\<open>kfree\<close> pushes a page, \<^verbatim>\<open>kalloc\<close> pops
  one. The locale \<open>page_allocator\<close> is that contract, interpreted here on the code's model and
  used by the page-table code.
\<close>

unbundle bit_operations_syntax

section \<open>Pages\<close>

definition PGSIZE :: u64 where
  "PGSIZE = 4096"

definition KERNBASE :: u64 where
  "KERNBASE = 0x80000000"

definition PHYSTOP :: u64 where
  "PHYSTOP = KERNBASE + 128 * 1024 * 1024"

definition PGROUNDUP :: "u64 \<Rightarrow> u64" where
  "PGROUNDUP sz = (sz + PGSIZE - 1) AND NOT (PGSIZE - 1)"

definition PGROUNDDOWN :: "u64 \<Rightarrow> u64" where
  "PGROUNDDOWN a = a AND NOT (PGSIZE - 1)"

lemma PGSIZE_unat [simp]: "unat PGSIZE = 4096"
  by (simp add: PGSIZE_def)

section \<open>Operations\<close>

record kmem = hart +
  mem :: bytes
  freelist :: u64
  kend :: u64

definition memset_k :: "u64 \<Rightarrow> u32 \<Rightarrow> nat \<Rightarrow> ('x kmem_scheme, unit) K" where
  "memset_k dst c n = modk (\<lambda>s. s\<lparr>mem := memset (mem s) (unat dst) c n\<rparr>)"

definition kfree :: "u64 \<Rightarrow> ('x kmem_scheme, unit) K" where
  "kfree pa =
     bnd (getk kend) (\<lambda>e.
     if pa mod PGSIZE \<noteq> 0 \<or> pa < e \<or> pa \<ge> PHYSTOP then panic ''kfree'' else
     thn (memset_k pa 1 (unat PGSIZE)) (
     thn (acquire LkKmem) (
     thn (modk (\<lambda>s. s\<lparr>mem := st64 (mem s) (unat pa) (freelist s)\<rparr>)) (
     thn (modk (\<lambda>s. s\<lparr>freelist := pa\<rparr>))
         (release LkKmem)))))"

definition kalloc :: "('x kmem_scheme, u64) K" where
  "kalloc =
     thn (acquire LkKmem) (
     bnd (getk freelist) (\<lambda>r.
     thn (whenk (r \<noteq> 0) (modk (\<lambda>s. s\<lparr>freelist := ld64 (mem s) (unat r)\<rparr>))) (
     thn (release LkKmem) (
     thn (whenk (r \<noteq> 0) (memset_k r 5 (unat PGSIZE)))
         (ret r)))))"

lemma page_step:
  "unat p + 4096 \<le> unat (e :: u64) \<Longrightarrow> unat (p + PGSIZE) = unat p + 4096"
  using unsigned_less [of e, where ?'a = nat] unat_add_less [of p PGSIZE] by (simp add: PGSIZE_def)

function freerange_loop :: "u64 \<Rightarrow> u64 \<Rightarrow> ('x kmem_scheme, unit) K" where
  "freerange_loop p pa_end =
     (if unat p + unat PGSIZE \<le> unat pa_end
      then thn (kfree p) (freerange_loop (p + PGSIZE) pa_end)
      else ret ())"
  by pat_completeness auto
termination
  by (relation "measure (\<lambda>(p, e). unat e - unat p)") (auto simp: page_step)

declare freerange_loop.simps [simp del]

definition freerange :: "u64 \<Rightarrow> u64 \<Rightarrow> ('x kmem_scheme, unit) K" where
  "freerange pa_start pa_end = freerange_loop (PGROUNDUP pa_start) pa_end"

definition kinit :: "('x kmem_scheme, unit) K" where
  "kinit = thn (initlk LkKmem) (bnd (getk kend) (\<lambda>e. freerange e PHYSTOP))"

section \<open>Rounding\<close>

lemma and_page_mask: "(a :: u64) AND - 4096 = push_bit 12 (drop_bit 12 a)"
proof (rule bit_eqI)
  fix n
  assume "possible_bit TYPE(64 word) n"
  have "(- 4096 :: u64) = NOT (mask 12)" by (simp add: mask_eq_exp_minus_1)
  then have "bit (- 4096 :: u64) n \<longleftrightarrow> n < 64 \<and> 12 \<le> n"
    by (simp only: bit_simps) auto
  then show "bit (a AND - 4096) n = bit (push_bit 12 (drop_bit 12 a)) n"
    by (auto simp: bit_and_iff bit_push_bit_iff bit_drop_bit_eq dest: bit_imp_le_length)
qed

lemma unat_and_page_mask: "unat ((a :: u64) AND - 4096) = unat a div 4096 * 4096"
proof -
  have "unat a div 4096 * 4096 < 2 ^ 64"
    using unsigned_less [of a, where ?'a = nat] by simp
  then have "unat (a div 4096 * 4096) = unat a div 4096 * 4096"
    by (simp add: unat_word_ariths unat_div_distrib)
  then show ?thesis
    by (simp add: and_page_mask push_bit_eq_mult drop_bit_eq_div)
qed

lemma PGROUNDDOWN_unat: "unat (PGROUNDDOWN a) = unat a div 4096 * 4096"
  by (simp add: PGROUNDDOWN_def PGSIZE_def unat_and_page_mask)

lemma PGROUNDUP_unat:
  "unat a + 4095 < 2 ^ 64 \<Longrightarrow> unat (PGROUNDUP a) = (unat a + 4095) div 4096 * 4096"
proof -
  assume "unat a + 4095 < 2 ^ 64"
  then have "unat (a + 4095) = unat a + 4095"
    by (simp add: unat_add_less)
  then have "unat (4095 + a) = unat a + 4095" by (simp add: add.commute)
  then show ?thesis
    by (simp add: PGROUNDUP_def PGSIZE_def unat_and_page_mask)
qed

lemma PHYSTOP_unat [simp]: "unat PHYSTOP = 0x88000000"
  by (simp add: PHYSTOP_def KERNBASE_def)

lemma page_aligned_unat: "a mod PGSIZE = 0 \<longleftrightarrow> 4096 dvd unat a"
proof -
  have "unat (a mod PGSIZE) = unat a mod 4096"
    by (simp add: unat_mod_distrib)
  then show ?thesis by (simp add: dvd_eq_mod_eq_0 flip: unat_eq_zero)
qed

section \<open>The abstract free list\<close>

fun flist :: "bytes \<Rightarrow> u64 \<Rightarrow> u64 list \<Rightarrow> bool" where
  "flist m p [] \<longleftrightarrow> p = 0"
| "flist m p (x # xs) \<longleftrightarrow> p = x \<and> x \<noteq> 0 \<and> flist m (ld64 m (unat x)) xs"

definition page_ok :: "'x kmem_scheme \<Rightarrow> u64 \<Rightarrow> bool" where
  "page_ok s p \<longleftrightarrow> p mod PGSIZE = 0 \<and> kend s \<le> p \<and> p < PHYSTOP \<and> p \<noteq> 0"

definition in_page :: "u64 \<Rightarrow> nat \<Rightarrow> bool" where
  "in_page p x \<longleftrightarrow> unat p \<le> x \<and> x < unat p + 4096"

definition free_pages :: "'x kmem_scheme \<Rightarrow> u64 list \<Rightarrow> bool" where
  "free_pages s ps \<longleftrightarrow> flist (mem s) (freelist s) ps \<and> distinct ps \<and> (\<forall>p \<in> set ps. page_ok s p)"

definition mem_same_outside :: "u64 \<Rightarrow> 'x kmem_scheme \<Rightarrow> 'x kmem_scheme \<Rightarrow> bool" where
  "mem_same_outside p s t \<longleftrightarrow>
     (\<exists>f m. t = s\<lparr>mem := m, freelist := f\<rparr> \<and> (\<forall>x. \<not> in_page p x \<longrightarrow> m x = mem s x))"

lemma aligned_disjoint:
  assumes "p mod PGSIZE = 0" "q mod PGSIZE = 0" "p \<noteq> q" "in_page p x"
  shows "\<not> in_page q x"
proof -
  have "4096 dvd unat p" "4096 dvd unat q"
    using assms(1,2) by (simp_all add: page_aligned_unat)
  then obtain k l where kl: "unat p = 4096 * k" "unat q = 4096 * l" by (elim dvdE)
  have "k \<noteq> l" using assms(3) kl word_unat_eq_iff [of p q] by metis
  then have "k < l \<or> l < k" by auto
  with kl assms(4) show ?thesis
    unfolding in_page_def by auto
qed

lemma next_page:
  fixes p q :: u64
  assumes "4096 dvd unat p" "4096 dvd unat q"
  shows "unat p + 4096 \<le> unat q \<longleftrightarrow> unat p \<le> unat q \<and> p \<noteq> q"
proof -
  obtain k l where kl: "unat p = 4096 * k" "unat q = 4096 * l" using assms by (elim dvdE)
  have "p = q \<longleftrightarrow> k = l" using kl word_unat_eq_iff [of p q] by auto
  with kl show ?thesis by auto
qed

lemma flist_cong:
  assumes "flist m p ps" and "\<And>q x. q \<in> set ps \<Longrightarrow> in_page q x \<Longrightarrow> m' x = m x"
  shows "flist m' p ps"
  using assms
proof (induction ps arbitrary: p)
  case Nil
  then show ?case by simp
next
  case (Cons q qs)
  have "ld64 m' (unat q) = ld64 m (unat q)"
    by (rule ld64_cong) (use Cons.prems(2) [of q] in \<open>auto simp: in_page_def\<close>)
  with Cons show ?case by auto
qed

lemma free_pages_frame:
  assumes "free_pages s ps" "p \<notin> set ps" "p mod PGSIZE = 0"
    and "\<And>x. \<not> in_page p x \<Longrightarrow> m x = mem s x"
  shows "flist m (freelist s) ps"
proof (rule flist_cong)
  show "flist (mem s) (freelist s) ps" using assms(1) by (simp add: free_pages_def)
  fix q x assume "q \<in> set ps" "in_page q x"
  then have "\<not> in_page p x"
    using assms aligned_disjoint [of q p x] by (auto simp: free_pages_def page_ok_def)
  then show "m x = mem s x" by (rule assms(4))
qed

lemma kfree_app:
  "page_ok s p \<Longrightarrow> LkKmem \<notin> set (held s) \<Longrightarrow>
   kfree p s = Done () (s\<lparr>mem := st64 (memset (mem s) (unat p) 1 4096) (unat p) (freelist s),
                          freelist := p\<rparr>)"
  by (auto simp: kfree_def page_ok_def memset_k_def kernel_simps)

lemma kalloc_app:
  "LkKmem \<notin> set (held s) \<Longrightarrow>
   kalloc s = (if freelist s = 0 then Done 0 s
     else Done (freelist s) (s\<lparr>mem := memset (mem s) (unat (freelist s)) 5 4096,
                               freelist := ld64 (mem s) (unat (freelist s))\<rparr>))"
  by (auto simp: kalloc_def memset_k_def kernel_simps)

lemma memset_page_outside: "\<not> in_page p x \<Longrightarrow> memset m (unat p) c 4096 x = m x"
  by (auto simp: memset_eq in_page_def)

lemma st64_page_outside: "\<not> in_page p x \<Longrightarrow> st64 m (unat p) v x = m x"
  by (rule st64_outside) (auto simp: in_page_def)

lemma kfree_ok:
  assumes "free_pages s ps" "page_ok s p" "p \<notin> set ps" "LkKmem \<notin> set (held s)"
  shows "\<exists>t. kfree p s = Done () t \<and> free_pages t (p # ps) \<and> mem_same_outside p s t"
proof -
  let ?m = "st64 (memset (mem s) (unat p) 1 4096) (unat p) (freelist s)"
  have out: "\<not> in_page p x \<Longrightarrow> ?m x = mem s x" for x
    by (simp add: st64_page_outside memset_page_outside)
  have "flist ?m (freelist s) ps"
    by (rule free_pages_frame [of s ps p]) (use assms out in \<open>auto simp: page_ok_def\<close>)
  then have "free_pages (s\<lparr>mem := ?m, freelist := p\<rparr>) (p # ps)"
    using assms by (auto simp: free_pages_def page_ok_def)
  with assms out show ?thesis
    by (auto simp: kfree_app mem_same_outside_def)
qed

lemma kalloc_ok:
  assumes "free_pages s (p # ps)" "LkKmem \<notin> set (held s)"
  shows "\<exists>t. kalloc s = Done p t \<and> free_pages t ps \<and> mem_same_outside p s t
           \<and> (\<forall>x. in_page p x \<longrightarrow> mem t x = 5)"
proof -
  let ?m = "memset (mem s) (unat p) 5 4096"
  let ?t = "s\<lparr>mem := ?m, freelist := ld64 (mem s) (unat p)\<rparr>"
  have tail: "free_pages (s\<lparr>freelist := ld64 (mem s) (unat p)\<rparr>) ps"
    using assms(1) by (auto simp: free_pages_def page_ok_def)
  have "flist ?m (ld64 (mem s) (unat p)) ps"
    using free_pages_frame [OF tail, of p ?m] assms(1)
    by (auto simp: free_pages_def page_ok_def memset_page_outside)
  then have "free_pages ?t ps"
    using assms(1) by (auto simp: free_pages_def page_ok_def)
  moreover have "kalloc s = Done p ?t"
    using assms by (auto simp: kalloc_app free_pages_def)
  moreover have "mem_same_outside p s ?t"
    unfolding mem_same_outside_def using memset_page_outside by blast
  moreover have "\<forall>x. in_page p x \<longrightarrow> ?m x = 5"
    by (auto simp: memset_eq in_page_def)
  ultimately show ?thesis by simp
qed

section \<open>The allocator as an interface\<close>

text \<open>What the clients of kalloc.c rely on: \<open>avail s ps\<close> says that the free pages are \<open>ps\<close>,
  in the order they will be handed out; \<open>only p s t\<close> that nothing but page \<open>p\<close> changed.\<close>

locale page_allocator =
  fixes alloc :: "('s, u64) K"
    and free :: "u64 \<Rightarrow> ('s, unit) K"
    and avail :: "'s \<Rightarrow> u64 list \<Rightarrow> bool"
    and usable :: "'s \<Rightarrow> u64 \<Rightarrow> bool"
    and only :: "u64 \<Rightarrow> 's \<Rightarrow> 's \<Rightarrow> bool"
  assumes alloc_none: "avail s [] \<Longrightarrow> alloc s = Done 0 s"
    and alloc_some: "avail s (p # ps) \<Longrightarrow> \<exists>t. alloc s = Done p t \<and> avail t ps \<and> only p s t"
    and free_ok: "avail s ps \<Longrightarrow> usable s p \<Longrightarrow> p \<notin> set ps \<Longrightarrow>
      \<exists>t. free p s = Done () t \<and> avail t (p # ps) \<and> only p s t"
    and avail_usable: "avail s ps \<Longrightarrow> distinct ps \<and> (\<forall>p \<in> set ps. usable s p \<and> p \<noteq> 0)"
    and usable_only: "only p s t \<Longrightarrow> usable t q = usable s q"
begin

lemma free_then_alloc:
  assumes "avail s ps" "usable s p" "p \<notin> set ps"
  shows "\<exists>t. thn (free p) alloc s = Done p t \<and> avail t ps"
proof -
  obtain t where t: "free p s = Done () t" "avail t (p # ps)"
    using free_ok [OF assms] by blast
  with alloc_some [OF t(2)] show ?thesis by (auto simp: thn_app)
qed

lemma frees_ok:
  assumes "avail s ps" "\<forall>q \<in> set qs. usable s q" "distinct qs" "set qs \<inter> set ps = {}"
  shows "\<exists>t. eachk free qs s = Done () t \<and> avail t (rev qs @ ps) \<and> (\<forall>q. usable t q = usable s q)"
  using assms
proof (induction qs arbitrary: s ps)
  case Nil
  then show ?case by simp
next
  case (Cons q qs)
  then obtain t where t: "free q s = Done () t" "avail t (q # ps)" "only q s t"
    using free_ok [of s ps q] by auto
  have "\<exists>u. eachk free qs t = Done () u \<and> avail u (rev qs @ q # ps) \<and> (\<forall>r. usable u r = usable t r)"
    by (rule Cons.IH) (use Cons.prems t usable_only in auto)
  with t usable_only show ?case by (auto simp: thn_app)
qed

lemma alloc_result:
  assumes "avail s ps"
  shows "\<exists>p t. alloc s = Done p t \<and> (if p = 0 then ps = [] \<and> t = s
           else ps = p # tl ps \<and> avail t (tl ps) \<and> only p s t \<and> usable s p)"
proof (cases ps)
  case Nil
  with assms alloc_none show ?thesis by auto
next
  case (Cons q qs)
  with assms alloc_some [of s q qs] avail_usable [OF assms] show ?thesis by fastforce
qed

end

definition alloc_ready :: "'x kmem_scheme \<Rightarrow> u64 list \<Rightarrow> bool" where
  "alloc_ready s ps \<longleftrightarrow> free_pages s ps \<and> LkKmem \<notin> set (held s)"

lemma page_ok_same [simp]: "page_ok (s\<lparr>mem := m\<rparr>) = page_ok s" "page_ok (s\<lparr>freelist := f\<rparr>) = page_ok s"
  by (auto simp: page_ok_def fun_eq_iff)

lemma mem_same_outside_fields:
  "mem_same_outside p s t \<Longrightarrow> held t = held s \<and> kend t = kend s"
  by (auto simp: mem_same_outside_def)

interpretation ka: page_allocator kalloc kfree alloc_ready page_ok mem_same_outside
proof unfold_locales
  fix s :: "'x kmem_scheme" and ps p t q
  show "alloc_ready s [] \<Longrightarrow> kalloc s = Done 0 s"
    by (simp add: alloc_ready_def free_pages_def kalloc_app)
  show "alloc_ready s (p # ps) \<Longrightarrow>
      \<exists>t. kalloc s = Done p t \<and> alloc_ready t ps \<and> mem_same_outside p s t"
    using kalloc_ok [of s p ps] mem_same_outside_fields unfolding alloc_ready_def by metis
  show "alloc_ready s ps \<Longrightarrow> page_ok s p \<Longrightarrow> p \<notin> set ps \<Longrightarrow>
      \<exists>t. kfree p s = Done () t \<and> alloc_ready t (p # ps) \<and> mem_same_outside p s t"
    using kfree_ok [of s ps p] mem_same_outside_fields unfolding alloc_ready_def by metis
  show "alloc_ready s ps \<Longrightarrow> distinct ps \<and> (\<forall>p \<in> set ps. page_ok s p \<and> p \<noteq> 0)"
    by (auto simp: alloc_ready_def free_pages_def page_ok_def)
  show "mem_same_outside p s t \<Longrightarrow> page_ok t q = page_ok s q"
    by (auto simp: mem_same_outside_def)
qed

section \<open>Boot\<close>

text \<open>The pages between two addresses, in the order \<open>freerange\<close> visits them.\<close>

function page_range :: "u64 \<Rightarrow> u64 \<Rightarrow> u64 list" where
  "page_range p e =
     (if unat p + unat PGSIZE \<le> unat e then p # page_range (p + PGSIZE) e else [])"
  by pat_completeness auto
termination
  by (relation "measure (\<lambda>(p, e). unat e - unat p)") (auto simp: page_step)

declare page_range.simps [simp del]

lemma freerange_loop_eq: "freerange_loop p e = eachk kfree (page_range p e)"
proof (induction p e rule: page_range.induct)
  case (1 p e)
  then show ?case
    by (subst freerange_loop.simps, subst page_range.simps) simp
qed

definition pages_between :: "u64 \<Rightarrow> u64 \<Rightarrow> u64 set" where
  "pages_between p e = {q. 4096 dvd unat q \<and> unat p \<le> unat q \<and> unat q < unat e}"

lemma pages_between_step:
  assumes "4096 dvd unat p" "unat p + 4096 \<le> unat e"
  shows "pages_between p e = insert p (pages_between (p + PGSIZE) e)" "p \<notin> pages_between (p + PGSIZE) e"
proof -
  have st: "unat (p + PGSIZE) = unat p + 4096" using assms(2) by (rule page_step)
  have "4096 dvd unat q \<Longrightarrow> unat p + 4096 \<le> unat q \<longleftrightarrow> unat p \<le> unat q \<and> p \<noteq> q" for q
    using next_page assms(1) .
  with assms st show "pages_between p e = insert p (pages_between (p + PGSIZE) e)"
    unfolding pages_between_def by fastforce
  show "p \<notin> pages_between (p + PGSIZE) e" using st by (simp add: pages_between_def)
qed

lemma pages_between_empty:
  assumes "4096 dvd unat e" "\<not> unat p + 4096 \<le> unat e"
  shows "pages_between p e = {}"
proof -
  have "4096 dvd unat q \<Longrightarrow> unat q + 4096 \<le> unat e \<longleftrightarrow> unat q \<le> unat e \<and> q \<noteq> e" for q
    using next_page [OF _ assms(1)] .
  with assms show ?thesis unfolding pages_between_def by fastforce
qed

lemma page_range_set:
  assumes "4096 dvd unat p" "4096 dvd unat e"
  shows "set (page_range p e) = pages_between p e \<and> distinct (page_range p e)"
  using assms
proof (induction p e rule: page_range.induct)
  case (1 p e)
  show ?case
  proof (cases "unat p + 4096 \<le> unat e")
    case True
    then have "4096 dvd unat (p + PGSIZE)" using page_step [OF True] 1(2) by simp
    with 1 True have "set (page_range (p + PGSIZE) e) = pages_between (p + PGSIZE) e
        \<and> distinct (page_range (p + PGSIZE) e)" by simp
    moreover have "page_range p e = p # page_range (p + PGSIZE) e"
      using True by (subst page_range.simps) simp
    ultimately show ?thesis using pages_between_step [OF 1(2) True] by simp
  next
    case False
    then have "page_range p e = []" by (subst page_range.simps) simp
    with pages_between_empty [OF 1(3) False] show ?thesis by simp
  qed
qed

lemma kfree_keeps_kend: "keeps (\<lambda>s. kend s = e) (kfree p)"
  by (simp add: keeps_def kfree_def memset_k_def kernel_simps)

lemma kinit_ok:
  assumes "freelist s = 0" "0 < kend s" "unat (kend s) + 4095 < 2 ^ 64"
  shows "\<exists>ps t. kinit s = Done () t \<and> alloc_ready t ps
           \<and> set ps = pages_between (kend s) PHYSTOP \<and> kend t = kend s"
proof -
  let ?p = "PGROUNDUP (kend s)" and ?s = "s\<lparr>held := removeAll LkKmem (held s)\<rparr>"
  let ?qs = "page_range ?p PHYSTOP"
  have up: "unat ?p = (unat (kend s) + 4095) div 4096 * 4096"
    using assms(3) by (rule PGROUNDUP_unat)
  have "unat ?p \<le> unat q \<longleftrightarrow> unat (kend s) \<le> unat q" if "4096 dvd unat q" for q :: u64
  proof -
    from that obtain k where "unat q = 4096 * k" by (elim dvdE)
    moreover have "(n + 4095) div 4096 \<le> k \<longleftrightarrow> n \<le> 4096 * k" for n :: nat
      by (auto simp: less_Suc_eq_le [symmetric] div_less_iff_less_mult)
    ultimately show ?thesis using up by (simp add: mult.commute)
  qed
  then have eq: "pages_between ?p PHYSTOP = pages_between (kend s) PHYSTOP"
    by (auto simp: pages_between_def)
  have r: "set ?qs = pages_between (kend s) PHYSTOP" "distinct ?qs"
    using page_range_set [of ?p PHYSTOP] up eq by auto
  have ok: "page_ok ?s q \<longleftrightarrow> q \<in> pages_between (kend s) PHYSTOP" for q
    using assms(2) by (auto simp: page_ok_def pages_between_def page_aligned_unat unat_le_mono
        unat_less_mono simp flip: unat_gt_0)
  have av: "alloc_ready ?s []" using assms by (simp add: alloc_ready_def free_pages_def)
  obtain t where "eachk kfree ?qs ?s = Done () t" "alloc_ready t (rev ?qs)"
    using ka.frees_ok [OF av, of ?qs] ok r by auto
  moreover from this(1) have "kend t = kend s"
    using keepsD [OF keeps_eachk [OF kfree_keeps_kend], of ?s "kend s"] by simp
  ultimately show ?thesis using r
    by (intro exI [of _ "rev ?qs"] exI [of _ t])
      (simp add: kinit_def initlk_def freerange_def freerange_loop_eq kernel_simps)
qed

section \<open>Clients of the allocator\<close>

text \<open>The machine after boot, with the pages its clients own: they get pages from
  \<open>kalloc\<close>, free only pages they own, and write only inside pages they own.\<close>

inductive areach :: "kmem \<Rightarrow> u64 list \<Rightarrow> bool" where
  areach_boot: "freelist s = 0 \<Longrightarrow> 0 < kend s \<Longrightarrow> kend s \<le> PHYSTOP \<Longrightarrow> kinit s = Done () t \<Longrightarrow>
    areach t []"
| areach_alloc: "areach s own \<Longrightarrow> kalloc s = Done p t \<Longrightarrow> p \<noteq> 0 \<Longrightarrow> areach t (p # own)"
| areach_free: "areach s own \<Longrightarrow> p \<in> set own \<Longrightarrow> kfree p s = Done () t \<Longrightarrow>
    areach t (remove1 p own)"
| areach_write: "areach s own \<Longrightarrow> p \<in> set own \<Longrightarrow> in_page p x \<Longrightarrow>
    areach (s\<lparr>mem := (mem s)(x := v)\<rparr>) own"

definition all_pages :: "'x kmem_scheme \<Rightarrow> u64 set" where
  "all_pages s = pages_between (kend s) PHYSTOP"

definition alloc_inv :: "kmem \<Rightarrow> u64 list \<Rightarrow> u64 list \<Rightarrow> bool" where
  "alloc_inv s own ps \<longleftrightarrow> alloc_ready s ps \<and> distinct (ps @ own) \<and> set ps \<union> set own = all_pages s \<and> 0 < kend s"

lemma page_ok_all: "0 < kend s \<Longrightarrow> page_ok s q \<longleftrightarrow> q \<in> all_pages s"
  by (auto simp: page_ok_def all_pages_def pages_between_def page_aligned_unat unat_le_mono
        unat_less_mono simp flip: unat_gt_0)

lemma all_pages_fields: "kend t = kend s \<Longrightarrow> all_pages t = all_pages s"
  by (simp add: all_pages_def)

lemma alloc_inv_boot:
  assumes "freelist s = 0" "0 < kend s" "kend s \<le> PHYSTOP" "kinit s = Done () t"
  shows "\<exists>ps. alloc_inv t [] ps"
proof -
  have "unat (kend s) + 4095 < 2 ^ 64" using assms(3) by (simp add: unat_le_mono)
  from kinit_ok [OF assms(1,2) this] assms obtain ps where
    "alloc_ready t ps" "set ps = pages_between (kend s) PHYSTOP" "kend t = kend s"
    by auto
  with assms show ?thesis
    by (auto simp: alloc_inv_def all_pages_def alloc_ready_def free_pages_def)
qed

lemma alloc_inv_alloc:
  assumes "alloc_inv s own ps" "kalloc s = Done p t" "p \<noteq> 0"
  shows "alloc_inv t (p # own) (tl ps)"
proof -
  have r: "alloc_ready s ps" using assms(1) by (simp add: alloc_inv_def)
  have "ps = p # tl ps" "alloc_ready t (tl ps)" "kend t = kend s"
    using ka.alloc_result [OF r] assms(2,3) by (auto dest: mem_same_outside_fields)
  then obtain qs where "ps = p # qs" "alloc_ready t qs" by (cases ps) auto
  with assms(1) all_pages_fields [OF \<open>kend t = kend s\<close>] \<open>kend t = kend s\<close> show ?thesis
    by (auto simp: alloc_inv_def)
qed

lemma alloc_inv_free:
  assumes "alloc_inv s own ps" "p \<in> set own" "kfree p s = Done () t"
  shows "alloc_inv t (remove1 p own) (p # ps)"
proof -
  have "alloc_ready s ps" "page_ok s p" "p \<notin> set ps"
    using assms(1,2) page_ok_all [of s p] by (auto simp: alloc_inv_def)
  from ka.free_ok [OF this] assms(3) have "alloc_ready t (p # ps)" "kend t = kend s"
    by (auto dest: mem_same_outside_fields)
  then show ?thesis
    using assms(1,2) all_pages_fields [of t s] by (auto simp: alloc_inv_def distinct_remove1)
qed

lemma alloc_inv_write:
  assumes "alloc_inv s own ps" "p \<in> set own" "in_page p x"
  shows "alloc_inv (s\<lparr>mem := (mem s)(x := v)\<rparr>) own ps"
proof -
  have p: "p \<notin> set ps" "p mod PGSIZE = 0"
    using assms(1,2) page_ok_all [of s p] by (auto simp: alloc_inv_def page_ok_def)
  have "flist ((mem s)(x := v)) (freelist s) ps"
    by (rule free_pages_frame [OF _ p]) (use assms in \<open>auto simp: alloc_inv_def alloc_ready_def\<close>)
  with assms(1) show ?thesis
    by (auto simp: alloc_inv_def alloc_ready_def free_pages_def all_pages_def)
qed

lemma areach_inv: "areach s own \<Longrightarrow> \<exists>ps. alloc_inv s own ps"
  by (induction rule: areach.induct)
    (blast intro: alloc_inv_boot alloc_inv_alloc alloc_inv_free alloc_inv_write)+

text \<open>C3: no page is handed out twice and none is lost. After any sequence of \<open>kalloc\<close>,
  \<open>kfree\<close> of owned pages and writes inside owned pages, the free list in memory is a
  well-formed list of distinct pages, disjoint from the owned pages (which are distinct
  too), and both together are exactly the pages between the end of the kernel and PHYSTOP.\<close>

theorem kalloc_partition:
  assumes "areach s own"
  shows "\<exists>ps. flist (mem s) (freelist s) ps \<and> distinct (ps @ own) \<and> set ps \<union> set own = all_pages s"
  using areach_inv [OF assms] by (auto simp: alloc_inv_def alloc_ready_def free_pages_def)

definition boot_kmem :: kmem where
  "boot_kmem = \<lparr>held = [], mem = (\<lambda>_. 0), freelist = 0, kend = PHYSTOP - 4096\<rparr>"

lemma areach_one_page: "\<exists>t. areach t [PHYSTOP - 4096]"
proof -
  let ?p = "PHYSTOP - 4096"
  have pk: "?p = 0x87fff000" by (simp add: PHYSTOP_def KERNBASE_def)
  have ok: "0 < ?p" "?p \<le> PHYSTOP" "unat ?p + 4095 < 2 ^ 64"
    by (simp_all add: PHYSTOP_def KERNBASE_def)
  obtain ps t where t: "kinit boot_kmem = Done () t" "alloc_ready t ps" "set ps = pages_between ?p PHYSTOP"
    using kinit_ok [of boot_kmem] ok by (auto simp: boot_kmem_def)
  have "pages_between ?p PHYSTOP = {?p}"
    using pages_between_step [of ?p PHYSTOP] pages_between_empty [of PHYSTOP "?p + PGSIZE"]
    by (simp add: pk PGSIZE_def PHYSTOP_unat)
  with t have ps: "ps = [?p]"
    by (cases ps) (auto simp: alloc_ready_def free_pages_def dest: subset_singletonD)
  from t(1) ok have a: "areach t []" by (intro areach_boot [of boot_kmem]) (auto simp: boot_kmem_def)
  from ka.alloc_some [of t ?p "[]"] t ps obtain u where "kalloc t = Done ?p u" by auto
  moreover have "?p \<noteq> 0" using ok(1) by auto
  ultimately show ?thesis using areach_alloc [OF a] by blast
qed

theorem kalloc_partition_witness:
  "\<exists>s own ps. own = [PHYSTOP - 4096] \<and> areach s own \<and> flist (mem s) (freelist s) ps \<and> distinct (ps @ own)
     \<and> set ps \<union> set own = all_pages s"
  using areach_one_page kalloc_partition by blast

text \<open>C16: \<open>kinit\<close> returns without a panic and leaves exactly the whole pages between \<^verbatim>\<open>end\<close>
  and PHYSTOP on the free list, each once.\<close>

theorem kinit_frees_every_page:
  assumes "freelist s = 0" "0 < kend s" "kend s \<le> PHYSTOP"
  shows "\<exists>ps t. kinit s = Done () t \<and> free_pages t ps \<and> LkKmem \<notin> set (held t)
           \<and> set ps = all_pages s"
proof -
  have "unat (kend s) + 4095 < 2 ^ 64" using assms(3) by (simp add: unat_le_mono)
  from kinit_ok [OF assms(1,2) this] show ?thesis
    by (auto simp: alloc_ready_def all_pages_def)
qed

theorem kinit_frees_every_page_witness:
  "\<exists>ps t. kinit boot_kmem = Done () t \<and> free_pages t ps \<and> LkKmem \<notin> set (held t)
     \<and> set ps = all_pages boot_kmem"
  by (rule kinit_frees_every_page) (simp_all add: boot_kmem_def PHYSTOP_def KERNBASE_def)

end
