(* ===== verification/Ptab.thy ===== *)
theory Ptab
  imports Kalloc
begin

text \<open>
  The process table of kernel/proc.c and kernel/proc.h, and the routines that move a process
  between the states of \<^verbatim>\<open>enum procstate\<close> without touching its memory or files:
  \<^verbatim>\<open>myproc\<close>, \<^verbatim>\<open>allocpid\<close>, \<^verbatim>\<open>scheduler\<close>, \<^verbatim>\<open>sched\<close>, \<^verbatim>\<open>yield\<close>, \<^verbatim>\<open>sleep\<close>, \<^verbatim>\<open>wakeup\<close>, \<^verbatim>\<open>kill\<close>, and
  \<^verbatim>\<open>sys_uptime\<close> (kernel/sysproc.c), which \<^verbatim>\<open>wakeup\<close> calls.
  A \<^verbatim>\<open>struct proc *\<close> is an index into the table, a null one is \<open>None\<close>. A routine that
  follows a null \<^verbatim>\<open>myproc()\<close> faults, and \<^verbatim>\<open>kerneltrap\<close> panics.
  The stacks that \<^verbatim>\<open>swtch\<close> exchanges are not state of the model: a routine that calls \<^verbatim>\<open>sched\<close> is
  in two parts, up to the switch and from it on (\<open>sleep\<close> and \<open>sleep_wake\<close>).
\<close>

definition NPROC :: nat where
  "NPROC = 64"

definition NOFILE :: nat where
  "NOFILE = 16"

datatype procstate = UNUSED | USED | SLEEPING | RUNNABLE | RUNNING | ZOMBIE

record pcontext =
  ctx_ra :: u64
  ctx_sp :: u64
  ctx_s :: "u64 list"

record proc =
  p_state :: procstate
  p_chan :: "chan option"
  p_killed :: u32
  p_xstate :: u32
  p_pid :: u32
  p_cputime :: u32
  p_priority :: u32
  p_readytime :: u64
  p_parent :: "nat option"
  p_kstack :: u64
  p_sz :: u64
  p_pagetable :: u64
  p_trapframe :: u64
  p_context :: pcontext
  p_ofile :: "nat option list"
  p_cwd :: "nat option"
  p_name :: "byte list"

record ptab = kmem +
  procs :: "nat \<Rightarrow> proc"
  curproc :: "nat option"
  initproc :: "nat option"
  nextpid :: u32
  ticks :: u32

section \<open>Operations\<close>

definition modp :: "nat \<Rightarrow> (proc \<Rightarrow> proc) \<Rightarrow> ('x ptab_scheme, unit) K" where
  "modp p f = modk (\<lambda>s. s\<lparr>procs := (procs s)(p := f (procs s p))\<rparr>)"

definition getp :: "nat \<Rightarrow> (proc \<Rightarrow> 'a) \<Rightarrow> ('x ptab_scheme, 'a) K" where
  "getp p f = getk (\<lambda>s. f (procs s p))"

definition myproc :: "('x ptab_scheme, nat option) K" where
  "myproc = getk curproc"

text \<open>\<open>p = myproc()\<close> in a routine that goes on to use \<open>p->...\<close>.\<close>

definition cur :: "('x ptab_scheme, nat) K" where
  "cur = bnd myproc (\<lambda>me. case me of Some p \<Rightarrow> ret p | None \<Rightarrow> panic ''kerneltrap'')"

definition sys_uptime :: "('x ptab_scheme, u64) K" where
  "sys_uptime =
     thn (acquire LkTicks) (
     bnd (getk ticks) (\<lambda>xticks.
     thn (release LkTicks) (ret (ucast xticks))))"

definition allocpid :: "('x ptab_scheme, u32) K" where
  "allocpid =
     thn (acquire LkPid) (
     bnd (getk nextpid) (\<lambda>pid.
     thn (modk (\<lambda>s. s\<lparr>nextpid := nextpid s + 1\<rparr>)) (
     thn (release LkPid) (ret pid))))"

definition swtch :: "('s, 'a) K" where
  "swtch = (\<lambda>s. Swtch s)"

text \<open>\<open>mycpu()->noff\<close> counts the locks the hart holds, and interrupts are off while it holds
  one (theory \<^verbatim>\<open>Spinlock\<close>), so the test for \<open>intr_get()\<close> cannot succeed after the test of \<open>noff\<close>.\<close>

definition sched :: "('x ptab_scheme, 'a) K" where
  "sched = bnd cur (\<lambda>p. bnd (getk (\<lambda>s. s)) (\<lambda>s.
     if \<not> holding (LkProc p) s then panic ''sched p->lock''
     else if length (held s) \<noteq> 1 then panic ''sched locks''
     else if p_state (procs s p) = RUNNING then panic ''sched running''
     else swtch))"

definition yield :: "('x ptab_scheme, 'a) K" where
  "yield = bnd cur (\<lambda>p.
     thn (acquire (LkProc p)) (
     thn (modp p (p_state_update (\<lambda>_. RUNNABLE)))
         sched))"

definition yield_wake :: "('x ptab_scheme, unit) K" where
  "yield_wake = bnd cur (\<lambda>p. release (LkProc p))"

definition sleep :: "chan \<Rightarrow> lockid \<Rightarrow> ('x ptab_scheme, 'a) K" where
  "sleep ch lk = bnd cur (\<lambda>p.
     thn (acquire (LkProc p)) (
     thn (release lk) (
     thn (modp p (p_chan_update (\<lambda>_. Some ch))) (
     thn (modp p (p_state_update (\<lambda>_. SLEEPING)))
         sched))))"

definition sleep_wake :: "lockid \<Rightarrow> ('x ptab_scheme, unit) K" where
  "sleep_wake lk = bnd cur (\<lambda>p.
     thn (modp p (p_chan_update (\<lambda>_. None))) (
     thn (release (LkProc p))
         (acquire lk)))"

definition wakeup1 :: "chan option \<Rightarrow> nat \<Rightarrow> ('x ptab_scheme, unit) K" where
  "wakeup1 ch p = bnd myproc (\<lambda>me.
     whenk (me \<noteq> Some p) (
     thn (acquire (LkProc p)) (
     bnd (getp p (\<lambda>q. p_state q = SLEEPING \<and> p_chan q = ch)) (\<lambda>hit.
     thn (whenk hit (
       thn (modp p (p_state_update (\<lambda>_. RUNNABLE))) (
       bnd sys_uptime (\<lambda>t. modp p (p_readytime_update (\<lambda>_. t))))))
     (release (LkProc p))))))"

definition wakeup :: "chan option \<Rightarrow> ('x ptab_scheme, unit) K" where
  "wakeup ch = eachk (wakeup1 ch) [0..<NPROC]"

fun kill_loop :: "u32 \<Rightarrow> nat list \<Rightarrow> ('x ptab_scheme, u32) K" where
  "kill_loop pid [] = ret (- 1)"
| "kill_loop pid (p # ps) =
     thn (acquire (LkProc p)) (
     bnd (getp p p_pid) (\<lambda>ppid.
     if ppid = pid then
       thn (modp p (p_killed_update (\<lambda>_. 1))) (
       bnd (getp p p_state) (\<lambda>st.
       thn (whenk (st = SLEEPING) (modp p (p_state_update (\<lambda>_. RUNNABLE)))) (
       thn (release (LkProc p)) (ret 0))))
     else thn (release (LkProc p)) (kill_loop pid ps)))"

definition kill :: "u32 \<Rightarrow> ('x ptab_scheme, u32) K" where
  "kill pid = kill_loop pid [0..<NPROC]"

text \<open>One turn of the scheduler's inner loop, up to \<open>swtch\<close> into the process (the result
  is whether it switches) and from the switch back.\<close>

definition scheduler_pick :: "nat \<Rightarrow> ('x ptab_scheme, bool) K" where
  "scheduler_pick p =
     thn (acquire (LkProc p)) (
     bnd (getp p p_state) (\<lambda>st.
     if st = RUNNABLE then
       thn (modp p (p_state_update (\<lambda>_. RUNNING))) (
       thn (modk (\<lambda>s. s\<lparr>curproc := Some p\<rparr>)) (ret True))
     else thn (release (LkProc p)) (ret False)))"

definition scheduler_back :: "nat \<Rightarrow> ('x ptab_scheme, unit) K" where
  "scheduler_back p =
     thn (modk (\<lambda>s. s\<lparr>curproc := None\<rparr>)) (release (LkProc p))"

text \<open>One pass of the inner loop. \<open>turn p\<close> is what the process does from the switch to it up to its switch
  back; the result lists the processes that were run.\<close>

fun scheduler_pass :: "(nat \<Rightarrow> ('x ptab_scheme, unit) K) \<Rightarrow> nat list \<Rightarrow> ('x ptab_scheme, nat list) K" where
  "scheduler_pass turn [] = ret []"
| "scheduler_pass turn (p # ps) =
     bnd (scheduler_pick p) (\<lambda>picked.
     thn (whenk picked (thn (turn p) (scheduler_back p))) (
     bnd (scheduler_pass turn ps) (\<lambda>ran.
     ret (if picked then p # ran else ran))))"

definition scheduler :: "(nat \<Rightarrow> ('x ptab_scheme, unit) K) \<Rightarrow> ('x ptab_scheme, nat list) K" where
  "scheduler turn = scheduler_pass turn [0..<NPROC]"

section \<open>wakeup\<close>

text \<open>The locks \<open>wakeup\<close> takes must be free on this hart: every process lock, and the lock of
  the tick counter for \<open>sys_uptime\<close>.\<close>

definition no_plock :: "'x hart_scheme \<Rightarrow> bool" where
  "no_plock s \<longleftrightarrow> (\<forall>p. LkProc p \<notin> set (held s))"

definition can_wake :: "'x hart_scheme \<Rightarrow> bool" where
  "can_wake s \<longleftrightarrow> no_plock s \<and> LkTicks \<notin> set (held s)"

definition sleeping_on :: "chan option \<Rightarrow> 'x ptab_scheme \<Rightarrow> nat \<Rightarrow> bool" where
  "sleeping_on ch s p \<longleftrightarrow> p < NPROC \<and> curproc s \<noteq> Some p \<and> p_state (procs s p) = SLEEPING
     \<and> p_chan (procs s p) = ch"

definition woken :: "chan option \<Rightarrow> 'x ptab_scheme \<Rightarrow> nat \<Rightarrow> proc" where
  "woken ch s = (\<lambda>p. if sleeping_on ch s p
     then (procs s p)\<lparr>p_state := RUNNABLE, p_readytime := ucast (ticks s)\<rparr> else procs s p)"

lemma woken_cong:
  "procs t = procs s \<Longrightarrow> curproc t = curproc s \<Longrightarrow> ticks t = ticks s \<Longrightarrow> woken ch t = woken ch s"
  by (auto simp: woken_def sleeping_on_def fun_eq_iff)

lemma modp_app [simp, kernel_simps]:
  "modp p f s = Done () (s\<lparr>procs := (procs s)(p := f (procs s p))\<rparr>)"
  by (simp add: modp_def)

lemma getp_app [simp, kernel_simps]: "getp p f s = Done (f (procs s p)) s"
  by (simp add: getp_def)

lemma cur_app [kernel_simps]:
  "cur s = (case curproc s of Some p \<Rightarrow> Done p s | None \<Rightarrow> Panic ''kerneltrap'')"
  by (simp add: cur_def myproc_def bnd_app split: option.splits)

lemma sys_uptime_app [kernel_simps]:
  "sys_uptime s = (if LkTicks \<in> set (held s) then Panic ''acquire'' else Done (ucast (ticks s)) s)"
  by (simp add: sys_uptime_def bnd_app thn_app)

lemma wakeup1_app:
  assumes "LkProc p \<notin> set (held s)"
  shows "wakeup1 ch p s =
    (if curproc s \<noteq> Some p \<and> p_state (procs s p) = SLEEPING \<and> p_chan (procs s p) = ch then
       if LkTicks \<in> set (held s) then Panic ''acquire''
       else Done () (s\<lparr>procs := (procs s)(p := (procs s p)
              \<lparr>p_state := RUNNABLE, p_readytime := ucast (ticks s)\<rparr>)\<rparr>)
     else Done () s)"
  using assms by (auto simp: wakeup1_def myproc_def kernel_simps)

lemma wakeup_upto:
  assumes "can_wake s" "n \<le> NPROC"
  shows "eachk (wakeup1 ch) [0..<n] s
    = Done () (s\<lparr>procs := (\<lambda>p. if p < n then woken ch s p else procs s p)\<rparr>)"
  using assms(2)
proof (induction n)
  case 0
  then show ?case by simp
next
  case (Suc n)
  let ?P = "\<lambda>k p. if p < k then woken ch s p else procs s p"
  have "eachk (wakeup1 ch) [0..<Suc n] s = wakeup1 ch n (s\<lparr>procs := ?P n\<rparr>)"
    using Suc by (simp add: eachk_append thn_app split: outcome.splits)
  also have "\<dots> = Done () (s\<lparr>procs := ?P (Suc n)\<rparr>)"
    using assms(1) Suc.prems
    by (subst wakeup1_app)
      (auto simp: can_wake_def no_plock_def woken_def sleeping_on_def fun_eq_iff less_Suc_eq
        intro!: arg_cong [where f = "\<lambda>P. s\<lparr>procs := P\<rparr>"])
  finally show ?case .
qed

lemma wakeup_app: "can_wake s \<Longrightarrow> wakeup ch s = Done () (s\<lparr>procs := woken ch s\<rparr>)"
proof -
  assume "can_wake s"
  moreover have "(\<lambda>p. if p < NPROC then woken ch s p else procs s p) = woken ch s"
    by (auto simp: woken_def sleeping_on_def)
  ultimately show ?thesis by (simp add: wakeup_def wakeup_upto)
qed

lemma wakeup_none:
  assumes "no_plock s" "\<forall>p < n. \<not> sleeping_on ch s p" "n \<le> NPROC"
  shows "eachk (wakeup1 ch) [0..<n] s = Done () s"
  using assms(2,3)
  by (induction n) (use assms(1) in
      \<open>auto simp: eachk_append thn_app wakeup1_app no_plock_def sleeping_on_def\<close>)

text \<open>A hart that holds the lock of the tick counter cannot wake anybody.\<close>

lemma wakeup_ticks_held:
  assumes "no_plock s" "LkTicks \<in> set (held s)" "sleeping_on ch s p"
  shows "wakeup ch s = Panic ''acquire''"
proof -
  obtain q where q: "sleeping_on ch s q" "\<forall>r < q. \<not> sleeping_on ch s r"
    using assms(3) exists_least_iff [of "sleeping_on ch s"] by blast
  then have "q < NPROC" by (simp add: sleeping_on_def)
  then have "[0..<NPROC] = [0..<q] @ q # [Suc q..<NPROC]"
    using upt_add_eq_append [of 0 q "NPROC - q"] upt_conv_Cons [of q NPROC] by simp
  moreover have "wakeup1 ch q s = Panic ''acquire''"
    using assms q(1) by (simp add: wakeup1_app no_plock_def sleeping_on_def)
  ultimately show ?thesis
    using wakeup_none [OF assms(1) q(2)] \<open>q < NPROC\<close>
    by (simp add: wakeup_def eachk_append thn_app)
qed

section \<open>sleep, yield and the scheduler\<close>

lemma sched_app [kernel_simps]:
  "curproc s = Some p \<Longrightarrow> sched s =
    (if LkProc p \<notin> set (held s) then Panic ''sched p->lock''
     else if length (held s) \<noteq> 1 then Panic ''sched locks''
     else if p_state (procs s p) = RUNNING then Panic ''sched running''
     else Swtch s)"
  by (simp add: sched_def swtch_def kernel_simps holding_def)

lemma sleep_app:
  assumes "curproc s = Some p" "held s = [lk]" "lk \<noteq> LkProc p"
  shows "sleep ch lk s = Swtch (s\<lparr>held := [LkProc p],
     procs := (procs s)(p := (procs s p)\<lparr>p_chan := Some ch, p_state := SLEEPING\<rparr>)\<rparr>)"
  using assms by (auto simp: sleep_def kernel_simps)

text \<open>\<open>sleep\<close> gives up the hart only when the lock it was given is the one lock held: it never
  goes to sleep with any other spin lock.\<close>

lemma sleep_swtch_iff:
  assumes "curproc s = Some p" "distinct (held s)"
  shows "(\<exists>t. sleep ch lk s = Swtch t) \<longleftrightarrow> held s = [lk] \<and> lk \<noteq> LkProc p"
proof (cases "lk \<in> set (held s) \<and> LkProc p \<notin> set (held s)")
  case True
  then obtain xs ys where h: "held s = xs @ lk # ys" by (meson split_list)
  with True assms(2) have "sleep ch lk s = (if xs @ ys = [] then
      Swtch (s\<lparr>held := [LkProc p],
        procs := (procs s)(p := (procs s p)\<lparr>p_chan := Some ch, p_state := SLEEPING\<rparr>)\<rparr>)
      else Panic ''sched locks'')"
    using assms(1) by (auto simp: sleep_def kernel_simps remove1_append)
  with h True show ?thesis by (auto split: if_splits simp: append_eq_Cons_conv)
next
  case False
  then have "\<nexists>t. sleep ch lk s = Swtch t"
    using assms(1) by (auto simp: sleep_def kernel_simps)
  with False show ?thesis by auto
qed

lemma yield_app:
  assumes "curproc s = Some p" "held s = []"
  shows "yield s = Swtch (s\<lparr>held := [LkProc p],
     procs := (procs s)(p := (procs s p)\<lparr>p_state := RUNNABLE\<rparr>)\<rparr>)"
  using assms by (auto simp: yield_def kernel_simps)

section \<open>kill\<close>

lemma kill_loop_app:
  assumes "no_plock s" "distinct ps"
  shows "kill_loop pid ps s = (case find (\<lambda>p. p_pid (procs s p) = pid) ps of
      None \<Rightarrow> Done (- 1) s
    | Some p \<Rightarrow> Done 0 (s\<lparr>procs := (procs s)(p := (procs s p)\<lparr>p_killed := 1,
        p_state := (if p_state (procs s p) = SLEEPING then RUNNABLE else p_state (procs s p))\<rparr>)\<rparr>))"
  using assms(2)
proof (induction ps)
  case Nil
  then show ?case by simp
next
  case (Cons p ps)
  then show ?case using assms(1)
    by (cases "procs s p") (auto simp: kernel_simps no_plock_def split: option.splits)
qed

section \<open>Properties\<close>

text \<open>C13: \<open>wakeup\<close> makes RUNNABLE exactly the other processes that sleep on the channel, stamps them with
  the tick count, leaves every other process and all other state as they were, and neither panics
  nor sleeps, provided the hart holds no process lock and not the lock of the tick counter.\<close>

theorem wakeup_exact:
  assumes "\<forall>p. LkProc p \<notin> set (held s)" "LkTicks \<notin> set (held s)"
  shows "wakeup ch s = Done () (s\<lparr>procs := (\<lambda>p.
    if p < NPROC \<and> curproc s \<noteq> Some p \<and> p_state (procs s p) = SLEEPING \<and> p_chan (procs s p) = ch
    then (procs s p)\<lparr>p_state := RUNNABLE, p_readytime := ucast (ticks s)\<rparr> else procs s p)\<rparr>)"
  using wakeup_app [of s ch] assms
  by (simp add: can_wake_def no_plock_def woken_def [abs_def] sleeping_on_def)

text \<open>C14: \<open>kill\<close> marks the first process with the pid as killed, makes it RUNNABLE if it sleeps, and
  returns 0; it returns -1 and changes nothing when no slot has the pid. Every process lock is free
  again afterwards.\<close>

theorem kill_marks_first:
  assumes "\<forall>p. LkProc p \<notin> set (held s)"
  shows "kill pid s = (case first_idx (\<lambda>p. p_pid (procs s p) = pid) NPROC of
      None \<Rightarrow> Done (- 1) s
    | Some p \<Rightarrow> Done 0 (s\<lparr>procs := (procs s)(p := (procs s p)\<lparr>p_killed := 1,
        p_state := (if p_state (procs s p) = SLEEPING then RUNNABLE else p_state (procs s p))\<rparr>)\<rparr>))"
  using kill_loop_app [of s "[0..<NPROC]" pid] assms
  by (simp add: kill_def first_idx_def no_plock_def)

definition demo_proc :: proc where
  "demo_proc = \<lparr>p_state = RUNNABLE, p_chan = None, p_killed = 0, p_xstate = 0, p_pid = 1,
     p_cputime = 0, p_priority = 0, p_readytime = 0, p_parent = None, p_kstack = 0, p_sz = 0,
     p_pagetable = 0, p_trapframe = 0, p_context = \<lparr>ctx_ra = 0, ctx_sp = 0, ctx_s = []\<rparr>,
     p_ofile = replicate NOFILE None, p_cwd = None, p_name = replicate 16 0\<rparr>"

definition demo_ptab :: ptab where
  "demo_ptab = \<lparr>held = [], mem = (\<lambda>_. 0), freelist = 0, kend = 0,
     procs = (\<lambda>p. demo_proc\<lparr>p_pid := of_nat p + 1, p_state := SLEEPING, p_chan := Some ChTicks\<rparr>),
     curproc = Some 0, initproc = Some 0, nextpid = 65, ticks = 9\<rparr>"

theorem wakeup_exact_witness:
  "\<exists>t. wakeup (Some ChTicks) demo_ptab = Done () t \<and> p_state (procs t 0) = SLEEPING
     \<and> p_state (procs t 1) = RUNNABLE \<and> p_readytime (procs t 1) = 9"
  using wakeup_exact [of demo_ptab "Some ChTicks"] by (simp add: demo_ptab_def NPROC_def)

theorem kill_marks_first_witness:
  "\<exists>t. kill 2 demo_ptab = Done 0 t \<and> p_killed (procs t 1) = 1 \<and> p_state (procs t 1) = RUNNABLE"
proof -
  have "first_idx (\<lambda>p. p_pid (procs demo_ptab p) = 2) NPROC = Some 1"
    unfolding first_idx_Some by (auto simp: demo_ptab_def NPROC_def)
  with kill_marks_first [of demo_ptab 2] show ?thesis by (simp add: demo_ptab_def)
qed

end
