(* ===== verification/Sleeplock.thy ===== *)
theory Sleeplock
  imports Ptab
begin

text \<open>
  kernel/sleeplock.c: long-term locks on which a process sleeps instead of spinning. A lock is
  named by the buffer or inode it lives in. \<open>acquiresleep\<close> has the loop
  \<^verbatim>\<open>while (lk->locked) sleep(...)\<close>: \<open>acquiresleep_loop\<close> is the loop from its test on, and a process
  that comes back from \<^verbatim>\<open>sched\<close> runs \<open>acquiresleep_wake\<close>, the rest of \<^verbatim>\<open>sleep\<close> followed by the
  test again.
\<close>

record sleeplock =
  sl_locked :: u32
  sl_name :: string
  sl_pid :: u32

record slk = ptab +
  slocks :: "slkid \<Rightarrow> sleeplock"

definition modsl :: "slkid \<Rightarrow> (sleeplock \<Rightarrow> sleeplock) \<Rightarrow> ('x slk_scheme, unit) K" where
  "modsl l f = modk (\<lambda>s. s\<lparr>slocks := (slocks s)(l := f (slocks s l))\<rparr>)"

definition initsleeplock :: "slkid \<Rightarrow> string \<Rightarrow> ('x slk_scheme, unit) K" where
  "initsleeplock l nm =
     thn (initlk (LkSleep l)) (
     thn (modsl l (sl_name_update (\<lambda>_. nm))) (
     thn (modsl l (sl_locked_update (\<lambda>_. 0)))
         (modsl l (sl_pid_update (\<lambda>_. 0)))))"

definition acquiresleep_loop :: "slkid \<Rightarrow> ('x slk_scheme, unit) K" where
  "acquiresleep_loop l =
     bnd (getk (\<lambda>s. sl_locked (slocks s l))) (\<lambda>locked.
     if locked \<noteq> 0 then sleep (ChSleep l) (LkSleep l)
     else
       thn (modsl l (sl_locked_update (\<lambda>_. 1))) (
       bnd cur (\<lambda>p. bnd (getp p p_pid) (\<lambda>pid.
       thn (modsl l (sl_pid_update (\<lambda>_. pid)))
           (release (LkSleep l))))))"

definition acquiresleep :: "slkid \<Rightarrow> ('x slk_scheme, unit) K" where
  "acquiresleep l = thn (acquire (LkSleep l)) (acquiresleep_loop l)"

definition acquiresleep_wake :: "slkid \<Rightarrow> ('x slk_scheme, unit) K" where
  "acquiresleep_wake l = thn (sleep_wake (LkSleep l)) (acquiresleep_loop l)"

definition releasesleep :: "slkid \<Rightarrow> ('x slk_scheme, unit) K" where
  "releasesleep l =
     thn (acquire (LkSleep l)) (
     thn (modsl l (sl_locked_update (\<lambda>_. 0))) (
     thn (modsl l (sl_pid_update (\<lambda>_. 0))) (
     thn (wakeup (Some (ChSleep l)))
         (release (LkSleep l)))))"

definition holdingsleep :: "slkid \<Rightarrow> ('x slk_scheme, bool) K" where
  "holdingsleep l =
     thn (acquire (LkSleep l)) (
     bnd cur (\<lambda>p.
     bnd (getk (\<lambda>s. sl_locked (slocks s l) \<noteq> 0 \<and> sl_pid (slocks s l) = p_pid (procs s p))) (\<lambda>r.
     thn (release (LkSleep l)) (ret r))))"

section \<open>What one process sees\<close>

definition sl_free :: "'x hart_scheme \<Rightarrow> slkid \<Rightarrow> bool" where
  "sl_free s l \<longleftrightarrow> LkSleep l \<notin> set (held s)"

lemma modsl_app [simp, kernel_simps]:
  "modsl l f s = Done () (s\<lparr>slocks := (slocks s)(l := f (slocks s l))\<rparr>)"
  by (simp add: modsl_def)

lemma acquiresleep_app:
  assumes "curproc s = Some p" "LkSleep l \<notin> set (held s)" "sl_locked (slocks s l) = 0"
  shows "acquiresleep l s = Done () (s\<lparr>slocks := (slocks s)(l := (slocks s l)
     \<lparr>sl_locked := 1, sl_pid := p_pid (procs s p)\<rparr>)\<rparr>)"
  using assms by (simp add: acquiresleep_def acquiresleep_loop_def kernel_simps)

lemma acquiresleep_busy:
  assumes "curproc s = Some p" "held s = []" "sl_locked (slocks s l) \<noteq> 0"
  shows "acquiresleep l s = Swtch (s\<lparr>held := [LkProc p],
     procs := (procs s)(p := (procs s p)\<lparr>p_chan := Some (ChSleep l), p_state := SLEEPING\<rparr>)\<rparr>)"
  using assms by (simp add: acquiresleep_def acquiresleep_loop_def thn_app bnd_app sleep_app)

lemma releasesleep_app:
  assumes "can_wake s" "LkSleep l \<notin> set (held s)"
  shows "releasesleep l s = Done () (s\<lparr>slocks := (slocks s)(l := (slocks s l)\<lparr>sl_locked := 0, sl_pid := 0\<rparr>),
     procs := woken (Some (ChSleep l)) s\<rparr>)"
proof -
  let ?t = "s\<lparr>held := LkSleep l # held s,
    slocks := (slocks s)(l := (slocks s l)\<lparr>sl_locked := 0, sl_pid := 0\<rparr>)\<rparr>"
  have "can_wake ?t" using assms by (simp add: can_wake_def no_plock_def)
  moreover have "woken ch ?t = woken ch s" for ch
    by (rule woken_cong) simp_all
  ultimately show ?thesis
    using assms by (simp add: releasesleep_def thn_app wakeup_app)
qed

lemma holdingsleep_app:
  assumes "curproc s = Some p" "LkSleep l \<notin> set (held s)"
  shows "holdingsleep l s
    = Done (sl_locked (slocks s l) \<noteq> 0 \<and> sl_pid (slocks s l) = p_pid (procs s p)) s"
  using assms by (simp add: holdingsleep_def kernel_simps)

section \<open>Many processes\<close>

text \<open>Processes take turns on a hart. A turn starts with the scheduler's switch into a
  RUNNABLE process and ends with a switch back, because the process sleeps or (after its
  operation) because it yields. A process is outside the lock, waiting in \<open>acquiresleep\<close>, or
  between \<open>acquiresleep\<close> and \<open>releasesleep\<close>. Each operation runs under the spin lock of the sleep
  lock, so turns do not interleave inside one.\<close>

datatype phase = Outside | Waiting | Holding

fun settle :: "nat \<Rightarrow> (slk, unit) outcome \<Rightarrow> (bool \<times> slk) option" where
  "settle p (Done _ t) = (case (yield t :: (slk, unit) outcome) of
     Swtch u \<Rightarrow> (case scheduler_back p u of Done _ v \<Rightarrow> Some (True, v) | _ \<Rightarrow> None)
   | Done _ u \<Rightarrow> None | Panic m \<Rightarrow> None)"
| "settle p (Swtch t) = (case scheduler_back p t of Done _ v \<Rightarrow> Some (False, v) | _ \<Rightarrow> None)"
| "settle p (Panic m) = None"

fun sl_op :: "phase \<Rightarrow> slkid \<Rightarrow> (slk, unit) K" where
  "sl_op Outside l = thn yield_wake (acquiresleep l)"
| "sl_op Waiting l = acquiresleep_wake l"
| "sl_op Holding l = thn yield_wake (releasesleep l)"

fun sl_next :: "phase \<Rightarrow> bool \<Rightarrow> phase" where
  "sl_next Holding b = Outside"
| "sl_next ph b = (if b then Holding else Waiting)"

definition sl_turn :: "nat \<Rightarrow> phase \<Rightarrow> slkid \<Rightarrow> slk \<Rightarrow> (bool \<times> slk) option" where
  "sl_turn p ph l s = settle p (thn (scheduler_pick p) (sl_op ph l) s)"

inductive slreach :: "slkid \<Rightarrow> slk \<Rightarrow> (nat \<Rightarrow> phase) \<Rightarrow> bool" for l where
  slreach_init: "held s = [] \<Longrightarrow> curproc s = None \<Longrightarrow> sl_locked (slocks s l) = 0 \<Longrightarrow>
    \<forall>p. p_chan (procs s p) \<noteq> Some (ChSleep l) \<Longrightarrow> slreach l s (\<lambda>_. Outside)"
| slreach_turn: "slreach l s ph \<Longrightarrow> p < NPROC \<Longrightarrow> p_state (procs s p) = RUNNABLE \<Longrightarrow>
    sl_turn p (ph p) l s = Some (b, t) \<Longrightarrow> slreach l t (ph(p := sl_next (ph p) b))"

definition sl_holder :: "slkid \<Rightarrow> slk \<Rightarrow> (nat \<Rightarrow> phase) \<Rightarrow> nat option \<Rightarrow> bool" where
  "sl_holder l s ph h \<longleftrightarrow>
     (\<forall>p. ph p = Holding \<longleftrightarrow> h = Some p) \<and> (sl_locked (slocks s l) = 0 \<longleftrightarrow> h = None)"

definition sl_waiter :: "slkid \<Rightarrow> slk \<Rightarrow> (nat \<Rightarrow> phase) \<Rightarrow> nat \<Rightarrow> bool" where
  "sl_waiter l s ph p \<longleftrightarrow>
     (p_chan (procs s p) = Some (ChSleep l) \<longleftrightarrow> ph p = Waiting)
     \<and> (ph p = Waiting \<longrightarrow> p < NPROC \<and> (p_state (procs s p) = RUNNABLE
          \<or> p_state (procs s p) = SLEEPING \<and> sl_locked (slocks s l) \<noteq> 0))"

definition sl_inv :: "slkid \<Rightarrow> slk \<Rightarrow> (nat \<Rightarrow> phase) \<Rightarrow> bool" where
  "sl_inv l s ph \<longleftrightarrow> held s = [] \<and> curproc s = None
     \<and> (\<exists>h. sl_holder l s ph h) \<and> (\<forall>p. sl_waiter l s ph p)"

lemma runnable_id: "p_state q = RUNNABLE \<Longrightarrow> q\<lparr>p_state := RUNNABLE\<rparr> = q"
  by (cases q) simp

lemmas turn_simps = sl_turn_def scheduler_pick_def yield_wake_def acquiresleep_wake_def
  sleep_wake_def scheduler_back_def yield_app sleep_app acquiresleep_app acquiresleep_busy
  acquiresleep_loop_def runnable_id kernel_simps

lemma turn_outside_free:
  assumes "held s = []" "curproc s = None" "p_state (procs s p) = RUNNABLE" "sl_locked (slocks s l) = 0"
  shows "sl_turn p Outside l s = Some (True, s\<lparr>slocks := (slocks s)(l := (slocks s l)
    \<lparr>sl_locked := 1, sl_pid := p_pid (procs s p)\<rparr>)\<rparr>)"
  using assms by (cases s) (simp add: turn_simps)

lemma turn_outside_busy:
  assumes "held s = []" "curproc s = None" "p_state (procs s p) = RUNNABLE" "sl_locked (slocks s l) \<noteq> 0"
  shows "sl_turn p Outside l s = Some (False, s\<lparr>procs := (procs s)(p := (procs s p)
    \<lparr>p_chan := Some (ChSleep l), p_state := SLEEPING\<rparr>)\<rparr>)"
  using assms by (cases s) (simp add: turn_simps)

lemma turn_waiting_free:
  assumes "held s = []" "curproc s = None" "p_state (procs s p) = RUNNABLE" "sl_locked (slocks s l) = 0"
  shows "sl_turn p Waiting l s = Some (True, s\<lparr>procs := (procs s)(p := (procs s p)\<lparr>p_chan := None\<rparr>),
    slocks := (slocks s)(l := (slocks s l)\<lparr>sl_locked := 1, sl_pid := p_pid (procs s p)\<rparr>)\<rparr>)"
  using assms by (cases s) (simp add: turn_simps)

lemma turn_waiting_busy:
  assumes "held s = []" "curproc s = None" "p_state (procs s p) = RUNNABLE" "sl_locked (slocks s l) \<noteq> 0"
  shows "sl_turn p Waiting l s = Some (False, s\<lparr>procs := (procs s)(p := (procs s p)
    \<lparr>p_chan := Some (ChSleep l), p_state := SLEEPING\<rparr>)\<rparr>)"
  using assms by (cases s) (simp add: turn_simps)

lemma turn_holding:
  assumes "held s = []" "curproc s = None" "p_state (procs s p) = RUNNABLE"
  shows "sl_turn p Holding l s = Some (True,
    s\<lparr>slocks := (slocks s)(l := (slocks s l)\<lparr>sl_locked := 0, sl_pid := 0\<rparr>),
      procs := (\<lambda>q. if q \<noteq> p then woken (Some (ChSleep l)) s q else procs s p)\<rparr>)"
proof -
  let ?r = "s\<lparr>held := [], curproc := Some p, procs := (procs s)(p := (procs s p)\<lparr>p_state := RUNNING\<rparr>)\<rparr>"
  let ?u = "?r\<lparr>slocks := (slocks s)(l := (slocks s l)\<lparr>sl_locked := 0, sl_pid := 0\<rparr>),
    procs := woken (Some (ChSleep l)) ?r\<rparr>"
  have r: "thn (scheduler_pick p) (sl_op Holding l) s = releasesleep l ?r"
    using assms by (cases s) (simp add: scheduler_pick_def yield_wake_def kernel_simps)
  have "releasesleep l ?r = Done () ?u"
    by (subst releasesleep_app) (simp_all add: can_wake_def no_plock_def)
  moreover have "(woken (Some (ChSleep l)) ?r)(p := (woken (Some (ChSleep l)) ?r p)\<lparr>p_state := RUNNABLE\<rparr>)
      = (\<lambda>q. if q \<noteq> p then woken (Some (ChSleep l)) s q else procs s p)"
    using assms runnable_id [of "procs s p"] by (auto simp: woken_def sleeping_on_def fun_eq_iff)
  ultimately show ?thesis
    unfolding sl_turn_def r using assms
    by (cases s) (simp add: yield_app scheduler_back_def kernel_simps)
qed

lemma sl_inv_take:
  assumes "sl_inv l s ph" "ph p \<noteq> Holding" "sl_locked (slocks s l) = 0" "sl_locked (slocks t l) = 1"
    "held t = []" "curproc t = None" "\<forall>q. q \<noteq> p \<longrightarrow> procs t q = procs s q"
    "p_chan (procs t p) \<noteq> Some (ChSleep l)"
  shows "sl_inv l t (ph(p := Holding))"
proof -
  have "sl_holder l t (ph(p := Holding)) (Some p)"
    using assms by (auto simp: sl_inv_def sl_holder_def)
  moreover have "sl_waiter l t (ph(p := Holding)) q" for q
    using assms by (cases "q = p") (auto simp: sl_inv_def sl_waiter_def)
  ultimately show ?thesis using assms by (auto simp: sl_inv_def)
qed

lemma sl_inv_wait:
  assumes "sl_inv l s ph" "ph p \<noteq> Holding" "sl_locked (slocks s l) \<noteq> 0" "slocks t = slocks s"
    "held t = []" "curproc t = None" "\<forall>q. q \<noteq> p \<longrightarrow> procs t q = procs s q" "p < NPROC"
    "p_chan (procs t p) = Some (ChSleep l)" "p_state (procs t p) = SLEEPING"
  shows "sl_inv l t (ph(p := Waiting))"
proof -
  obtain h where "sl_holder l s ph h" using assms(1) by (auto simp: sl_inv_def)
  then have "sl_holder l t (ph(p := Waiting)) h"
    using assms by (auto simp: sl_holder_def)
  moreover have "sl_waiter l t (ph(p := Waiting)) q" for q
    using assms by (cases "q = p") (auto simp: sl_inv_def sl_waiter_def)
  ultimately show ?thesis using assms by (auto simp: sl_inv_def)
qed

lemma sl_inv_drop:
  assumes "sl_inv l s ph" "ph p = Holding" "sl_locked (slocks t l) = 0"
    "held t = []" "curproc t = None"
    "procs t = (\<lambda>q. if q \<noteq> p then woken (Some (ChSleep l)) s q else procs s p)"
  shows "sl_inv l t (ph(p := Outside))"
proof -
  obtain h where h: "sl_holder l s ph h" using assms(1) by (auto simp: sl_inv_def)
  with assms(2) have "h = Some p" by (auto simp: sl_holder_def)
  with h assms have "sl_holder l t (ph(p := Outside)) None"
    by (auto simp: sl_holder_def)
  moreover have "sl_waiter l t (ph(p := Outside)) q" for q
  proof -
    have "sl_waiter l s ph q" "curproc s = None" using assms(1) by (auto simp: sl_inv_def)
    with assms(2,6) show ?thesis
      by (cases "q = p") (auto simp: sl_waiter_def woken_def sleeping_on_def)
  qed
  ultimately show ?thesis using assms by (auto simp: sl_inv_def)
qed

lemma sl_inv_turn:
  assumes "sl_inv l s ph" "p < NPROC" "p_state (procs s p) = RUNNABLE"
  shows "\<exists>b t. sl_turn p (ph p) l s = Some (b, t) \<and> sl_inv l t (ph(p := sl_next (ph p) b))"
proof -
  have h: "held s = []" "curproc s = None" and w: "sl_waiter l s ph p"
    using assms(1) by (simp_all add: sl_inv_def)
  note t = h assms(3)
  show ?thesis
  proof (cases "ph p = Holding")
    case True
    then show ?thesis
      using turn_holding [OF t, of l] sl_inv_drop [OF assms(1) True] h by auto
  next
    case False
    show ?thesis
    proof (cases "sl_locked (slocks s l) = 0")
      case True
      then show ?thesis
        using turn_outside_free [OF t True] turn_waiting_free [OF t True] w h False
          sl_inv_take [OF assms(1) False True]
        by (cases "ph p") (auto simp: sl_waiter_def)
    next
      case busy: False
      then show ?thesis
        using turn_outside_busy [OF t busy] turn_waiting_busy [OF t busy] h assms(2) False
          sl_inv_wait [OF assms(1) False busy]
        by (cases "ph p") auto
    qed
  qed
qed

lemma slreach_inv: "slreach l s ph \<Longrightarrow> sl_inv l s ph"
proof (induction rule: slreach.induct)
  case (slreach_init s)
  then have "sl_holder l s (\<lambda>_. Outside) None" by (simp add: sl_holder_def)
  with slreach_init show ?case by (auto simp: sl_inv_def sl_waiter_def)
next
  case (slreach_turn s ph p b t)
  then show ?case using sl_inv_turn [of l s ph p] by (auto simp: fun_upd_def)
qed


definition demo_slk :: slk where
  "demo_slk = \<lparr>held = [], mem = (\<lambda>_. 0), freelist = 0, kend = 0, procs = (\<lambda>p. demo_proc\<lparr>p_pid := of_nat p + 1\<rparr>),
     curproc = None, initproc = Some 0, nextpid = 65, ticks = 0,
     slocks = (\<lambda>_. \<lparr>sl_locked = 0, sl_name = ''buffer'', sl_pid = 0\<rparr>)\<rparr>"

text \<open>Process 1 takes the lock, process 2 then waits for it.\<close>

lemma slreach_demo:
  "\<exists>s. slreach (SlBuf 0) s ((\<lambda>_. Outside)(1 := Holding, 2 := Waiting))"
proof -
  let ?l = "SlBuf 0"
  have a: "slreach ?l demo_slk (\<lambda>_. Outside)"
    by (rule slreach_init) (simp_all add: demo_slk_def demo_proc_def)
  define t where "t = demo_slk\<lparr>slocks := (slocks demo_slk)(?l := (slocks demo_slk ?l)
    \<lparr>sl_locked := 1, sl_pid := p_pid (procs demo_slk 1)\<rparr>)\<rparr>"
  have "sl_turn 1 Outside ?l demo_slk = Some (True, t)" unfolding t_def
    by (rule turn_outside_free) (simp_all add: demo_slk_def demo_proc_def)
  then have b: "slreach ?l t ((\<lambda>_. Outside)(1 := Holding))"
    using slreach_turn [OF a, of 1 True t] by (simp add: NPROC_def demo_slk_def demo_proc_def)
  obtain u where "sl_turn 2 Outside ?l t = Some (False, u)"
    using turn_outside_busy [of t 2 ?l] by (simp add: t_def demo_slk_def demo_proc_def)
  then show ?thesis
    using slreach_turn [OF b, of 2 False u] by (auto simp: NPROC_def t_def demo_slk_def demo_proc_def)
qed


end
