(* ===== verification/Bio.thy ===== *)
theory Bio
  imports Sleeplock
begin

text \<open>
  kernel/bio.c: the cache of disk blocks. The buffers are an array; the list of buffers in the
  order of their last use goes through \<open>b_prev\<close> and \<open>b_next\<close>, which are indices, and the list
  head \<^verbatim>\<open>bcache.head\<close> is the element NBUF. The loops over that list have a bound of one
  more step than there are buffers, which is enough to come back to the head of a well-formed
  list (\<open>scan_list\<close>).

  The device is behind \<open>virtio_disk_rw\<close>: a call moves one block between a buffer and the disk and
  returns when the device is done. The disk remembers the sequence of block writes
  (\<open>dwrites\<close>), the order in which they become durable.
\<close>

definition BSIZE :: nat where
  "BSIZE = 1024"

definition NBUF :: nat where
  "NBUF = 30"

definition ROOTDEV :: u32 where
  "ROOTDEV = 1"

record buf =
  b_valid :: u32
  b_dev :: u32
  b_blockno :: u32
  b_refcnt :: u32
  b_prev :: nat
  b_next :: nat
  b_data :: bytes

record bio = slk +
  bufs :: "nat \<Rightarrow> buf"
  disk :: "u32 \<Rightarrow> bytes"
  dwrites :: "(u32 \<times> bytes) list"

section \<open>Operations\<close>

abbreviation HD :: nat where
  "HD \<equiv> NBUF"

definition modb :: "nat \<Rightarrow> (buf \<Rightarrow> buf) \<Rightarrow> ('x bio_scheme, unit) K" where
  "modb i f = modk (\<lambda>s. s\<lparr>bufs := (bufs s)(i := f (bufs s i))\<rparr>)"

definition getb :: "nat \<Rightarrow> (buf \<Rightarrow> 'a) \<Rightarrow> ('x bio_scheme, 'a) K" where
  "getb i f = getk (\<lambda>s. f (bufs s i))"

definition virtio_disk_rw :: "nat \<Rightarrow> bool \<Rightarrow> ('x bio_scheme, unit) K" where
  "virtio_disk_rw i write =
     (if write then modk (\<lambda>s. let b = bufs s i in
        s\<lparr>disk := (disk s)(b_blockno b := b_data b),
          dwrites := dwrites s @ [(b_blockno b, b_data b)]\<rparr>)
      else bnd (getk disk) (\<lambda>d. modb i (\<lambda>b. b\<lparr>b_data := d (b_blockno b)\<rparr>)))"

definition binit1 :: "nat \<Rightarrow> ('x bio_scheme, unit) K" where
  "binit1 b =
     thn (bnd (getb HD b_next) (\<lambda>n. modb b (b_next_update (\<lambda>_. n)))) (
     thn (modb b (b_prev_update (\<lambda>_. HD))) (
     thn (initsleeplock (SlBuf b) ''buffer'') (
     thn (bnd (getb HD b_next) (\<lambda>n. modb n (b_prev_update (\<lambda>_. b))))
         (modb HD (b_next_update (\<lambda>_. b))))))"

definition binit :: "('x bio_scheme, unit) K" where
  "binit =
     thn (initlk LkBcache) (
     thn (modb HD (b_prev_update (\<lambda>_. HD))) (
     thn (modb HD (b_next_update (\<lambda>_. HD)))
         (eachk binit1 [0..<NBUF])))"

fun scan :: "nat \<Rightarrow> (buf \<Rightarrow> nat) \<Rightarrow> (buf \<Rightarrow> bool) \<Rightarrow> (nat \<Rightarrow> buf) \<Rightarrow> nat \<Rightarrow> nat option" where
  "scan 0 step P B b = None"
| "scan (Suc k) step P B b =
     (if b = HD then None else if P (B b) then Some b else scan k step P B (step (B b)))"

definition bget :: "u32 \<Rightarrow> u32 \<Rightarrow> ('x bio_scheme, nat) K" where
  "bget dev blockno =
     thn (acquire LkBcache) (
     bnd (getk (\<lambda>s. scan (Suc NBUF) b_next (\<lambda>b. b_dev b = dev \<and> b_blockno b = blockno)
                      (bufs s) (b_next (bufs s HD)))) (\<lambda>r.
     case r of
       Some b \<Rightarrow>
         thn (modb b (b_refcnt_update (\<lambda>n. n + 1))) (
         thn (release LkBcache) (
         thn (acquiresleep (SlBuf b)) (ret b)))
     | None \<Rightarrow>
         bnd (getk (\<lambda>s. scan (Suc NBUF) b_prev (\<lambda>b. b_refcnt b = 0)
                          (bufs s) (b_prev (bufs s HD)))) (\<lambda>r.
         case r of
           Some b \<Rightarrow>
             thn (modb b (b_dev_update (\<lambda>_. dev))) (
             thn (modb b (b_blockno_update (\<lambda>_. blockno))) (
             thn (modb b (b_valid_update (\<lambda>_. 0))) (
             thn (modb b (b_refcnt_update (\<lambda>_. 1))) (
             thn (release LkBcache) (
             thn (acquiresleep (SlBuf b)) (ret b))))))
         | None \<Rightarrow> panic ''bget: no buffers'')))"

definition bread :: "u32 \<Rightarrow> u32 \<Rightarrow> ('x bio_scheme, nat) K" where
  "bread dev blockno =
     bnd (bget dev blockno) (\<lambda>b.
     bnd (getb b b_valid) (\<lambda>valid.
     thn (whenk (valid = 0) (
       thn (virtio_disk_rw b False)
           (modb b (b_valid_update (\<lambda>_. 1)))))
     (ret b)))"

definition bwrite :: "nat \<Rightarrow> ('x bio_scheme, unit) K" where
  "bwrite b = bnd (holdingsleep (SlBuf b)) (\<lambda>h.
     if \<not> h then panic ''bwrite'' else virtio_disk_rw b True)"

definition brelse :: "nat \<Rightarrow> ('x bio_scheme, unit) K" where
  "brelse b = bnd (holdingsleep (SlBuf b)) (\<lambda>h.
     if \<not> h then panic ''brelse'' else
     thn (releasesleep (SlBuf b)) (
     thn (acquire LkBcache) (
     thn (modb b (b_refcnt_update (\<lambda>n. n - 1))) (
     bnd (getb b b_refcnt) (\<lambda>n.
     thn (whenk (n = 0) (
       thn (bnd (getb b b_next) (\<lambda>nx. bnd (getb b b_prev) (\<lambda>pv. modb nx (b_prev_update (\<lambda>_. pv))))) (
       thn (bnd (getb b b_prev) (\<lambda>pv. bnd (getb b b_next) (\<lambda>nx. modb pv (b_next_update (\<lambda>_. nx))))) (
       thn (bnd (getb HD b_next) (\<lambda>h. modb b (b_next_update (\<lambda>_. h)))) (
       thn (modb b (b_prev_update (\<lambda>_. HD))) (
       thn (bnd (getb HD b_next) (\<lambda>h. modb h (b_prev_update (\<lambda>_. b))))
           (modb HD (b_next_update (\<lambda>_. b)))))))))
     (release LkBcache))))))"

definition bpin :: "nat \<Rightarrow> ('x bio_scheme, unit) K" where
  "bpin b =
     thn (acquire LkBcache) (
     thn (modb b (b_refcnt_update (\<lambda>n. n + 1)))
         (release LkBcache))"

definition bunpin :: "nat \<Rightarrow> ('x bio_scheme, unit) K" where
  "bunpin b =
     thn (acquire LkBcache) (
     thn (modb b (b_refcnt_update (\<lambda>n. n - 1)))
         (release LkBcache))"

section \<open>The list of buffers\<close>

fun path :: "(nat \<Rightarrow> nat) \<Rightarrow> nat list \<Rightarrow> bool" where
  "path f (a # b # xs) \<longleftrightarrow> f a = b \<and> path f (b # xs)"
| "path f xs \<longleftrightarrow> True"

definition dll :: "(nat \<Rightarrow> nat) \<Rightarrow> (nat \<Rightarrow> nat) \<Rightarrow> nat list \<Rightarrow> bool" where
  "dll nx pv L \<longleftrightarrow> path nx (HD # L @ [HD]) \<and> path pv (HD # rev L @ [HD])
     \<and> distinct L \<and> set L = {..<NBUF}"

lemma path_append: "path f (xs @ a # ys) \<longleftrightarrow> path f (xs @ [a]) \<and> path f (a # ys)"
  by (induction f xs rule: path.induct) auto

lemma path_cong: "(\<And>x. x \<in> set (butlast xs) \<Longrightarrow> f x = g x) \<Longrightarrow> path f xs = path g xs"
  by (induction f xs rule: path.induct) auto

lemma path_upd_other: "a \<notin> set (butlast xs) \<Longrightarrow> path (f(a := v)) xs = path f xs"
  by (rule path_cong) auto

lemma path_skip:
  assumes "path f (xs @ a # b # c # ys)" "a \<notin> set xs" "a \<notin> set (butlast (c # ys))"
  shows "path (f(a := c)) (xs @ a # c # ys)"
proof -
  have "path f (xs @ [a])" "path f (c # ys)"
    using assms(1) path_append [of f xs a "b # c # ys"] by auto
  then have "path (f(a := c)) (xs @ [a])" "path (f(a := c)) (c # ys)"
    using assms(2,3) by (auto simp: path_upd_other)
  then show ?thesis by (subst path_append) auto
qed

text \<open>Taking \<open>b\<close> out of a list and putting it at the front, as \<open>brelse\<close> does; in the direction
  of the other pointer it goes to the back.\<close>

lemma path_unlink:
  assumes "path f (h # xs @ b # ys @ [h])" "distinct (h # xs @ b # ys)"
  shows "path (f (last (h # xs) := hd (ys @ [h]))) (h # xs @ ys @ [h])"
proof -
  obtain us a where us: "h # xs = us @ [a]" by (cases "h # xs" rule: rev_cases) auto
  obtain c vs where vs: "ys @ [h] = c # vs" by (cases "ys @ [h]") auto
  have lc: "last (h # xs) = a" "hd (ys @ [h]) = c" unfolding us vs by simp_all
  have "butlast (ys @ [h]) = ys" by simp
  then have bl: "butlast (c # vs) = ys" unfolding vs .
  have "distinct ((us @ [a]) @ b # ys)" using assms(2) unfolding us [symmetric] by simp
  moreover have "path f ((us @ [a]) @ b # c # vs)"
    using assms(1) unfolding us [symmetric] vs [symmetric] by simp
  ultimately have "path (f(a := c)) (us @ a # c # vs)"
    using bl by (intro path_skip [of f us a b]) auto
  then have "path (f(a := c)) ((us @ [a]) @ c # vs)" by simp
  then show ?thesis
    unfolding lc us [symmetric] vs [symmetric] by simp
qed

lemma path_insert_front:
  assumes "path g (h # zs @ [h])" "b \<notin> set (h # zs)" "h \<notin> set zs"
  shows "path (g(b := hd (zs @ [h]), h := b)) (h # b # zs @ [h])"
proof -
  obtain d ds where ds: "zs @ [h] = d # ds" by (cases "zs @ [h]") auto
  have "butlast (zs @ [h]) = zs" by simp
  then have "butlast (d # ds) = zs" unfolding ds .
  then have "path (g(b := d, h := b)) (d # ds) = path g (d # ds)"
    using assms(2,3) by (auto simp: path_upd_other)
  with assms ds show ?thesis by auto
qed

lemma path_insert_back:
  assumes "path g (h # zs @ [h])" "b \<notin> set (h # zs)" "distinct (h # zs)"
  shows "path (g(b := h, last (h # zs) := b)) (h # zs @ [b, h])"
proof -
  obtain ws e where ws: "h # zs = ws @ [e]" by (cases "h # zs" rule: rev_cases) auto
  have "path g ((ws @ [e]) @ [h])" using assms(1) unfolding ws [symmetric] by simp
  then have "path g (ws @ [e])" using path_append [of g ws e "[h]"] by simp
  moreover have "b \<notin> set (ws @ [e])" "distinct (ws @ [e])" using assms unfolding ws by simp_all
  ultimately have "path (g(b := h, e := b)) (ws @ e # [b, h])"
    by (subst path_append) (auto simp: path_upd_other)
  then have "path (g(b := h, e := b)) ((ws @ [e]) @ [b, h])" by simp
  moreover have "last (h # zs) = e" unfolding ws by simp
  ultimately show ?thesis unfolding ws [symmetric] by simp
qed

lemma dll_neighbours:
  assumes "dll nx pv (xs @ b # ys)"
  shows "nx b = hd (ys @ [HD])" "pv b = last (HD # xs)" "nx HD = hd (xs @ b # ys)"
    "distinct (HD # xs @ b # ys)"
proof -
  have d: "path nx (HD # xs @ b # ys @ [HD])" "path pv (HD # rev ys @ b # rev xs @ [HD])"
    and s: "set (xs @ b # ys) = {..<NBUF}" "distinct (xs @ b # ys)"
    using assms by (simp_all add: dll_def)
  from d(1) path_append [of nx "HD # xs" b "ys @ [HD]"] show "nx b = hd (ys @ [HD])"
    by (cases ys) auto
  have "last (HD # xs) = hd (rev xs @ [HD])" by (cases xs rule: rev_cases) auto
  with d(2) path_append [of pv "HD # rev ys" b "rev xs @ [HD]"] show "pv b = last (HD # xs)"
    by (cases "rev xs") auto
  from d(1) show "nx HD = hd (xs @ b # ys)" by (cases xs) auto
  have "HD \<notin> set (xs @ b # ys)" unfolding s by simp
  with s(2) show "distinct (HD # xs @ b # ys)" by simp
qed

lemma last_Cons_rev: "last (h # rev ys) = hd (ys @ [h])"
  by (cases ys) auto

lemma hd_rev_snoc: "hd (rev xs @ [h]) = last (h # xs)"
  by (cases xs rule: rev_cases) auto

lemma dll_move_front:
  fixes nx pv :: "nat \<Rightarrow> nat" and b :: nat
  defines "nx' \<equiv> nx(pv b := nx b)"
  assumes "dll nx pv (xs @ b # ys)"
  shows "dll (nx'(b := nx' HD, HD := b)) (pv(nx b := pv b, b := HD, nx' HD := b)) (b # xs @ ys)"
proof -
  note nb = dll_neighbours [OF assms(2)]
  have d: "path nx (HD # xs @ b # ys @ [HD])" "path pv (HD # rev ys @ b # rev xs @ [HD])"
    and s: "set (xs @ b # ys) = {..<NBUF}"
    using assms(2) by (simp_all add: dll_def)
  have p1: "path nx' (HD # (xs @ ys) @ [HD])"
    using path_unlink [OF d(1) nb(4)] nb(1,2) by (simp add: nx'_def)
  then have h: "nx' HD = hd ((xs @ ys) @ [HD])" by (cases "xs @ ys") auto
  have dd: "b \<notin> set (HD # xs @ ys)" "distinct (HD # xs @ ys)" using nb(4) by auto
  have 1: "path (nx'(b := nx' HD, HD := b)) (HD # b # (xs @ ys) @ [HD])"
    unfolding h by (rule path_insert_front [OF p1]) (use dd in auto)
  have l: "last (HD # rev ys) = nx b" "hd (rev xs @ [HD]) = pv b" "last (HD # rev (xs @ ys)) = nx' HD"
    unfolding h nb(1,2) last_Cons_rev hd_rev_snoc by simp_all
  have "distinct (HD # rev ys @ b # rev xs)" using nb(4) by auto
  from path_unlink [OF d(2) this] have "path (pv(nx b := pv b)) (HD # rev (xs @ ys) @ [HD])"
    unfolding l by simp
  then have "path (pv(nx b := pv b, b := HD, last (HD # rev (xs @ ys)) := b)) (HD # rev (xs @ ys) @ [b, HD])"
    by (rule path_insert_back) (use dd in auto)
  then have 2: "path (pv(nx b := pv b, b := HD, nx' HD := b)) (HD # rev (xs @ ys) @ [b, HD])"
    unfolding l .
  have "set (b # xs @ ys) = {..<NBUF}" using s by auto
  with 1 2 dd show ?thesis unfolding dll_def by simp
qed

definition bdll :: "(nat \<Rightarrow> buf) \<Rightarrow> nat list \<Rightarrow> bool" where
  "bdll B L \<longleftrightarrow> dll (\<lambda>i. b_next (B i)) (\<lambda>i. b_prev (B i)) L"

lemma scan_list:
  assumes "path (\<lambda>i. step (B i)) (L @ [HD])" "HD \<notin> set L" "length L < k"
  shows "scan k step P B (hd (L @ [HD])) = find (\<lambda>i. P (B i)) L"
  using assms
proof (induction L arbitrary: k)
  case Nil
  then show ?case by (cases k) auto
next
  case (Cons a L)
  then obtain j where j: "k = Suc j" "length L < j" by (cases k) auto
  have "path (\<lambda>i. step (B i)) (L @ [HD])" "step (B a) = hd (L @ [HD])"
    using Cons.prems(1) by (cases L; auto)+
  with Cons j show ?case by auto
qed

declare scan.simps [simp del]

lemma bdll_facts:
  assumes "bdll B L"
  shows "path (\<lambda>i. b_next (B i)) (L @ [HD])" "path (\<lambda>i. b_prev (B i)) (rev L @ [HD])"
    "b_next (B HD) = hd (L @ [HD])" "b_prev (B HD) = hd (rev L @ [HD])"
    "HD \<notin> set L" "length L = NBUF" "distinct L" "set L = {..<NBUF}"
proof -
  have d: "path (\<lambda>i. b_next (B i)) (HD # L @ [HD])" "path (\<lambda>i. b_prev (B i)) (HD # rev L @ [HD])"
    "distinct L" "set L = {..<NBUF}"
    using assms by (simp_all add: bdll_def dll_def)
  then show "distinct L" "set L = {..<NBUF}" "HD \<notin> set L" by simp_all
  from d(3,4) show "length L = NBUF" by (metis card_lessThan distinct_card)
  from d(1) show "path (\<lambda>i. b_next (B i)) (L @ [HD])" "b_next (B HD) = hd (L @ [HD])"
    by (cases L; simp)+
  from d(2) show "path (\<lambda>i. b_prev (B i)) (rev L @ [HD])" "b_prev (B HD) = hd (rev L @ [HD])"
    by (cases "rev L"; simp)+
qed

lemma scan_next:
  "bdll B L \<Longrightarrow> scan (Suc NBUF) b_next P B (b_next (B HD)) = find (\<lambda>i. P (B i)) L"
  by (frule bdll_facts(3)) (simp only:, rule scan_list, simp_all add: bdll_facts)

lemma scan_prev:
  "bdll B L \<Longrightarrow> scan (Suc NBUF) b_prev P B (b_prev (B HD)) = find (\<lambda>i. P (B i)) (rev L)"
  by (frule bdll_facts(4)) (simp only:, rule scan_list, simp_all add: bdll_facts)

lemma bdll_cong:
  "(\<And>i. b_next (B' i) = b_next (B i)) \<Longrightarrow> (\<And>i. b_prev (B' i) = b_prev (B i)) \<Longrightarrow> bdll B' L = bdll B L"
  by (simp add: bdll_def)

text \<open>The pointer updates of \<open>brelse\<close>, in the order of the source.\<close>

definition setpv :: "nat \<Rightarrow> nat \<Rightarrow> (nat \<Rightarrow> buf) \<Rightarrow> nat \<Rightarrow> buf" where
  "setpv i v B = B(i := (B i)\<lparr>b_prev := v\<rparr>)"

definition setnx :: "nat \<Rightarrow> nat \<Rightarrow> (nat \<Rightarrow> buf) \<Rightarrow> nat \<Rightarrow> buf" where
  "setnx i v B = B(i := (B i)\<lparr>b_next := v\<rparr>)"

lemma setpv_fields [simp]:
  "b_prev (setpv i v B j) = (if j = i then v else b_prev (B j))" "b_next (setpv i v B j) = b_next (B j)"
  "b_valid (setpv i v B j) = b_valid (B j)" "b_dev (setpv i v B j) = b_dev (B j)"
  "b_blockno (setpv i v B j) = b_blockno (B j)" "b_refcnt (setpv i v B j) = b_refcnt (B j)"
  "b_data (setpv i v B j) = b_data (B j)"
  by (simp_all add: setpv_def)

lemma setnx_fields [simp]:
  "b_next (setnx i v B j) = (if j = i then v else b_next (B j))" "b_prev (setnx i v B j) = b_prev (B j)"
  "b_valid (setnx i v B j) = b_valid (B j)" "b_dev (setnx i v B j) = b_dev (B j)"
  "b_blockno (setnx i v B j) = b_blockno (B j)" "b_refcnt (setnx i v B j) = b_refcnt (B j)"
  "b_data (setnx i v B j) = b_data (B j)"
  by (simp_all add: setnx_def)

definition relink :: "(nat \<Rightarrow> buf) \<Rightarrow> nat \<Rightarrow> nat \<Rightarrow> buf" where
  "relink B b =
     ((\<lambda>B. setnx HD b B) \<circ> (\<lambda>B. setpv (b_next (B HD)) b B) \<circ> (\<lambda>B. setpv b HD B)
      \<circ> (\<lambda>B. setnx b (b_next (B HD)) B) \<circ> (\<lambda>B. setnx (b_prev (B b)) (b_next (B b)) B)
      \<circ> (\<lambda>B. setpv (b_next (B b)) (b_prev (B b)) B)) B"

lemma relink_fields [simp]:
  "b_valid (relink B b i) = b_valid (B i)" "b_dev (relink B b i) = b_dev (B i)"
  "b_blockno (relink B b i) = b_blockno (B i)" "b_refcnt (relink B b i) = b_refcnt (B i)"
  "b_data (relink B b i) = b_data (B i)"
  by (simp_all add: relink_def)

lemma bdll_relink:
  assumes "bdll B L" "b \<in> set L"
  shows "bdll (relink B b) (b # remove1 b L)"
proof -
  obtain xs ys where L: "L = xs @ b # ys" "b \<notin> set xs" using assms(2) by (meson split_list_first)
  let ?nx = "\<lambda>i. b_next (B i)" and ?pv = "\<lambda>i. b_prev (B i)"
  let ?nx' = "?nx(?pv b := ?nx b)"
  have d: "dll ?nx ?pv (xs @ b # ys)" using assms(1) L by (simp add: bdll_def)
  note nb = dll_neighbours [OF d]
  have ne: "b \<noteq> HD" "?nx b \<noteq> b" "?pv b \<noteq> b"
    using nb by (cases ys; cases xs rule: rev_cases; auto)+
  have "(\<lambda>i. b_next (relink B b i)) = ?nx'(b := ?nx' HD, HD := b)"
    using ne by (auto simp: relink_def fun_eq_iff)
  moreover have "(\<lambda>i. b_prev (relink B b i)) = ?pv(?nx b := ?pv b, b := HD, ?nx' HD := b)"
    using ne by (auto simp: relink_def fun_eq_iff)
  ultimately show ?thesis
    using dll_move_front [OF d] L by (simp add: bdll_def remove1_append)
qed

section \<open>The cache as a view of the disk\<close>

text \<open>The abstract state of the cache for the process that uses it: \<open>V n\<close> is the contents of
  block \<open>n\<close> as the kernel sees it, \<open>Q n\<close> the buffer through which the process has block \<open>n\<close>
  locked, and \<open>P n\<close> how often the block is pinned. A block that is neither pinned nor locked
  is equal to its copy on the disk.\<close>

definition mypid :: "'x ptab_scheme \<Rightarrow> u32" where
  "mypid s = p_pid (procs s (the (curproc s)))"

definition cached :: "'x bio_scheme \<Rightarrow> u32 \<Rightarrow> nat \<Rightarrow> bool" where
  "cached s n i \<longleftrightarrow> i < NBUF \<and> b_dev (bufs s i) = ROOTDEV \<and> b_blockno (bufs s i) = n"

definition locked_by_me :: "'x bio_scheme \<Rightarrow> nat \<Rightarrow> bool" where
  "locked_by_me s i \<longleftrightarrow> sl_locked (slocks s (SlBuf i)) \<noteq> 0 \<and> sl_pid (slocks s (SlBuf i)) = mypid s"

definition refs :: "(u32 \<Rightarrow> nat option) \<Rightarrow> (u32 \<Rightarrow> nat) \<Rightarrow> u32 \<Rightarrow> nat" where
  "refs Q P n = P n + (if Q n = None then 0 else 1)"

lemma of_nat_refs_0:
  "P n < 2 ^ 31 \<Longrightarrow> (of_nat (refs Q P n) :: u32) = 0 \<longleftrightarrow> P n = 0 \<and> Q n = None"
  by (auto simp: refs_def word_of_nat_eq_0_iff dest: dvd_imp_le simp del: of_nat_add of_nat_Suc)

lemma refs_cong: "Q' n = Q n \<Longrightarrow> P' n = P n \<Longrightarrow> refs Q' P' n = refs Q P n"
  by (simp add: refs_def)

definition buf_ok :: "'x bio_scheme \<Rightarrow> (u32 \<Rightarrow> bytes) \<Rightarrow> (u32 \<Rightarrow> nat option) \<Rightarrow> (u32 \<Rightarrow> nat) \<Rightarrow> nat \<Rightarrow> bool" where
  "buf_ok s V Q P i \<longleftrightarrow> (let b = bufs s i; n = b_blockno b in
     if b_dev b = ROOTDEV then
       b_refcnt b = of_nat (refs Q P n)
       \<and> (if b_valid b \<noteq> 0 then b_data b = V n else P n = 0 \<and> Q n = None)
       \<and> (case Q n of None \<Rightarrow> sl_locked (slocks s (SlBuf i)) = 0 | Some j \<Rightarrow> j = i \<and> locked_by_me s i)
     else b_refcnt b = 0 \<and> sl_locked (slocks s (SlBuf i)) = 0)"

definition blk_ok :: "'x bio_scheme \<Rightarrow> (u32 \<Rightarrow> bytes) \<Rightarrow> (u32 \<Rightarrow> nat option) \<Rightarrow> (u32 \<Rightarrow> nat) \<Rightarrow> u32 \<Rightarrow> bool" where
  "blk_ok s V Q P n \<longleftrightarrow> P n < 2 ^ 31
     \<and> (P n = 0 \<and> Q n = None \<longrightarrow> V n = disk s n)
     \<and> (P n > 0 \<longrightarrow> (\<exists>i. cached s n i)) \<and> (\<forall>i. Q n = Some i \<longrightarrow> cached s n i)"

definition cache :: "'x bio_scheme \<Rightarrow> (u32 \<Rightarrow> bytes) \<Rightarrow> (u32 \<Rightarrow> nat option) \<Rightarrow> (u32 \<Rightarrow> nat) \<Rightarrow> bool" where
  "cache s V Q P \<longleftrightarrow> (\<exists>L. bdll (bufs s) L)
     \<and> (\<forall>n i j. cached s n i \<longrightarrow> cached s n j \<longrightarrow> i = j)
     \<and> (\<forall>i < NBUF. buf_ok s V Q P i) \<and> (\<forall>n. blk_ok s V Q P n)"

definition bio_ready :: "'x bio_scheme \<Rightarrow> bool" where
  "bio_ready s \<longleftrightarrow> curproc s \<noteq> None \<and> can_wake s \<and> LkBcache \<notin> set (held s)
     \<and> (\<forall>l. LkSleep l \<notin> set (held s))"

definition same_buf :: "buf \<Rightarrow> buf \<Rightarrow> bool" where
  "same_buf a b \<longleftrightarrow> b_valid a = b_valid b \<and> b_dev a = b_dev b \<and> b_blockno a = b_blockno b
     \<and> b_refcnt a = b_refcnt b \<and> b_data a = b_data b"

lemma cacheD:
  assumes "cache s V Q P"
  shows "cached s n i \<Longrightarrow> cached s n j \<Longrightarrow> i = j" "i < NBUF \<Longrightarrow> buf_ok s V Q P i" "blk_ok s V Q P n"
  using assms unfolding cache_def by blast+

text \<open>Every operation touches one buffer \<open>i\<close>, which afterwards holds block \<open>n\<close>.\<close>

lemma cache_step:
  assumes c: "cache s V Q P" and i: "i < NBUF"
    and others: "\<And>j. j \<noteq> i \<Longrightarrow> same_buf (bufs t j) (bufs s j) \<and> slocks t (SlBuf j) = slocks s (SlBuf j)"
    and pid: "mypid t = mypid s" and L: "bdll (bufs t) L"
    and n: "b_dev (bufs t i) = ROOTDEV" "b_blockno (bufs t i) = n"
    and own: "cached s n i \<or> (\<forall>j. \<not> cached s n j) \<and> b_refcnt (bufs s i) = 0"
    and rest: "\<And>m. m \<noteq> n \<Longrightarrow> V' m = V m \<and> Q' m = Q m \<and> P' m = P m \<and> disk t m = disk s m"
    and bi: "buf_ok t V' Q' P' i" and P': "P' n < 2 ^ 31"
    and clean: "P' n = 0 \<Longrightarrow> Q' n = None \<Longrightarrow> V' n = disk t n" and open': "Q' n = None \<or> Q' n = Some i"
  shows "cache t V' Q' P'"
proof -
  have ct: "cached t m j \<longleftrightarrow> (if j = i then m = n else cached s m j)" for m j
    using others [of j] n i by (auto simp: cached_def same_buf_def)
  have nj: "\<not> cached s n j" if "j \<noteq> i" for j
    using own cacheD(1) [OF c] that by blast
  have "buf_ok t V' Q' P' j" if j: "j < NBUF" "j \<noteq> i" for j
  proof -
    have "buf_ok s V Q P j" using cacheD(2) [OF c j(1)] .
    moreover have "b_dev (bufs s j) = ROOTDEV \<Longrightarrow> b_blockno (bufs s j) \<noteq> n"
      using nj [OF j(2)] j by (auto simp: cached_def)
    ultimately show ?thesis
      using others [OF j(2)] rest [of "b_blockno (bufs s j)"] pid
        refs_cong [of Q' "b_blockno (bufs s j)" Q P' P]
      by (auto simp: buf_ok_def Let_def same_buf_def locked_by_me_def split: option.splits)
  qed
  then have 1: "\<forall>j < NBUF. buf_ok t V' Q' P' j" using bi by metis
  have free: "P m = 0 \<and> Q m = None" if "m \<noteq> n" "cached s m i" for m
  proof -
    have "b_refcnt (bufs s i) = 0" using own that by (auto simp: cached_def)
    moreover have "P m < 2 ^ 31" using cacheD(3) [OF c] by (auto simp: blk_ok_def)
    ultimately show ?thesis
      using cacheD(2) [OF c i] that of_nat_refs_0 [of P m Q]
      by (auto simp: buf_ok_def Let_def cached_def split: option.splits)
  qed
  have "blk_ok t V' Q' P' m" for m
  proof (cases "m = n")
    case True
    then show ?thesis using P' clean open' ct by (auto simp: blk_ok_def)
  next
    case False
    have "cached s m j \<Longrightarrow> 0 < P m \<or> Q m \<noteq> None \<Longrightarrow> cached t m j" for j
      using free [OF False] ct by auto
    then show ?thesis
      using rest [OF False] cacheD(3) [OF c, of m] unfolding blk_ok_def by (metis option.distinct(1))
  qed
  moreover have "cached t m j \<Longrightarrow> cached t m k \<Longrightarrow> j = k" for m j k
    using ct cacheD(1) [OF c, of m j k] nj by metis
  ultimately show ?thesis using 1 L unfolding cache_def by blast
qed

section \<open>What each operation does to the view\<close>

lemma modb_app [simp, kernel_simps]: "modb i f s = Done () (s\<lparr>bufs := (bufs s)(i := f (bufs s i))\<rparr>)"
  by (simp add: modb_def)

lemma getb_app [simp, kernel_simps]: "getb i f s = Done (f (bufs s i)) s"
  by (simp add: getb_def)

text \<open>What a cache operation leaves alone. \<open>wakeup\<close> in \<open>releasesleep\<close> may turn other processes
  RUNNABLE.\<close>

definition procs_kept :: "'x ptab_scheme \<Rightarrow> 'x ptab_scheme \<Rightarrow> bool" where
  "procs_kept s t \<longleftrightarrow> (\<forall>p. (\<exists>st rt. procs t p = (procs s p)\<lparr>p_state := st, p_readytime := rt\<rparr>)
     \<and> (curproc s = Some p \<longrightarrow> procs t p = procs s p))"

definition bio_frame :: "'x bio_scheme \<Rightarrow> 'x bio_scheme \<Rightarrow> bool" where
  "bio_frame s t \<longleftrightarrow> held t = held s \<and> mem t = mem s \<and> freelist t = freelist s \<and> kend t = kend s
     \<and> curproc t = curproc s \<and> initproc t = initproc s \<and> nextpid t = nextpid s \<and> ticks t = ticks s
     \<and> procs_kept s t \<and> (\<forall>k. slocks t (SlInode k) = slocks s (SlInode k)) \<and> bio.more t = bio.more s"

lemma procs_kept_same: "procs t = procs s \<Longrightarrow> procs_kept s t"
proof -
  have "\<exists>st rt. q = q\<lparr>p_state := st, p_readytime := rt\<rparr>" for q :: proc
    by (rule exI [of _ "p_state q"], rule exI [of _ "p_readytime q"]) (cases q, simp)
  then show "procs t = procs s \<Longrightarrow> procs_kept s t" by (auto simp: procs_kept_def)
qed

lemma procs_kept_woken: "procs t = woken ch s \<Longrightarrow> procs_kept s t"
proof -
  have "\<exists>st rt. q = q\<lparr>p_state := st, p_readytime := rt\<rparr>" for q :: proc
    by (rule exI [of _ "p_state q"], rule exI [of _ "p_readytime q"]) (cases q, simp)
  then show "procs t = woken ch s \<Longrightarrow> procs_kept s t"
    by (auto simp: procs_kept_def woken_def sleeping_on_def)
qed

lemma procs_kept_trans:
  assumes "procs_kept s t" "procs_kept t u" "curproc t = curproc s"
  shows "procs_kept s u"
  unfolding procs_kept_def
proof
  fix p
  obtain st rt where 1: "procs t p = (procs s p)\<lparr>p_state := st, p_readytime := rt\<rparr>"
    using assms(1) unfolding procs_kept_def by metis
  obtain st' rt' where 2: "procs u p = (procs t p)\<lparr>p_state := st', p_readytime := rt'\<rparr>"
    using assms(2) unfolding procs_kept_def by metis
  have "procs u p = (procs s p)\<lparr>p_state := st', p_readytime := rt'\<rparr>" unfolding 2 1 by simp
  then show "(\<exists>st rt. procs u p = (procs s p)\<lparr>p_state := st, p_readytime := rt\<rparr>)
      \<and> (curproc s = Some p \<longrightarrow> procs u p = procs s p)"
    using assms by (auto simp: procs_kept_def)
qed

lemma bio_frame_refl [simp]: "bio_frame s s"
  by (simp add: bio_frame_def procs_kept_same)

lemma bio_frame_trans [trans]: "bio_frame s t \<Longrightarrow> bio_frame t u \<Longrightarrow> bio_frame s u"
  unfolding bio_frame_def using procs_kept_trans [of s t u] by simp

lemma bio_frame_ready: "bio_frame s t \<Longrightarrow> bio_ready t = bio_ready s"
  by (simp add: bio_frame_def bio_ready_def can_wake_def no_plock_def)

lemma procs_kept_pid: "procs_kept s t \<Longrightarrow> p_pid (procs t p) = p_pid (procs s p)"
proof -
  assume "procs_kept s t"
  then obtain st rt where "procs t p = (procs s p)\<lparr>p_state := st, p_readytime := rt\<rparr>"
    unfolding procs_kept_def by metis
  then show ?thesis by simp
qed

lemma bio_frame_pid: "bio_frame s t \<Longrightarrow> mypid t = mypid s"
  by (simp add: bio_frame_def mypid_def procs_kept_pid)

definition lock_mine :: "'x bio_scheme \<Rightarrow> nat \<Rightarrow> sleeplock" where
  "lock_mine s i = (slocks s (SlBuf i))\<lparr>sl_locked := 1, sl_pid := mypid s\<rparr>"

lemma bget_hit:
  assumes "bio_ready s" "bdll (bufs s) L"
    and "find (\<lambda>i. b_dev (bufs s i) = d \<and> b_blockno (bufs s i) = n) L = Some i"
    and "sl_locked (slocks s (SlBuf i)) = 0"
  shows "bget d n s = Done i (s\<lparr>bufs := (bufs s)(i := b_refcnt_update (\<lambda>n. n + 1) (bufs s i)),
    slocks := (slocks s)(SlBuf i := lock_mine s i)\<rparr>)"
  using assms
  by (auto simp: bget_def kernel_simps scan_next acquiresleep_app bio_ready_def lock_mine_def mypid_def)

lemma bget_miss:
  assumes "bio_ready s" "bdll (bufs s) L"
    and "find (\<lambda>i. b_dev (bufs s i) = d \<and> b_blockno (bufs s i) = n) L = None"
    and "find (\<lambda>i. b_refcnt (bufs s i) = 0) (rev L) = Some i" "sl_locked (slocks s (SlBuf i)) = 0"
  shows "bget d n s = Done i (s\<lparr>bufs := (bufs s)(i := (bufs s i)
      \<lparr>b_dev := d, b_blockno := n, b_valid := 0, b_refcnt := 1\<rparr>),
    slocks := (slocks s)(SlBuf i := lock_mine s i)\<rparr>)"
  using assms
  by (auto simp: bget_def kernel_simps scan_next scan_prev acquiresleep_app bio_ready_def lock_mine_def mypid_def)

lemma find_Some_mem: "find R xs = Some x \<Longrightarrow> x \<in> set xs \<and> R x"
  by (auto simp: find_Some_iff)

lemma find_None_mem: "find R xs = None \<Longrightarrow> x \<in> set xs \<Longrightarrow> \<not> R x"
  by (auto simp: find_None_iff)

lemma find_skip: "\<forall>x \<in> set xs. \<not> R x \<Longrightarrow> R y \<Longrightarrow> find R (xs @ y # ys) = Some y"
  by (induction xs) auto

lemma free_buffer_exists:
  assumes c: "cache s V Q P" and few: "card {m. 0 < P m \<or> Q m \<noteq> None} < NBUF"
  shows "\<exists>i < NBUF. b_refcnt (bufs s i) = 0"
proof (rule ccontr)
  assume "\<not> ?thesis"
  then have busy: "b_refcnt (bufs s i) \<noteq> 0" if "i < NBUF" for i using that by blast
  have d: "cached s (b_blockno (bufs s i)) i" if "i < NBUF" for i
    using cacheD(2) [OF c that] busy [OF that] that unfolding buf_ok_def Let_def cached_def by metis
  have "inj_on (\<lambda>i. b_blockno (bufs s i)) {..<NBUF}"
  proof (rule inj_onI)
    fix i j assume "i \<in> {..<NBUF}" "j \<in> {..<NBUF}" "b_blockno (bufs s i) = b_blockno (bufs s j)"
    then show "i = j"
      using d [of i] d [of j] cacheD(1) [OF c, of "b_blockno (bufs s i)" i j] by simp
  qed
  moreover have "(\<lambda>i. b_blockno (bufs s i)) ` {..<NBUF} \<subseteq> {m. 0 < P m \<or> Q m \<noteq> None}"
  proof (intro subsetI CollectI; elim imageE)
    fix m i assume m: "m = b_blockno (bufs s i)" and "i \<in> {..<NBUF}"
    then have i: "i < NBUF" by simp
    have "P m < 2 ^ 31" using cacheD(3) [OF c] by (auto simp: blk_ok_def)
    then show "0 < P m \<or> Q m \<noteq> None"
      using cacheD(2) [OF c i] busy [OF i] d [OF i] of_nat_refs_0 [of P m Q] m
      by (auto simp: buf_ok_def Let_def cached_def)
  qed
  ultimately have "NBUF \<le> card {m. 0 < P m \<or> Q m \<noteq> None}"
    using card_inj_on_le [of "\<lambda>i. b_blockno (bufs s i)" "{..<NBUF}"] by simp
  with few show False by simp
qed

lemma cache_fields_cong:
  assumes "bufs t = bufs s" "slocks t = slocks s" "disk t = disk s" "mypid t = mypid s"
  shows "cache t V Q P = cache s V Q P"
proof -
  have eqs: "cached t = cached s" "locked_by_me t = locked_by_me s"
    using assms by (auto simp: cached_def locked_by_me_def fun_eq_iff)
  have "buf_ok t V Q P = buf_ok s V Q P" "blk_ok t V Q P = blk_ok s V Q P"
    unfolding fun_eq_iff buf_ok_def blk_ok_def assms eqs by (intro allI refl)+
  then show ?thesis unfolding cache_def assms eqs by simp
qed

lemma bread_open:
  assumes c: "cache s V Q P" and n: "Q n = None" and i: "i < NBUF"
    and g: "bget ROOTDEV n s = Done i (s\<lparr>bufs := (bufs s)(i := b),
      slocks := (slocks s)(SlBuf i := lock_mine s i)\<rparr>)"
    and b: "b_dev b = ROOTDEV" "b_blockno b = n" "b_refcnt b = of_nat (P n) + 1"
      "b_next b = b_next (bufs s i)" "b_prev b = b_prev (bufs s i)"
    and v: "b_valid b \<noteq> 0 \<Longrightarrow> b_data b = V n" "b_valid b = 0 \<Longrightarrow> V n = disk s n"
    and own: "cached s n i \<or> (\<forall>j. \<not> cached s n j) \<and> b_refcnt (bufs s i) = 0"
  shows "\<exists>t. bread ROOTDEV n s = Done i t \<and> cache t V (Q(n \<mapsto> i)) P \<and> b_data (bufs t i) = V n
    \<and> bio_frame s t \<and> disk t = disk s \<and> dwrites t = dwrites s"
proof -
  let ?b = "if b_valid b = 0 then b\<lparr>b_data := disk s n, b_valid := 1\<rparr> else b"
  let ?t = "s\<lparr>bufs := (bufs s)(i := ?b), slocks := (slocks s)(SlBuf i := lock_mine s i)\<rparr>"
  obtain L where L: "bdll (bufs s) L" using c by (auto simp: cache_def)
  have "bread ROOTDEV n s = Done i ?t"
    using g b by (simp add: bread_def kernel_simps virtio_disk_rw_def)
  moreover have "cache ?t V (Q(n \<mapsto> i)) P"
  proof (rule cache_step [OF c i])
    show "bdll (bufs ?t) L" using L b by (subst bdll_cong [of _ "bufs s"]) auto
    show "buf_ok ?t V (Q(n \<mapsto> i)) P i"
      using b v by (auto simp: buf_ok_def Let_def locked_by_me_def lock_mine_def mypid_def refs_def)
    show "P n < 2 ^ 31" using cacheD(3) [OF c, of n] by (auto simp: blk_ok_def)
  qed (use b own in \<open>auto simp: same_buf_def mypid_def\<close>)
  moreover have "b_data (bufs ?t i) = V n" using v by simp
  moreover have "bio_frame s ?t" by (simp add: bio_frame_def procs_kept_same)
  ultimately show ?thesis by (intro exI [of _ ?t]) simp
qed

lemma bread_ok:
  assumes c: "cache s V Q P" and r: "bio_ready s" and n: "Q n = None"
    and few: "0 < P n \<or> card {m. 0 < P m \<or> Q m \<noteq> None} < NBUF"
  shows "\<exists>i t. bread ROOTDEV n s = Done i t \<and> cache t V (Q(n \<mapsto> i)) P \<and> b_data (bufs t i) = V n
    \<and> bio_frame s t \<and> disk t = disk s \<and> dwrites t = dwrites s"
proof -
  obtain L where L: "bdll (bufs s) L" using c by (auto simp: cache_def)
  let ?hit = "\<lambda>i. b_dev (bufs s i) = ROOTDEV \<and> b_blockno (bufs s i) = n"
  have clean: "P n = 0 \<Longrightarrow> V n = disk s n" and pin: "0 < P n \<Longrightarrow> \<exists>i. cached s n i" and P: "P n < 2 ^ 31"
    using cacheD(3) [OF c, of n] n by (auto simp: blk_ok_def)
  have memL: "i \<in> set L \<longleftrightarrow> i < NBUF" for i using bdll_facts(8) [OF L] by auto
  show ?thesis
  proof (cases "find ?hit L")
    case (Some i)
    then have i: "i < NBUF" "cached s n i" using find_Some_mem [OF Some] memL by (auto simp: cached_def)
    have ok: "buf_ok s V Q P i" using cacheD(2) [OF c i(1)] .
    then have "sl_locked (slocks s (SlBuf i)) = 0"
      using i n by (auto simp: buf_ok_def Let_def cached_def)
    from bread_open [OF c n i(1) bget_hit [OF r L Some this]] ok i n clean show ?thesis
      by (auto simp: buf_ok_def Let_def cached_def refs_def)
  next
    case None
    have nc: "\<forall>j. \<not> cached s n j" using find_None_mem [OF None] memL by (auto simp: cached_def)
    then have P0: "P n = 0" using pin by auto
    obtain k where "k < NBUF" "b_refcnt (bufs s k) = 0" using free_buffer_exists [OF c] few P0 by auto
    then obtain i where f: "find (\<lambda>i. b_refcnt (bufs s i) = 0) (rev L) = Some i"
      using memL find_None_mem [of "\<lambda>i. b_refcnt (bufs s i) = 0" "rev L" k] by fastforce
    then have i: "i < NBUF" "b_refcnt (bufs s i) = 0" using find_Some_mem [OF f] memL by auto
    have "P (b_blockno (bufs s i)) < 2 ^ 31" using cacheD(3) [OF c] by (auto simp: blk_ok_def)
    then have "sl_locked (slocks s (SlBuf i)) = 0"
      using cacheD(2) [OF c i(1)] i(2) of_nat_refs_0 [of P "b_blockno (bufs s i)" Q]
      by (auto simp: buf_ok_def Let_def split: if_splits)
    from bread_open [OF c n i(1) bget_miss [OF r L None f this]] P0 clean nc i(2) show ?thesis
      by auto
  qed
qed

lemma open_buf:
  assumes c: "cache s V Q P" and q: "Q n = Some i"
  shows "i < NBUF" "b_dev (bufs s i) = ROOTDEV" "b_blockno (bufs s i) = n" "b_valid (bufs s i) \<noteq> 0"
    "b_data (bufs s i) = V n" "b_refcnt (bufs s i) = of_nat (P n) + 1" "locked_by_me s i" "cached s n i"
    "P n < 2 ^ 31"
proof -
  have b: "cached s n i" "P n < 2 ^ 31" using cacheD(3) [OF c, of n] q by (auto simp: blk_ok_def)
  then have "buf_ok s V Q P i" using cacheD(2) [OF c] by (simp add: cached_def)
  with b q show "i < NBUF" "b_dev (bufs s i) = ROOTDEV" "b_blockno (bufs s i) = n" "b_valid (bufs s i) \<noteq> 0"
    "b_data (bufs s i) = V n" "b_refcnt (bufs s i) = of_nat (P n) + 1" "locked_by_me s i" "cached s n i"
    "P n < 2 ^ 31"
    by (auto simp: buf_ok_def Let_def cached_def refs_def split: if_splits)
qed

lemma bdll_upd: "b_next b = b_next (B i) \<Longrightarrow> b_prev b = b_prev (B i) \<Longrightarrow> bdll (B(i := b)) L = bdll B L"
  by (rule bdll_cong) auto

lemma modb_data_ok:
  assumes c: "cache s V Q P" and q: "Q n = Some i"
  shows "cache (s\<lparr>bufs := (bufs s)(i := b_data_update (\<lambda>_. d) (bufs s i))\<rparr>) (V(n := d)) Q P"
proof -
  note o = open_buf [OF c q]
  obtain L where "bdll (bufs s) L" using c by (auto simp: cache_def)
  then show ?thesis
    by (intro cache_step [OF c o(1), where n = n and L = L])
      (use o q in \<open>auto simp: same_buf_def bdll_upd mypid_def buf_ok_def Let_def refs_def locked_by_me_def\<close>)
qed

lemma modb_update_ok:
  assumes c: "cache s V Q P" and q: "Q n = Some i"
  shows "\<exists>t. modb i (b_data_update f) s = Done () t \<and> cache t (V(n := f (V n))) Q P \<and> bio_frame s t
    \<and> disk t = disk s \<and> dwrites t = dwrites s"
proof -
  let ?t = "s\<lparr>bufs := (bufs s)(i := b_data_update (\<lambda>_. f (V n)) (bufs s i))\<rparr>"
  have "b_data_update f (bufs s i) = b_data_update (\<lambda>_. f (V n)) (bufs s i)"
    using open_buf(5) [OF c q] by (cases "bufs s i") simp
  then have "modb i (b_data_update f) s = Done () ?t" by simp
  moreover have "bio_frame s ?t" by (simp add: bio_frame_def procs_kept_same)
  ultimately show ?thesis using modb_data_ok [OF c q] by (intro exI [of _ ?t]) simp
qed

lemma bwrite_ok:
  assumes c: "cache s V Q P" and r: "bio_ready s" and q: "Q n = Some i"
  shows "\<exists>t. bwrite i s = Done () t \<and> cache t V Q P \<and> bio_frame s t \<and> bufs t = bufs s
    \<and> disk t = (disk s)(n := V n) \<and> dwrites t = dwrites s @ [(n, V n)]"
proof -
  note o = open_buf [OF c q]
  let ?t = "s\<lparr>disk := (disk s)(n := V n), dwrites := dwrites s @ [(n, V n)]\<rparr>"
  obtain p where "curproc s = Some p" using r by (auto simp: bio_ready_def)
  then have "bwrite i s = Done () ?t"
    using r o by (auto simp: bwrite_def bnd_app holdingsleep_app bio_ready_def locked_by_me_def mypid_def
        virtio_disk_rw_def Let_def)
  moreover obtain L where "bdll (bufs s) L" using c by (auto simp: cache_def)
  then have "cache ?t V Q P"
    by (intro cache_step [OF c o(1), where n = n and L = L])
      (use o q cacheD(2) [OF c o(1)] in
        \<open>auto simp: same_buf_def mypid_def buf_ok_def Let_def locked_by_me_def split: option.splits\<close>)
  moreover have "bio_frame s ?t" by (simp add: bio_frame_def procs_kept_same)
  ultimately show ?thesis by simp
qed

definition bstep :: "((nat \<Rightarrow> buf) \<Rightarrow> nat \<Rightarrow> buf) \<Rightarrow> ('x bio_scheme, unit) K" where
  "bstep f = modk (\<lambda>s. s\<lparr>bufs := f (bufs s)\<rparr>)"

lemma thn_bstep: "thn (bstep f) (bstep g) = bstep (g \<circ> f)"
  by (rule ext) (simp add: bstep_def thn_app)

lemma modb_links:
  "modb i (b_prev_update (\<lambda>_. v)) = bstep (setpv i v)" "modb i (b_next_update (\<lambda>_. v)) = bstep (setnx i v)"
  by (simp_all add: fun_eq_iff bstep_def setpv_def setnx_def)

lemma bnd_getb_bstep: "bnd (getb i f) (\<lambda>v. bstep (g v)) = bstep (\<lambda>B. g (f (B i)) B)"
  by (simp add: fun_eq_iff bstep_def bnd_app)

lemma relink_steps:
  "thn (bnd (getb b b_next) (\<lambda>nx. bnd (getb b b_prev) (\<lambda>pv. modb nx (b_prev_update (\<lambda>_. pv))))) (
   thn (bnd (getb b b_prev) (\<lambda>pv. bnd (getb b b_next) (\<lambda>nx. modb pv (b_next_update (\<lambda>_. nx))))) (
   thn (bnd (getb HD b_next) (\<lambda>h. modb b (b_next_update (\<lambda>_. h)))) (
   thn (modb b (b_prev_update (\<lambda>_. HD))) (
   thn (bnd (getb HD b_next) (\<lambda>h. modb h (b_prev_update (\<lambda>_. b))))
       (modb HD (b_next_update (\<lambda>_. b)))))))
   = bstep (\<lambda>B. relink B b)"
  unfolding modb_links bnd_getb_bstep thn_bstep
  by (rule arg_cong [of _ _ bstep]) (simp add: relink_def fun_eq_iff)

lemma brelse_app:
  assumes r: "bio_ready s" and m: "locked_by_me s i"
  shows "brelse i s = (let B = (bufs s)(i := b_refcnt_update (\<lambda>n. n - 1) (bufs s i)) in
    Done () (s\<lparr>slocks := (slocks s)(SlBuf i := (slocks s (SlBuf i))\<lparr>sl_locked := 0, sl_pid := 0\<rparr>),
      procs := woken (Some (ChSleep (SlBuf i))) s,
      bufs := (if b_refcnt (bufs s i) = 1 then relink B i else B)\<rparr>))"
proof -
  obtain p where p: "curproc s = Some p" using r by (auto simp: bio_ready_def)
  have h: "holdingsleep (SlBuf i) s = Done True s"
    using r p m by (auto simp: holdingsleep_app bio_ready_def locked_by_me_def mypid_def)
  have rl: "releasesleep (SlBuf i) s = Done () (s\<lparr>slocks := (slocks s)(SlBuf i := (slocks s (SlBuf i))
      \<lparr>sl_locked := 0, sl_pid := 0\<rparr>), procs := woken (Some (ChSleep (SlBuf i))) s\<rparr>)"
    using r by (intro releasesleep_app) (auto simp: bio_ready_def)
  show ?thesis
    using r unfolding brelse_def relink_steps
    by (simp add: bnd_app thn_app whenk_app h rl bio_ready_def Let_def bstep_def)
qed

lemma brelse_ok:
  assumes c: "cache s V Q P" and r: "bio_ready s" and q: "Q n = Some i"
    and cl: "P n = 0 \<Longrightarrow> V n = disk s n"
  shows "\<exists>t. brelse i s = Done () t \<and> cache t V (Q(n := None)) P \<and> bio_frame s t
    \<and> disk t = disk s \<and> dwrites t = dwrites s"
proof -
  note o = open_buf [OF c q]
  let ?B = "(bufs s)(i := b_refcnt_update (\<lambda>n. n - 1) (bufs s i))"
  let ?t = "s\<lparr>slocks := (slocks s)(SlBuf i := (slocks s (SlBuf i))\<lparr>sl_locked := 0, sl_pid := 0\<rparr>),
      procs := woken (Some (ChSleep (SlBuf i))) s,
      bufs := (if b_refcnt (bufs s i) = 1 then relink ?B i else ?B)\<rparr>"
  obtain L where L: "bdll (bufs s) L" using c by (auto simp: cache_def)
  then have "bdll ?B L" by (simp add: bdll_upd)
  moreover from this have "bdll (relink ?B i) (i # remove1 i L)"
    using bdll_relink bdll_facts(8) o(1) by blast
  ultimately have Lt: "\<exists>L'. bdll (bufs ?t) L'" by auto
  then obtain L' where L': "bdll (bufs ?t) L'" by blast
  have fr: "bio_frame s ?t" by (simp add: bio_frame_def procs_kept_woken)
  have "cache ?t V (Q(n := None)) P"
    by (rule cache_step [OF c o(1) _ bio_frame_pid [OF fr] L', where n = n])
      (use o q cl in \<open>auto simp: same_buf_def buf_ok_def Let_def refs_def\<close>)
  moreover have "brelse i s = Done () ?t" using brelse_app [OF r o(7)] by (simp add: Let_def)
  ultimately show ?thesis using fr by (intro exI [of _ ?t]) simp
qed

lemma bpin_ok:
  assumes c: "cache s V Q P" and h: "LkBcache \<notin> set (held s)" and q: "Q n = Some i" and p: "Suc (P n) < 2 ^ 31"
  shows "\<exists>t. bpin i s = Done () t \<and> cache t V Q (P(n := Suc (P n))) \<and> bio_frame s t
    \<and> disk t = disk s \<and> dwrites t = dwrites s"
proof -
  note o = open_buf [OF c q]
  let ?t = "s\<lparr>bufs := (bufs s)(i := b_refcnt_update (\<lambda>n. n + 1) (bufs s i))\<rparr>"
  obtain L where "bdll (bufs s) L" using c by (auto simp: cache_def)
  then have "cache ?t V Q (P(n := Suc (P n)))"
    by (intro cache_step [OF c o(1), where n = n and L = L])
      (use o q p in \<open>auto simp: same_buf_def bdll_upd mypid_def buf_ok_def Let_def refs_def locked_by_me_def\<close>)
  moreover have "bpin i s = Done () ?t" using h by (simp add: bpin_def thn_app)
  moreover have "bio_frame s ?t" by (simp add: bio_frame_def procs_kept_same)
  ultimately show ?thesis by (intro exI [of _ ?t]) simp
qed

lemma bunpin_ok:
  assumes c: "cache s V Q P" and h: "LkBcache \<notin> set (held s)" and q: "Q n = Some i" and p: "P n = Suc k"
  shows "\<exists>t. bunpin i s = Done () t \<and> cache t V Q (P(n := k)) \<and> bio_frame s t
    \<and> disk t = disk s \<and> dwrites t = dwrites s"
proof -
  note o = open_buf [OF c q]
  let ?t = "s\<lparr>bufs := (bufs s)(i := b_refcnt_update (\<lambda>n. n - 1) (bufs s i))\<rparr>"
  obtain L where "bdll (bufs s) L" using c by (auto simp: cache_def)
  then have "cache ?t V Q (P(n := k))"
    by (intro cache_step [OF c o(1), where n = n and L = L])
      (use o q p in \<open>auto simp: same_buf_def bdll_upd mypid_def buf_ok_def Let_def refs_def locked_by_me_def\<close>)
  moreover have "bunpin i s = Done () ?t" using h by (simp add: bunpin_def thn_app)
  moreover have "bio_frame s ?t" by (simp add: bio_frame_def procs_kept_same)
  ultimately show ?thesis by (intro exI [of _ ?t]) simp
qed

section \<open>The cache as an interface\<close>

text \<open>What the log and the file system rely on. \<open>st s V Q P\<close> relates a state to the view, the
  locked buffers and the pins; \<open>keep\<close> is what an operation leaves alone.\<close>

definition busy_blocks :: "(u32 \<Rightarrow> nat option) \<Rightarrow> (u32 \<Rightarrow> nat) \<Rightarrow> u32 set" where
  "busy_blocks Q P = {m. 0 < P m \<or> Q m \<noteq> None}"

definition room :: "(u32 \<Rightarrow> nat option) \<Rightarrow> (u32 \<Rightarrow> nat) \<Rightarrow> u32 \<Rightarrow> bool" where
  "room Q P n \<longleftrightarrow> Q n = None \<and> (0 < P n \<or> card (busy_blocks Q P) < NBUF)"

locale block_cache =
  fixes rd :: "u32 \<Rightarrow> ('s, nat) K"
    and wr :: "nat \<Rightarrow> ('s, unit) K"
    and rel :: "nat \<Rightarrow> ('s, unit) K"
    and upd :: "nat \<Rightarrow> (bytes \<Rightarrow> bytes) \<Rightarrow> ('s, unit) K"
    and dat :: "'s \<Rightarrow> nat \<Rightarrow> bytes"
    and st :: "'s \<Rightarrow> (u32 \<Rightarrow> bytes) \<Rightarrow> (u32 \<Rightarrow> nat option) \<Rightarrow> (u32 \<Rightarrow> nat) \<Rightarrow> bool"
    and dsk :: "'s \<Rightarrow> u32 \<Rightarrow> bytes"
    and hist :: "'s \<Rightarrow> (u32 \<times> bytes) list"
    and keep :: "'s \<Rightarrow> 's \<Rightarrow> bool"
  assumes rd_ok: "st s V Q P \<Longrightarrow> room Q P n \<Longrightarrow> \<exists>i t. rd n s = Done i t \<and> st t V (Q(n \<mapsto> i)) P
      \<and> dat t i = V n \<and> keep s t \<and> dsk t = dsk s \<and> hist t = hist s"
    and upd_ok: "st s V Q P \<Longrightarrow> Q n = Some i \<Longrightarrow> \<exists>t. upd i f s = Done () t \<and> st t (V(n := f (V n))) Q P
      \<and> keep s t \<and> dsk t = dsk s \<and> hist t = hist s"
    and wr_ok: "st s V Q P \<Longrightarrow> Q n = Some i \<Longrightarrow> \<exists>t. wr i s = Done () t \<and> st t V Q P
      \<and> keep s t \<and> dsk t = (dsk s)(n := V n) \<and> hist t = hist s @ [(n, V n)]"
    and rel_ok: "st s V Q P \<Longrightarrow> Q n = Some i \<Longrightarrow> (P n = 0 \<Longrightarrow> V n = dsk s n) \<Longrightarrow>
      \<exists>t. rel i s = Done () t \<and> st t V (Q(n := None)) P \<and> keep s t \<and> dsk t = dsk s \<and> hist t = hist s"
    and dat_ok: "st s V Q P \<Longrightarrow> Q n = Some i \<Longrightarrow> dat s i = V n"
    and keep_trans: "keep s t \<Longrightarrow> keep t u \<Longrightarrow> keep s u"
begin

text \<open>Read a block, rewrite it and write it through to the disk.\<close>

lemma rewrite_ok:
  assumes "st s V Q P" "room Q P n"
  shows "\<exists>t. bnd (rd n) (\<lambda>i. thn (upd i f) (thn (wr i) (rel i))) s = Done () t
    \<and> st t (V(n := f (V n))) Q P \<and> keep s t
    \<and> dsk t = (dsk s)(n := f (V n)) \<and> hist t = hist s @ [(n, f (V n))]"
proof -
  have q: "Q n = None" using assms(2) by (simp add: room_def)
  obtain i t1 where 1: "rd n s = Done i t1" "st t1 V (Q(n \<mapsto> i)) P" "keep s t1" "dsk t1 = dsk s" "hist t1 = hist s"
    using rd_ok [OF assms] by blast
  obtain t2 where 2: "upd i f t1 = Done () t2" "st t2 (V(n := f (V n))) (Q(n \<mapsto> i)) P" "keep t1 t2"
    "dsk t2 = dsk s" "hist t2 = hist s"
    using upd_ok [OF 1(2), of n i f] 1 by auto
  obtain t3 where 3: "wr i t2 = Done () t3" "st t3 (V(n := f (V n))) (Q(n \<mapsto> i)) P" "keep t2 t3"
    "dsk t3 = (dsk s)(n := f (V n))" "hist t3 = hist s @ [(n, f (V n))]"
    using wr_ok [OF 2(2), of n i] 2 by auto
  obtain t4 where 4: "rel i t3 = Done () t4" "st t4 (V(n := f (V n))) ((Q(n \<mapsto> i))(n := None)) P" "keep t3 t4"
    "dsk t4 = dsk t3" "hist t4 = hist t3"
    using rel_ok [OF 3(2), of n i] 3 by auto
  have "(Q(n \<mapsto> i))(n := None) = Q" using q by auto
  moreover have "keep s t4" using 1(3) 2(3) 3(3) 4(3) keep_trans by blast
  ultimately show ?thesis
    using 1(1) 2(1) 3(1,4,5) 4(1,2,4,5) by (intro exI [of _ t4]) (simp add: bnd_app thn_app)
qed

text \<open>Lock two different blocks, the second of which is pinned or finds a free buffer.\<close>

lemma read2_ok:
  assumes "st s V Q P" "room Q P a" "b \<noteq> a" "\<And>i. room (Q(a \<mapsto> i)) P b"
  shows "\<exists>i j t u. rd a s = Done i t \<and> rd b t = Done j u \<and> st u V (Q(a \<mapsto> i, b \<mapsto> j)) P
    \<and> dat u i = V a \<and> dat u j = V b \<and> keep s u \<and> dsk u = dsk s \<and> hist u = hist s"
proof -
  obtain i t where 1: "rd a s = Done i t" "st t V (Q(a \<mapsto> i)) P" "keep s t" "dsk t = dsk s" "hist t = hist s"
    using rd_ok [OF assms(1,2)] by blast
  obtain j u where 2: "rd b t = Done j u" "st u V (Q(a \<mapsto> i, b \<mapsto> j)) P" "dat u j = V b" "keep t u"
    "dsk u = dsk s" "hist u = hist s"
    using rd_ok [OF 1(2) assms(4)] 1 by metis
  have "dat u i = V a" using dat_ok [OF 2(2), of a i] assms(3) by simp
  moreover have "keep s u" using 1(3) 2(4) keep_trans by blast
  ultimately show ?thesis using 1(1) 2 by blast
qed

text \<open>Unlock two blocks again, both pinned or equal to their copies on the disk.\<close>

lemma rel2_ok:
  assumes "st s V (Q(a \<mapsto> i, b \<mapsto> j)) P" "b \<noteq> a" "Q a = None" "Q b = None"
    and "P a = 0 \<Longrightarrow> V a = dsk s a" "P b = 0 \<Longrightarrow> V b = dsk s b"
  shows "\<exists>t. thn (rel i) (rel j) s = Done () t \<and> st t V Q P \<and> keep s t \<and> dsk t = dsk s \<and> hist t = hist s"
proof -
  obtain t where 1: "rel i s = Done () t" "st t V ((Q(a \<mapsto> i, b \<mapsto> j))(a := None)) P" "keep s t"
    "dsk t = dsk s" "hist t = hist s"
    using rel_ok [OF assms(1), of a i] assms by auto
  obtain u where 2: "rel j t = Done () u"
    "st u V ((Q(a \<mapsto> i, b \<mapsto> j))(a := None, b := None)) P" "keep t u" "dsk u = dsk s" "hist u = hist s"
    using rel_ok [OF 1(2), of b j] 1 assms by auto
  have "(Q(a \<mapsto> i, b \<mapsto> j))(a := None, b := None) = Q" using assms by auto
  moreover have "keep s u" using 1(3) 2(3) keep_trans by blast
  ultimately show ?thesis using 1(1) 2 by (intro exI [of _ u]) (simp add: thn_app)
qed

end

definition bio_st :: "'x bio_scheme \<Rightarrow> (u32 \<Rightarrow> bytes) \<Rightarrow> (u32 \<Rightarrow> nat option) \<Rightarrow> (u32 \<Rightarrow> nat) \<Rightarrow> bool" where
  "bio_st s V Q P \<longleftrightarrow> cache s V Q P \<and> bio_ready s"

lemma bio_st_frame: "bio_st s V Q P \<Longrightarrow> bio_frame s t \<Longrightarrow> cache t V' Q' P' \<Longrightarrow> bio_st t V' Q' P'"
  by (simp add: bio_st_def bio_frame_ready)

interpretation bc: block_cache "bread ROOTDEV" bwrite brelse "\<lambda>i f. modb i (b_data_update f)"
    "\<lambda>s i. b_data (bufs s i)" bio_st disk dwrites bio_frame
proof (unfold_locales, goal_cases)
  case (1 s V Q P n)
  then have c: "cache s V Q P" "bio_ready s" "Q n = None"
    and m: "0 < P n \<or> card {m. 0 < P m \<or> Q m \<noteq> None} < NBUF"
    by (auto simp: bio_st_def room_def busy_blocks_def)
  from bread_ok [OF c m] bio_st_frame [OF 1(1)] show ?case by blast
next
  case (2 s V Q P n i f)
  then show ?case using modb_update_ok [of s V Q P n i f] bio_st_frame [OF 2(1)] bio_st_def by blast
next
  case (3 s V Q P n i)
  then show ?case using bwrite_ok [of s V Q P n i] bio_st_frame [OF 3(1)] bio_st_def by blast
next
  case (4 s V Q P n i)
  then have "cache s V Q P" "bio_ready s" by (simp_all add: bio_st_def)
  from brelse_ok [OF this 4(2,3)] bio_st_frame [OF 4(1)] show ?case by blast
next
  case (5 s V Q P n i)
  then show ?case using open_buf(5) bio_st_def by blast
next
  case (6 s t u)
  then show ?case by (rule bio_frame_trans)
qed

section \<open>Boot\<close>

definition boot_list :: "(nat \<Rightarrow> buf) \<Rightarrow> nat \<Rightarrow> bool" where
  "boot_list B n \<longleftrightarrow> path (\<lambda>i. b_next (B i)) (HD # rev [0..<n] @ [HD])
     \<and> path (\<lambda>i. b_prev (B i)) (HD # [0..<n] @ [HD])"

definition unused_buf :: "buf \<Rightarrow> bool" where
  "unused_buf b \<longleftrightarrow> b_valid b = 0 \<and> b_dev b = 0 \<and> b_refcnt b = 0"

lemma initsleeplock_app:
  "initsleeplock l nm s = Done () (s\<lparr>held := removeAll (LkSleep l) (held s),
     slocks := (slocks s)(l := (slocks s l)\<lparr>sl_name := nm, sl_locked := 0, sl_pid := 0\<rparr>)\<rparr>)"
  by (simp add: initsleeplock_def initlk_def thn_app)

lemma binit1_links:
  fixes B :: "nat \<Rightarrow> buf" and n :: nat
  defines "h \<equiv> b_next (B HD)"
  defines "B' \<equiv> setnx HD n (setpv h n (setpv n HD (setnx n h B)))"
  assumes "boot_list B n" "n < NBUF"
  shows "boot_list B' (Suc n)"
proof -
  let ?nx = "\<lambda>i. b_next (B i)" and ?pv = "\<lambda>i. b_prev (B i)"
  have p: "path ?nx (HD # rev [0..<n] @ [HD])" "path ?pv (HD # [0..<n] @ [HD])"
    using assms(3) by (simp_all add: boot_list_def)
  have nz: "n \<notin> set (HD # rev [0..<n])" "distinct (HD # rev [0..<n])" using assms(4) by auto
  have h: "h = hd (rev [0..<n] @ [HD])" using p(1) by (cases "rev [0..<n]") (auto simp: h_def)
  then have h': "h = last (HD # [0..<n])" by (metis hd_rev_snoc)
  have "path (?nx(n := h, HD := n)) (HD # n # rev [0..<n] @ [HD])"
    unfolding h by (rule path_insert_front [OF p(1)]) (use nz in auto)
  moreover have "path (?pv(n := HD, h := n)) (HD # [0..<n] @ [n, HD])"
    unfolding h' by (rule path_insert_back [OF p(2)]) (use nz in auto)
  moreover have "(\<lambda>i. b_next (B' i)) = ?nx(n := h, HD := n)" "(\<lambda>i. b_prev (B' i)) = ?pv(n := HD, h := n)"
    using assms(4) by (auto simp: B'_def fun_eq_iff)
  ultimately show ?thesis by (simp add: boot_list_def)
qed

lemma binit_loop:
  assumes "boot_list (bufs s) 0" "\<And>i. unused_buf (bufs s i)" "n \<le> NBUF"
  shows "\<exists>t. eachk binit1 [0..<n] s = Done () t \<and> boot_list (bufs t) n \<and> (\<forall>i. unused_buf (bufs t i))
    \<and> (\<forall>i < n. sl_locked (slocks t (SlBuf i)) = 0) \<and> disk t = disk s \<and> dwrites t = dwrites s
    \<and> curproc t = curproc s \<and> bio.more t = bio.more s \<and> set (held t) \<subseteq> set (held s)
    \<and> mem t = mem s \<and> procs t = procs s"
  using assms(3)
proof (induction n)
  case 0
  with assms show ?case by simp
next
  case (Suc n)
  then obtain t where t: "eachk binit1 [0..<n] s = Done () t" "boot_list (bufs t) n" "\<forall>i. unused_buf (bufs t i)"
    "\<forall>i < n. sl_locked (slocks t (SlBuf i)) = 0" "disk t = disk s" "dwrites t = dwrites s"
    "curproc t = curproc s" "bio.more t = bio.more s" "set (held t) \<subseteq> set (held s)" "mem t = mem s" "procs t = procs s" by auto
  let ?h = "b_next (bufs t HD)"
  let ?B = "setnx HD n (setpv ?h n (setpv n HD (setnx n ?h (bufs t))))"
  let ?u = "t\<lparr>held := removeAll (LkSleep (SlBuf n)) (held t), bufs := ?B,
    slocks := (slocks t)(SlBuf n := (slocks t (SlBuf n))\<lparr>sl_name := ''buffer'', sl_locked := 0, sl_pid := 0\<rparr>)\<rparr>"
  have "binit1 n t = Done () ?u"
    using Suc.prems unfolding binit1_def modb_links
    by (simp add: thn_app bnd_app bstep_def initsleeplock_app)
  then have "eachk binit1 [0..<Suc n] s = Done () ?u" using t(1) by (simp add: eachk_append thn_app)
  moreover have "boot_list ?B (Suc n)" using binit1_links [OF t(2)] Suc.prems by simp
  moreover have "unused_buf (?B i)" for i using t(3) by (simp add: unused_buf_def)
  ultimately show ?case using t
    by (intro exI [of _ ?u]) (auto simp: less_Suc_eq)
qed

lemma binit_list:
  assumes "\<And>i. unused_buf (bufs s i)"
  shows "\<exists>t. binit s = Done () t \<and> bdll (bufs t) (rev [0..<NBUF]) \<and> (\<forall>i. unused_buf (bufs t i))
    \<and> (\<forall>i < NBUF. sl_locked (slocks t (SlBuf i)) = 0) \<and> disk t = disk s
    \<and> dwrites t = dwrites s \<and> curproc t = curproc s \<and> bio.more t = bio.more s \<and> set (held t) \<subseteq> set (held s)
    \<and> mem t = mem s \<and> procs t = procs s"
proof -
  let ?s = "s\<lparr>held := removeAll LkBcache (held s), bufs := setnx HD HD (setpv HD HD (bufs s))\<rparr>"
  have "boot_list (bufs ?s) 0" "\<And>i. unused_buf (bufs ?s i)"
    using assms by (simp_all add: boot_list_def unused_buf_def)
  from binit_loop [OF this, of NBUF] obtain t where t: "eachk binit1 [0..<NBUF] ?s = Done () t"
    "boot_list (bufs t) NBUF" "\<forall>i. unused_buf (bufs t i)" "\<forall>i < NBUF. sl_locked (slocks t (SlBuf i)) = 0"
    "disk t = disk s" "dwrites t = dwrites s" "curproc t = curproc s" "bio.more t = bio.more s" "set (held t) \<subseteq> set (removeAll LkBcache (held s))"
    "mem t = mem s" "procs t = procs s"
    by auto
  have "binit s = Done () t"
    using t(1) unfolding binit_def modb_links by (simp add: thn_app initlk_def bstep_def)
  moreover have "bdll (bufs t) (rev [0..<NBUF])"
    using t(2) by (auto simp: bdll_def dll_def boot_list_def)
  ultimately show ?thesis using t by (intro exI [of _ t]) auto
qed

lemma binit_ok:
  assumes "\<And>i. unused_buf (bufs s i)"
  shows "\<exists>t. binit s = Done () t \<and> cache t (disk s) (\<lambda>_. None) (\<lambda>_. 0) \<and> disk t = disk s
    \<and> dwrites t = dwrites s \<and> curproc t = curproc s \<and> bio.more t = bio.more s \<and> set (held t) \<subseteq> set (held s)
    \<and> mem t = mem s \<and> procs t = procs s"
proof -
  obtain t where t: "binit s = Done () t" "bdll (bufs t) (rev [0..<NBUF])" "\<forall>i. unused_buf (bufs t i)"
    "\<forall>i < NBUF. sl_locked (slocks t (SlBuf i)) = 0" "disk t = disk s"
    "dwrites t = dwrites s" "curproc t = curproc s" "bio.more t = bio.more s" "set (held t) \<subseteq> set (held s)"
    "mem t = mem s" "procs t = procs s"
    using binit_list [OF assms] by blast
  moreover have "b_dev (bufs t i) \<noteq> ROOTDEV" "b_refcnt (bufs t i) = 0" for i
    using t(3) by (auto simp: unused_buf_def ROOTDEV_def)
  ultimately show ?thesis
    by (intro exI [of _ t]) (auto simp: cache_def cached_def buf_ok_def blk_ok_def Let_def)
qed

text \<open>C4: \<open>bread\<close> returns a locked buffer with the current contents of the block, without changing
  the contents of any block as the kernel sees it, whichever buffer it has to recycle. It
  panics or sleeps in no state where the block is not locked and it is pinned or some buffer is
  neither pinned nor locked.\<close>

theorem bread_current_contents:
  assumes "cache s V Q P" "bio_ready s" "Q n = None"
    and "0 < P n \<or> card {m. 0 < P m \<or> Q m \<noteq> None} < NBUF"
  shows "\<exists>i t. bread ROOTDEV n s = Done i t \<and> b_data (bufs t i) = V n \<and> locked_by_me t i
    \<and> cache t V (Q(n \<mapsto> i)) P \<and> disk t = disk s \<and> bio_frame s t"
  using bread_ok [OF assms] open_buf(7) by (metis fun_upd_same)

definition demo_bio :: bio where
  "demo_bio = \<lparr>held = [], mem = (\<lambda>_. 0), freelist = 0, kend = 0, procs = (\<lambda>p. demo_proc\<lparr>p_pid := of_nat p + 1\<rparr>),
     curproc = Some 0, initproc = Some 0, nextpid = 65, ticks = 0,
     slocks = (\<lambda>_. \<lparr>sl_locked = 0, sl_name = [], sl_pid = 0\<rparr>),
     bufs = (\<lambda>_. \<lparr>b_valid = 0, b_dev = 0, b_blockno = 0, b_refcnt = 0, b_prev = 0, b_next = 0, b_data = (\<lambda>_. 0)\<rparr>),
     disk = (\<lambda>n x. if x < BSIZE then of_nat (unat n + x) else 0), dwrites = []\<rparr>"

lemma demo_bio_boot:
  "\<exists>t. binit demo_bio = Done () t \<and> cache t (disk demo_bio) (\<lambda>_. None) (\<lambda>_. 0) \<and> bio_ready t \<and> held t = []"
  using binit_ok [of demo_bio]
  by (auto simp: demo_bio_def unused_buf_def bio_ready_def can_wake_def no_plock_def)

theorem bread_current_contents_witness:
  "\<exists>s i t. binit demo_bio = Done () s \<and> bread ROOTDEV 5 s = Done i t \<and> b_data (bufs t i) = disk demo_bio 5
     \<and> b_data (bufs t i) 2 = 7"
proof -
  obtain s where s: "binit demo_bio = Done () s" "cache s (disk demo_bio) (\<lambda>_. None) (\<lambda>_. 0)" "bio_ready s"
    using demo_bio_boot by blast
  have "\<exists>i t. bread ROOTDEV 5 s = Done i t \<and> b_data (bufs t i) = disk demo_bio 5 \<and> locked_by_me t i
    \<and> cache t (disk demo_bio) ((\<lambda>_. None)(5 \<mapsto> i)) (\<lambda>_. 0) \<and> disk t = disk s \<and> bio_frame s t"
    by (rule bread_current_contents [OF s(2,3)]) (simp_all add: NBUF_def)
  moreover have "disk demo_bio 5 2 = 7" by (simp add: demo_bio_def BSIZE_def)
  ultimately show ?thesis using s(1) by metis
qed

text \<open>C10: replacement is least recently used. On a miss, \<open>bget\<close> takes the unreferenced buffer
  nearest to the old end of the list, and the \<open>brelse\<close> that drops the last reference moves
  its buffer to the front and keeps the order of the others.\<close>

theorem bget_lru:
  assumes "bio_ready s" "bdll (bufs s) (xs @ i # ys)"
    and "\<forall>j < NBUF. b_dev (bufs s j) \<noteq> d \<or> b_blockno (bufs s j) \<noteq> n"
    and "b_refcnt (bufs s i) = 0" "\<forall>j \<in> set ys. b_refcnt (bufs s j) \<noteq> 0" "sl_locked (slocks s (SlBuf i)) = 0"
  shows "\<exists>t. bget d n s = Done i t \<and> bdll (bufs t) (xs @ i # ys) \<and> b_refcnt (bufs t i) = 1
    \<and> (\<exists>u. brelse i t = Done () u \<and> bdll (bufs u) (i # xs @ ys))"
proof -
  let ?L = "xs @ i # ys"
  let ?t = "s\<lparr>bufs := (bufs s)(i := (bufs s i)\<lparr>b_dev := d, b_blockno := n, b_valid := 0, b_refcnt := 1\<rparr>),
    slocks := (slocks s)(SlBuf i := lock_mine s i)\<rparr>"
  have "find (\<lambda>j. b_dev (bufs s j) = d \<and> b_blockno (bufs s j) = n) ?L = None"
    using assms(3) bdll_facts(8) [OF assms(2)] unfolding find_None_iff by auto
  moreover have "find (\<lambda>j. b_refcnt (bufs s j) = 0) (rev ys @ i # rev xs) = Some i"
    using assms(4,5) by (intro find_skip) auto
  ultimately have g: "bget d n s = Done i ?t"
    using bget_miss [OF assms(1,2), of d n i] assms(6) by simp
  have L: "bdll (bufs ?t) ?L" using assms(2) by (simp add: bdll_upd)
  have r: "bio_ready ?t" using assms(1) by (simp add: bio_ready_def can_wake_def no_plock_def)
  let ?B = "(bufs ?t)(i := b_refcnt_update (\<lambda>n. n - 1) (bufs ?t i))"
  have "locked_by_me ?t i" by (simp add: locked_by_me_def lock_mine_def mypid_def)
  moreover have "bdll ?B ?L" using L by (simp add: bdll_upd)
  then have "bdll (relink ?B i) (i # remove1 i ?L)" by (rule bdll_relink) simp
  moreover have "remove1 i ?L = xs @ ys"
    using bdll_facts(7) [OF assms(2)] by (simp add: remove1_append)
  ultimately have "\<exists>u. brelse i ?t = Done () u \<and> bdll (bufs u) (i # xs @ ys)"
    using brelse_app [OF r] by (simp add: Let_def)
  with g L show ?thesis by (intro exI [of _ ?t]) simp
qed

theorem bget_lru_witness:
  "\<exists>s t. binit demo_bio = Done () s \<and> bget ROOTDEV 5 s = Done 0 t
     \<and> (\<exists>u. brelse 0 t = Done () u \<and> bdll (bufs u) (0 # rev [1..<NBUF]))"
proof -
  obtain s where s: "binit demo_bio = Done () s" "bdll (bufs s) (rev [0..<NBUF])" "bio_ready s"
    "\<forall>i. unused_buf (bufs s i)" "\<forall>i < NBUF. sl_locked (slocks s (SlBuf i)) = 0"
    using demo_bio_boot binit_list [of demo_bio] by (auto simp: demo_bio_def unused_buf_def)
  have "rev [0..<NBUF] = rev [1..<NBUF] @ 0 # []" by (simp add: NBUF_def upt_rec)
  with s(2) have "bdll (bufs s) (rev [1..<NBUF] @ 0 # [])" by metis
  from bget_lru [OF s(3) this, of ROOTDEV 5] s show ?thesis
    by (auto simp: unused_buf_def ROOTDEV_def NBUF_def)
qed

end
