(* ===== verification/Log.thy ===== *)
theory Log
  imports Bio
begin

text \<open>
  kernel/log.c: the write-ahead log. A system call brackets its updates with \<open>begin_op\<close> and
  \<open>end_op\<close>; \<open>log_write\<close> records a modified block and pins its buffer; the last \<open>end_op\<close>
  commits: it writes the modified blocks to the log area, then the header, then the blocks to
  their home locations, then an empty header. After a crash \<open>recover_from_log\<close> repeats the
  installation if the header says that a transaction was committed.

  \<open>D\<close> below is the contents of the disk and \<open>recovered\<close> is what a disk means, the
  contents after recovery. The header is a block of 32-bit integers, the count at offset 0 and
  the block numbers from offset 4 on. \<^verbatim>\<open>struct log\<close> is the record \<open>log_state\<close>; \<^verbatim>\<open>int\<close> counters are
  integers, block numbers are 32-bit words.
\<close>

definition LOGSIZE :: nat where
  "LOGSIZE = 30"

definition MAXOPBLOCKS :: int where
  "MAXOPBLOCKS = 10"

record superblock =
  sb_magic :: u32
  sb_size :: u32
  sb_nblocks :: u32
  sb_ninodes :: u32
  sb_nlog :: u32
  sb_logstart :: u32
  sb_inodestart :: u32
  sb_bmapstart :: u32

record log_state = bio +
  lg_start :: u32
  lg_size :: int
  lg_outstanding :: int
  lg_committing :: bool
  lg_dev :: u32
  lh_n :: int
  lh_block :: "nat \<Rightarrow> u32"

section \<open>Operations\<close>

text \<open>\<^verbatim>\<open>memmove(dst->data, src->data, BSIZE)\<close> between two buffers.\<close>

definition blkcpy :: "bytes \<Rightarrow> bytes \<Rightarrow> bytes" where
  "blkcpy dst src = put_bytes dst 0 (get_bytes src 0 BSIZE)"

definition log_block :: "'x log_state_scheme \<Rightarrow> nat \<Rightarrow> u32" where
  "log_block s tail = lg_start s + of_nat tail + 1"

definition install1 :: "bool \<Rightarrow> nat \<Rightarrow> ('x log_state_scheme, unit) K" where
  "install1 recovering tail =
     bnd (getk lg_dev) (\<lambda>dev.
     bnd (bnd (getk (\<lambda>s. log_block s tail)) (bread dev)) (\<lambda>lbuf.
     bnd (bnd (getk (\<lambda>s. lh_block s tail)) (bread dev)) (\<lambda>dbuf.
     thn (bnd (getb lbuf b_data) (\<lambda>src. modb dbuf (b_data_update (\<lambda>d. blkcpy d src)))) (
     thn (bwrite dbuf) (
     thn (whenk (\<not> recovering) (bunpin dbuf)) (
     thn (brelse lbuf) (brelse dbuf)))))))"

definition install_trans :: "bool \<Rightarrow> ('x log_state_scheme, unit) K" where
  "install_trans recovering = bnd (getk lh_n) (\<lambda>n. eachk (install1 recovering) [0..<nat n])"

definition read_head :: "('x log_state_scheme, unit) K" where
  "read_head =
     bnd (bnd (getk (\<lambda>s. (lg_dev s, lg_start s))) (\<lambda>(dev, start). bread dev start)) (\<lambda>buf.
     bnd (getb buf b_data) (\<lambda>lh.
     thn (modk (\<lambda>s. s\<lparr>lh_n := sint (ld32 lh 0)\<rparr>)) (
     bnd (getk lh_n) (\<lambda>n.
     thn (eachk (\<lambda>i. modk (\<lambda>s. s\<lparr>lh_block := (lh_block s)(i := ld32 lh (4 + 4 * i))\<rparr>)) [0..<nat n])
         (brelse buf)))))"

fun put_blocks :: "(nat \<Rightarrow> u32) \<Rightarrow> nat \<Rightarrow> bytes \<Rightarrow> bytes" where
  "put_blocks bl 0 d = d"
| "put_blocks bl (Suc k) d = st32 (put_blocks bl k d) (4 + 4 * k) (bl k)"

definition put_head :: "int \<Rightarrow> (nat \<Rightarrow> u32) \<Rightarrow> bytes \<Rightarrow> bytes" where
  "put_head n bl d = put_blocks bl (nat n) (st32 d 0 (word_of_int n))"

definition write_head :: "('x log_state_scheme, unit) K" where
  "write_head =
     bnd (bnd (getk (\<lambda>s. (lg_dev s, lg_start s))) (\<lambda>(dev, start). bread dev start)) (\<lambda>buf.
     thn (bnd (getk (\<lambda>s. (lh_n s, lh_block s))) (\<lambda>(n, bl). modb buf (b_data_update (put_head n bl)))) (
     thn (bwrite buf) (brelse buf)))"

definition recover_from_log :: "('x log_state_scheme, unit) K" where
  "recover_from_log =
     thn read_head (
     thn (install_trans True) (
     thn (modk (\<lambda>s. s\<lparr>lh_n := 0\<rparr>))
         write_head))"

text \<open>The header has one count and LOGSIZE numbers, 4 bytes each.\<close>

definition initlog :: "u32 \<Rightarrow> superblock \<Rightarrow> ('x log_state_scheme, unit) K" where
  "initlog dev sb =
     (if 4 + 4 * LOGSIZE \<ge> BSIZE then panic ''initlog: too big logheader'' else
     thn (initlk LkLog) (
     thn (modk (\<lambda>s. s\<lparr>lg_start := sb_logstart sb\<rparr>)) (
     thn (modk (\<lambda>s. s\<lparr>lg_size := sint (sb_nlog sb)\<rparr>)) (
     thn (modk (\<lambda>s. s\<lparr>lg_dev := dev\<rparr>))
         recover_from_log))))"

definition begin_op_loop :: "('x log_state_scheme, unit) K" where
  "begin_op_loop = bnd (getk (\<lambda>s. s)) (\<lambda>s.
     if lg_committing s then sleep ChLog LkLog
     else if lh_n s + (lg_outstanding s + 1) * MAXOPBLOCKS > int LOGSIZE then sleep ChLog LkLog
     else
       thn (modk (\<lambda>s. s\<lparr>lg_outstanding := lg_outstanding s + 1\<rparr>))
           (release LkLog))"

definition begin_op :: "('x log_state_scheme, unit) K" where
  "begin_op = thn (acquire LkLog) begin_op_loop"

text \<open>A process that slept in \<open>begin_op\<close> goes back to the test.\<close>

definition begin_op_wake :: "('x log_state_scheme, unit) K" where
  "begin_op_wake = thn (sleep_wake LkLog) begin_op_loop"

definition write_log1 :: "nat \<Rightarrow> ('x log_state_scheme, unit) K" where
  "write_log1 tail =
     bnd (getk lg_dev) (\<lambda>dev.
     bnd (bnd (getk (\<lambda>s. log_block s tail)) (bread dev)) (\<lambda>to.
     bnd (bnd (getk (\<lambda>s. lh_block s tail)) (bread dev)) (\<lambda>from.
     thn (bnd (getb from b_data) (\<lambda>src. modb to (b_data_update (\<lambda>d. blkcpy d src)))) (
     thn (bwrite to) (
     thn (brelse from) (brelse to))))))"

definition write_log :: "('x log_state_scheme, unit) K" where
  "write_log = bnd (getk lh_n) (\<lambda>n. eachk write_log1 [0..<nat n])"

definition commit :: "('x log_state_scheme, unit) K" where
  "commit = bnd (getk lh_n) (\<lambda>n.
     whenk (n > 0) (
       thn write_log (
       thn write_head (
       thn (install_trans False) (
       thn (modk (\<lambda>s. s\<lparr>lh_n := 0\<rparr>))
           write_head)))))"

definition end_op :: "('x log_state_scheme, unit) K" where
  "end_op =
     thn (acquire LkLog) (
     thn (modk (\<lambda>s. s\<lparr>lg_outstanding := lg_outstanding s - 1\<rparr>)) (
     bnd (getk lg_committing) (\<lambda>c.
     if c then panic ''log.committing'' else
     bnd (getk (\<lambda>s. lg_outstanding s = 0)) (\<lambda>do_commit.
     thn (if do_commit then modk (\<lambda>s. s\<lparr>lg_committing := True\<rparr>) else wakeup (Some ChLog)) (
     thn (release LkLog)
     (whenk do_commit (
       thn commit (
       thn (acquire LkLog) (
       thn (modk (\<lambda>s. s\<lparr>lg_committing := False\<rparr>)) (
       thn (wakeup (Some ChLog))
           (release LkLog)))))))))))"

definition log_find :: "'x log_state_scheme \<Rightarrow> u32 \<Rightarrow> nat" where
  "log_find s blockno = (case first_idx (\<lambda>i. lh_block s i = blockno) (nat (lh_n s)) of
     Some i \<Rightarrow> i | None \<Rightarrow> nat (lh_n s))"

definition log_write :: "nat \<Rightarrow> ('x log_state_scheme, unit) K" where
  "log_write b =
     thn (acquire LkLog) (
     bnd (getk (\<lambda>s. s)) (\<lambda>s.
     if lh_n s \<ge> int LOGSIZE \<or> lh_n s \<ge> lg_size s - 1 then panic ''too big a transaction''
     else if lg_outstanding s < 1 then panic ''log_write outside of trans''
     else
       bnd (getb b b_blockno) (\<lambda>blockno.
       bnd (getk (\<lambda>s. log_find s blockno)) (\<lambda>i.
       thn (modk (\<lambda>s. s\<lparr>lh_block := (lh_block s)(i := blockno)\<rparr>)) (
       thn (whenk (int i = lh_n s) (
         thn (bpin b)
             (modk (\<lambda>s. s\<lparr>lh_n := lh_n s + 1\<rparr>))))
       (release LkLog))))))"

section \<open>Blocks, headers and sequences of writes\<close>

definition block_ok :: "bytes \<Rightarrow> bool" where
  "block_ok d \<longleftrightarrow> (\<forall>x. BSIZE \<le> x \<longrightarrow> d x = 0)"

lemma blkcpy_eq [simp]: "block_ok d \<Longrightarrow> block_ok e \<Longrightarrow> blkcpy d e = e"
  by (rule ext) (simp add: blkcpy_def put_bytes_def block_ok_def)

lemma block_ok_st32: "block_ok d \<Longrightarrow> a + 4 \<le> BSIZE \<Longrightarrow> block_ok (st32 d a v)"
  by (simp add: block_ok_def st32_outside)

definition hdr_n :: "bytes \<Rightarrow> int" where
  "hdr_n h = sint (ld32 h 0)"

definition hdr_block :: "bytes \<Rightarrow> nat \<Rightarrow> u32" where
  "hdr_block h i = ld32 h (4 + 4 * i)"

lemma ld32_put_blocks_0: "ld32 (put_blocks bl k d) 0 = ld32 d 0"
  by (induction k) (simp_all add: ld32_st32_other)

lemma ld32_put_blocks: "i < k \<Longrightarrow> ld32 (put_blocks bl k d) (4 + 4 * i) = bl i"
  by (induction k) (auto simp: less_Suc_eq ld32_st32_other)

lemma block_ok_put_blocks: "block_ok d \<Longrightarrow> 4 + 4 * k \<le> BSIZE \<Longrightarrow> block_ok (put_blocks bl k d)"
  by (induction k) (auto intro!: block_ok_st32)

lemma sint_small: "k \<le> LOGSIZE \<Longrightarrow> sint (of_nat k :: u32) = int k"
proof -
  assume "k \<le> LOGSIZE"
  then have "signed_take_bit (LENGTH(32) - Suc 0) (int k) = int k"
    by (intro signed_take_bit_int_eq_self) (simp_all add: LOGSIZE_def)
  then show ?thesis unfolding signed_of_nat by simp
qed

lemma hdr_n_put_head [simp]: "k \<le> LOGSIZE \<Longrightarrow> hdr_n (put_head (int k) bl d) = int k"
  by (simp add: hdr_n_def put_head_def ld32_put_blocks_0 sint_small)

lemma hdr_n_put_head_0 [simp]: "hdr_n (put_head 0 bl d) = 0"
  using hdr_n_put_head [of 0] by simp

lemma hdr_block_put_head [simp]: "i < k \<Longrightarrow> hdr_block (put_head (int k) bl d) i = bl i"
  by (simp add: hdr_block_def put_head_def ld32_put_blocks)

lemma block_ok_put_head [simp]: "block_ok d \<Longrightarrow> nat n \<le> LOGSIZE \<Longrightarrow> block_ok (put_head n bl d)"
  by (simp add: put_head_def block_ok_put_blocks block_ok_st32 BSIZE_def LOGSIZE_def)

definition writes :: "(u32 \<times> bytes) list \<Rightarrow> (u32 \<Rightarrow> bytes) \<Rightarrow> u32 \<Rightarrow> bytes" where
  "writes ws D = fold (\<lambda>(n, d) f. f(n := d)) ws D"

lemma writes_Nil [simp]: "writes [] D = D"
  by (simp add: writes_def)

lemma writes_append: "writes (xs @ ys) D = writes ys (writes xs D)"
  by (simp add: writes_def)

lemma writes_Cons [simp]: "writes ((n, d) # ws) D = writes ws (D(n := d))"
  by (simp add: writes_def)

lemma writes_notin: "n \<notin> fst ` set ws \<Longrightarrow> writes ws D n = D n"
  by (induction ws rule: rev_induct) (auto simp: writes_append)

lemma writes_in:
  assumes "(n, d) \<in> set ws" "\<And>e. (n, e) \<in> set ws \<Longrightarrow> e = d"
  shows "writes ws D n = d"
  using assms
proof (induction ws rule: rev_induct)
  case Nil
  then show ?case by simp
next
  case (snoc w ws)
  obtain m e where w: "w = (m, e)" by (cases w)
  show ?case
  proof (cases "m = n")
    case True
    then have "e = d" using snoc.prems(2) [of e] w by simp
    with w True show ?thesis by (simp add: writes_append)
  next
    case False
    have "(n, d) \<in> set ws" using snoc.prems(1) False w by simp
    moreover have "f = d" if "(n, f) \<in> set ws" for f using snoc.prems(2) [of f] that by simp
    ultimately have "writes ws D n = d" by (rule snoc.IH)
    with w False show ?thesis by (simp add: writes_append)
  qed
qed

lemma writes_map:
  assumes "i < k" "\<And>j. j < k \<Longrightarrow> f j = f i \<Longrightarrow> j = i"
  shows "writes (map (\<lambda>i. (f i, g i)) [0..<k]) D (f i) = g i"
proof (rule writes_in)
  show "(f i, g i) \<in> set (map (\<lambda>i. (f i, g i)) [0..<k])" using assms(1) by simp
  fix e assume "(f i, e) \<in> set (map (\<lambda>i. (f i, g i)) [0..<k])"
  then obtain j where "j < k" "f j = f i" "e = g j" by auto
  with assms(2) show "e = g i" by metis
qed

lemma writes_map_notin: "\<forall>i < k. f i \<noteq> n \<Longrightarrow> writes (map (\<lambda>i. (f i, g i)) [0..<k]) D n = D n"
  by (rule writes_notin) auto

lemma writes_block_ok:
  "\<forall>n. block_ok (D n) \<Longrightarrow> \<forall>(n, d) \<in> set ws. block_ok d \<Longrightarrow> block_ok (writes ws D n)"
  by (induction ws arbitrary: n rule: rev_induct) (auto simp: writes_append split: prod.splits)

lemma writes_same: "\<forall>(n, d) \<in> set ws. d = D n \<Longrightarrow> writes ws D = D"
  by (induction ws rule: rev_induct) (auto simp: writes_append)

definition log_area :: "u32 \<Rightarrow> u32 set" where
  "log_area S = (\<lambda>i. S + of_nat i) ` {..<LOGSIZE}"

definition log_slot :: "u32 \<Rightarrow> nat \<Rightarrow> u32" where
  "log_slot S i = S + of_nat i + 1"

lemma area_inj:
  assumes "i \<le> LOGSIZE" "j \<le> LOGSIZE"
  shows "(of_nat i :: u32) = of_nat j \<longleftrightarrow> i = j"
proof -
  have "unat (of_nat i :: u32) = i" "unat (of_nat j :: u32) = j"
    using assms by (simp_all add: unat_of_nat LOGSIZE_def)
  then show ?thesis by metis
qed

lemma slot_inj: "i < LOGSIZE \<Longrightarrow> j < LOGSIZE \<Longrightarrow> log_slot S i = log_slot S j \<longleftrightarrow> i = j"
  using area_inj [of i j] by (simp add: log_slot_def)

lemma slot_not_start: "i < LOGSIZE \<Longrightarrow> log_slot S i \<noteq> S"
  using area_inj [of "Suc i" 0] by (simp add: log_slot_def add.assoc add.commute)

lemma slot_in_area: "Suc i < LOGSIZE \<Longrightarrow> log_slot S i \<in> log_area S"
  unfolding log_area_def log_slot_def by (rule image_eqI [of _ _ "Suc i"]) auto

lemma ex_not_in_area: "\<exists>n. n \<notin> log_area S"
proof -
  have "card (log_area S) \<le> card {..<LOGSIZE}"
    unfolding log_area_def by (rule card_image_le) simp
  also have "\<dots> < card (UNIV :: u32 set)" by (simp add: LOGSIZE_def card_word)
  finally show ?thesis by (metis UNIV_eq_I less_irrefl)
qed

lemma start_in_area: "S \<in> log_area S"
  unfolding log_area_def by (rule image_eqI [of _ _ 0]) (auto simp: LOGSIZE_def)

section \<open>One block at a time\<close>

abbreviation no_open :: "u32 \<Rightarrow> nat option" where
  "no_open \<equiv> (\<lambda>_. None)"

lemma bio_st_cong:
  "bufs t = bufs s \<Longrightarrow> slocks t = slocks s \<Longrightarrow> disk t = disk s \<Longrightarrow> mypid t = mypid s \<Longrightarrow>
   bio_ready t = bio_ready s \<Longrightarrow> bio_st t V Q P = bio_st s V Q P"
  by (simp add: bio_st_def cache_fields_cong [of t s])

lemma bio_st_log [simp]:
  "bio_st (lh_n_update f s) V Q P = bio_st s V Q P" "bio_st (lh_block_update g s) V Q P = bio_st s V Q P"
  "bio_st (lg_start_update h s) V Q P = bio_st s V Q P" "bio_st (lg_size_update f s) V Q P = bio_st s V Q P"
  "bio_st (lg_dev_update h s) V Q P = bio_st s V Q P" "bio_st (lg_outstanding_update f s) V Q P = bio_st s V Q P"
  "bio_st (lg_committing_update k s) V Q P = bio_st s V Q P"
  by (rule bio_st_cong; simp add: mypid_def bio_ready_def can_wake_def no_plock_def)+

lemma bio_frame_log:
  assumes "bio_frame s t"
  shows "lg_start t = lg_start s" "lg_size t = lg_size s" "lg_outstanding t = lg_outstanding s"
    "lg_committing t = lg_committing s" "lg_dev t = lg_dev s" "lh_n t = lh_n s" "lh_block t = lh_block s"
  using assms by (cases s; cases t; simp add: bio_frame_def)+

lemma bio_frame_lh_n: "bio_frame s t \<Longrightarrow> bio_frame (s\<lparr>lh_n := x\<rparr>) (t\<lparr>lh_n := x\<rparr>)"
  by (cases s; cases t; simp add: bio_frame_def procs_kept_def)

lemma log_block_slot: "log_block s i = log_slot (lg_start s) i"
  by (simp add: log_block_def log_slot_def)

lemma room_none: "room no_open P n \<longleftrightarrow> 0 < P n \<or> card {m. 0 < P m} < NBUF"
  by (simp add: room_def busy_blocks_def)

lemma card_busy_open: "card (busy_blocks (no_open(a \<mapsto> i)) P) \<le> Suc (card {m. 0 < P m})"
proof -
  have "busy_blocks (no_open(a \<mapsto> i)) P \<subseteq> insert a {m. 0 < P m}"
    by (auto simp: busy_blocks_def)
  from card_mono [OF _ this] show ?thesis
    using card_insert_le_m1 card_insert_if [of "{m. 0 < P m}" a] by (simp split: if_splits)
qed

lemma room_one: "b \<noteq> a \<Longrightarrow> 0 < P b \<or> Suc (card {m. 0 < P m}) < NBUF \<Longrightarrow> room (no_open(a \<mapsto> i)) P b"
  using card_busy_open [of a i P] by (auto simp: room_def)

lemma write_log1_ok:
  assumes s: "bio_st s V no_open P" "lg_dev s = ROOTDEV" and ab: "a = log_block s i" "b = lh_block s i" "b \<noteq> a"
    and P: "P a = 0" "0 < P b" "card {m. 0 < P m} < NBUF" and ok: "block_ok (V a)" "block_ok (V b)"
  shows "\<exists>t. write_log1 i s = Done () t \<and> bio_st t (V(a := V b)) no_open P \<and> bio_frame s t
    \<and> disk t = (disk s)(a := V b) \<and> dwrites t = dwrites s @ [(a, V b)]"
proof -
  have "room no_open P a" "\<And>j. room (no_open(a \<mapsto> j)) P b" using P ab by (auto simp: room_none room_one)
  from bc.read2_ok [OF s(1) this(1) ab(3) this(2)] obtain x y t u where
    r: "bread ROOTDEV a s = Done x t" "bread ROOTDEV b t = Done y u" "bio_st u V (no_open(a \<mapsto> x, b \<mapsto> y)) P"
      "b_data (bufs u y) = V b" "bio_frame s u" "disk u = disk s" "dwrites u = dwrites s" by blast
  have bt: "lh_block t = lh_block s"
    using bc.rd_ok [OF s(1) \<open>room no_open P a\<close>] r(1) bio_frame_log(7) by fastforce
  have "blkcpy (V a) (V b) = V b" using ok by simp
  then obtain v where v: "modb x (b_data_update (\<lambda>d. blkcpy d (V b))) u = Done () v"
      "bio_st v (V(a := V b)) (no_open(a \<mapsto> x, b \<mapsto> y)) P" "bio_frame u v" "disk v = disk s" "dwrites v = dwrites s"
    using bc.upd_ok [OF r(3), of a x "\<lambda>d. blkcpy d (V b)"] r ab(3) by auto
  obtain w where w: "bwrite x v = Done () w" "bio_st w (V(a := V b)) (no_open(a \<mapsto> x, b \<mapsto> y)) P" "bio_frame v w"
      "disk w = (disk s)(a := V b)" "dwrites w = dwrites s @ [(a, V b)]"
    using bc.wr_ok [OF v(2), of a x] v ab(3) by auto
  have sw: "no_open(a \<mapsto> x, b \<mapsto> y) = no_open(b \<mapsto> y, a \<mapsto> x)" using ab(3) by (simp add: fun_upd_twist)
  obtain z where z: "thn (brelse y) (brelse x) w = Done () z" "bio_st z (V(a := V b)) no_open P" "bio_frame w z"
      "disk z = disk w" "dwrites z = dwrites w"
    using bc.rel2_ok [OF w(2) [unfolded sw]] w ab(3) P by auto
  have "bio_frame s z" using r(5) v(3) w(3) z(3) bio_frame_trans by blast
  moreover have "write_log1 i s = Done () z"
    using r(1,2,4) v(1) w(1) z(1) s(2) bt by (simp add: write_log1_def bnd_app thn_app flip: ab(1) ab(2))
  ultimately show ?thesis using z w by (intro exI [of _ z]) simp
qed

lemma install1_ok:
  assumes s: "bio_st s V no_open P" "lg_dev s = ROOTDEV" and ab: "a = log_block s i" "b = lh_block s i" "b \<noteq> a"
    and P: "P a = 0" "P b = (if recovering then 0 else 1)" "if recovering then Suc (card {m. 0 < P m}) < NBUF
      else card {m. 0 < P m} < NBUF"
    and ok: "block_ok (V a)" "block_ok (V b)"
  shows "\<exists>t. install1 recovering i s = Done () t \<and> bio_st t (V(b := V a)) no_open (P(b := 0)) \<and> bio_frame s t
    \<and> disk t = (disk s)(b := V a) \<and> dwrites t = dwrites s @ [(b, V a)]"
proof -
  have "room no_open P a" "\<And>j. room (no_open(a \<mapsto> j)) P b"
    using P ab by (auto simp: room_none room_one split: if_splits)
  from bc.read2_ok [OF s(1) this(1) ab(3) this(2)] obtain x y t u where
    r: "bread ROOTDEV a s = Done x t" "bread ROOTDEV b t = Done y u" "bio_st u V (no_open(a \<mapsto> x, b \<mapsto> y)) P"
      "b_data (bufs u x) = V a" "bio_frame s u" "disk u = disk s" "dwrites u = dwrites s" by blast
  have bt: "lh_block t = lh_block s"
    using bc.rd_ok [OF s(1) \<open>room no_open P a\<close>] r(1) bio_frame_log(7) by fastforce
  have da: "disk s a = V a" using s(1) P(1) cacheD(3) [of s V no_open P a] by (simp add: bio_st_def blk_ok_def)
  have "blkcpy (V b) (V a) = V a" using ok by simp
  then obtain v where v: "modb y (b_data_update (\<lambda>d. blkcpy d (V a))) u = Done () v"
      "bio_st v (V(b := V a)) (no_open(a \<mapsto> x, b \<mapsto> y)) P" "bio_frame u v" "disk v = disk s" "dwrites v = dwrites s"
    using bc.upd_ok [OF r(3), of b y "\<lambda>d. blkcpy d (V a)"] r by auto
  obtain w where w: "bwrite y v = Done () w" "bio_st w (V(b := V a)) (no_open(a \<mapsto> x, b \<mapsto> y)) P" "bio_frame v w"
      "disk w = (disk s)(b := V a)" "dwrites w = dwrites s @ [(b, V a)]"
    using bc.wr_ok [OF v(2), of b y] v by auto
  obtain w' where w': "whenk (\<not> recovering) (bunpin y) w = Done () w'"
      "bio_st w' (V(b := V a)) (no_open(a \<mapsto> x, b \<mapsto> y)) (P(b := 0))" "bio_frame w w'" "disk w' = disk w" "dwrites w' = dwrites w"
  proof (cases recovering)
    case True
    then have "P(b := 0) = P" using P by auto
    with True w that show ?thesis by (simp add: whenk_app)
  next
    case False
    then have "P b = Suc 0" using P by simp
    with bunpin_ok [of w "V(b := V a)" "no_open(a \<mapsto> x, b \<mapsto> y)" P b y 0] w(2) bio_st_frame [OF w(2)] False that
    show ?thesis by (auto simp: whenk_app bio_st_def bio_ready_def)
  qed
  obtain z where z: "thn (brelse x) (brelse y) w' = Done () z" "bio_st z (V(b := V a)) no_open (P(b := 0))" "bio_frame w' z"
      "disk z = disk w" "dwrites z = dwrites w"
    using bc.rel2_ok [OF w'(2)] w w' ab(3) P da by auto
  have "bio_frame s z" using r(5) v(3) w(3) w'(3) z(3) bio_frame_trans by blast
  moreover have "install1 recovering i s = Done () z"
    using r(1,2,4) v(1) w(1) w'(1) z(1) s(2) bt by (simp add: install1_def bnd_app thn_app flip: ab(1) ab(2))
  ultimately show ?thesis using z w by (intro exI [of _ z]) simp
qed

lemma write_head_ok:
  assumes s: "bio_st s V no_open P" "lg_dev s = ROOTDEV" and P: "card {m. 0 < P m} < NBUF"
  shows "\<exists>t. write_head s = Done () t \<and> bio_st t (V(lg_start s := put_head (lh_n s) (lh_block s) (V (lg_start s)))) no_open P
    \<and> bio_frame s t \<and> disk t = (disk s)(lg_start s := put_head (lh_n s) (lh_block s) (V (lg_start s)))
    \<and> dwrites t = dwrites s @ [(lg_start s, put_head (lh_n s) (lh_block s) (V (lg_start s)))]"
proof -
  let ?f = "put_head (lh_n s) (lh_block s)"
  have rm: "room no_open P (lg_start s)" using P by (simp add: room_none)
  obtain i t where t: "bread ROOTDEV (lg_start s) s = Done i t" "bio_frame s t" using bc.rd_ok [OF s(1) rm] by blast
  have "write_head s = bnd (bread ROOTDEV (lg_start s)) (\<lambda>i. thn (modb i (b_data_update ?f)) (thn (bwrite i) (brelse i))) s"
    using t s(2) bio_frame_log(6,7) [OF t(2)] by (simp add: write_head_def bnd_app thn_app)
  with bc.rewrite_ok [OF s(1) rm, of ?f] show ?thesis by simp
qed

section \<open>Committing and recovering\<close>

definition pins :: "u32 set \<Rightarrow> u32 \<Rightarrow> nat" where
  "pins B n = (if n \<in> B then 1 else 0)"

text \<open>A transaction in memory: its blocks are distinct, outside the log area and pinned once,
  and nothing is committed on the disk. \<open>Q\<close> are the buffers the process has locked;
  \<open>trans_ok\<close> is the state between operations, when none is.\<close>

definition log_inv :: "'x log_state_scheme \<Rightarrow> (u32 \<Rightarrow> bytes) \<Rightarrow> (u32 \<Rightarrow> nat option) \<Rightarrow> nat \<Rightarrow> bool" where
  "log_inv s V Q k \<longleftrightarrow> lh_n s = int k \<and> k < LOGSIZE \<and> lg_dev s = ROOTDEV
     \<and> inj_on (lh_block s) {..<k} \<and> lh_block s ` {..<k} \<inter> log_area (lg_start s) = {}
     \<and> (\<forall>n. block_ok (V n)) \<and> (\<forall>n. block_ok (disk s n)) \<and> hdr_n (disk s (lg_start s)) = 0
     \<and> bio_st s V Q (pins (lh_block s ` {..<k}))"

abbreviation trans_ok :: "'x log_state_scheme \<Rightarrow> (u32 \<Rightarrow> bytes) \<Rightarrow> nat \<Rightarrow> bool" where
  "trans_ok s V k \<equiv> log_inv s V no_open k"

lemma card_pins: "card {m. 0 < pins B m} = card B"
  by (simp add: pins_def)

lemma write_log_loop:
  assumes s: "bio_st s V no_open (pins B)" "lg_dev s = ROOTDEV" and ok: "\<forall>n. block_ok (V n)"
    and B: "lh_block s ` {..<k} \<subseteq> B" "card B < NBUF" "B \<inter> log_area (lg_start s) = {}" and k: "k < LOGSIZE"
  defines "W \<equiv> \<lambda>n. map (\<lambda>i. (log_slot (lg_start s) i, V (lh_block s i))) [0..<n]"
  shows "n \<le> k \<Longrightarrow> \<exists>t. eachk write_log1 [0..<n] s = Done () t \<and> bio_st t (writes (W n) V) no_open (pins B)
    \<and> bio_frame s t \<and> disk t = writes (W n) (disk s) \<and> dwrites t = dwrites s @ W n"
proof (induction n)
  case 0
  with s show ?case by (simp add: W_def)
next
  case (Suc n)
  then obtain t where t: "eachk write_log1 [0..<n] s = Done () t" "bio_st t (writes (W n) V) no_open (pins B)"
    "bio_frame s t" "disk t = writes (W n) (disk s)" "dwrites t = dwrites s @ W n" by auto
  note ft = bio_frame_log [OF t(3)]
  let ?a = "log_slot (lg_start s) n" and ?b = "lh_block s n"
  have aA: "log_slot (lg_start s) i \<in> log_area (lg_start s)" if "i \<le> n" for i
    using slot_in_area [of i] that Suc.prems k by simp
  have bB: "?b \<in> B" using B(1) Suc.prems by auto
  then have ne: "?b \<noteq> log_slot (lg_start s) i" if "i \<le> n" for i using aA [OF that] B(3) by auto
  have Vb: "writes (W n) V ?b = V ?b" by (rule writes_notin) (simp add: W_def image_iff ne)
  have okW: "\<forall>m. block_ok (writes (W n) V m)" by (intro allI writes_block_ok) (use ok in \<open>auto simp: W_def\<close>)
  have "?a \<notin> B" using aA [of n] B(3) by auto
  then have "\<exists>u. write_log1 n t = Done () u \<and> bio_st u ((writes (W n) V)(?a := writes (W n) V ?b)) no_open (pins B)
      \<and> bio_frame t u \<and> disk u = (disk t)(?a := writes (W n) V ?b) \<and> dwrites u = dwrites t @ [(?a, writes (W n) V ?b)]"
    using ft s(2) ne [of n] bB B(2) okW
    by (intro write_log1_ok [OF t(2)]) (auto simp: log_block_slot pins_def card_pins [unfolded pins_def])
  then obtain u where u: "write_log1 n t = Done () u" "bio_st u ((writes (W n) V)(?a := V ?b)) no_open (pins B)"
      "bio_frame t u" "disk u = (disk t)(?a := V ?b)" "dwrites u = dwrites t @ [(?a, V ?b)]"
    unfolding Vb by blast
  have "W (Suc n) = W n @ [(?a, V ?b)]" by (simp add: W_def)
  with t u bio_frame_trans [OF t(3) u(3)] show ?case
    by (intro exI [of _ u]) (simp add: eachk_append thn_app writes_append fun_upd_def)
qed

text \<open>Installation copies the log slots to the home locations.\<close>

lemma install_loop:
  assumes s: "bio_st s V no_open (if recovering then (\<lambda>_. 0) else pins (bl ` {..<k}))" "lg_dev s = ROOTDEV"
    and ok: "\<forall>n. block_ok (V n)" and bl: "lh_block s = bl"
    and B: "inj_on bl {..<k}" "bl ` {..<k} \<inter> log_area (lg_start s) = {}" and k: "k < LOGSIZE"
  defines "W \<equiv> \<lambda>n. map (\<lambda>i. (bl i, V (log_slot (lg_start s) i))) [0..<n]"
  shows "n \<le> k \<Longrightarrow> \<exists>t. eachk (install1 recovering) [0..<n] s = Done () t
    \<and> bio_st t (writes (W n) V) no_open (if recovering then (\<lambda>_. 0) else pins (bl ` {n..<k}))
    \<and> bio_frame s t \<and> disk t = writes (W n) (disk s) \<and> dwrites t = dwrites s @ W n"
proof (induction n)
  case 0
  with s show ?case by (cases recovering) (simp_all add: W_def lessThan_atLeast0)
next
  case (Suc n)
  let ?P = "\<lambda>n. if recovering then (\<lambda>_. 0) else pins (bl ` {n..<k})"
  obtain t where t: "eachk (install1 recovering) [0..<n] s = Done () t" "bio_st t (writes (W n) V) no_open (?P n)"
    "bio_frame s t" "disk t = writes (W n) (disk s)" "dwrites t = dwrites s @ W n" using Suc by auto
  note ft = bio_frame_log [OF t(3)]
  let ?a = "log_slot (lg_start s) n" and ?b = "bl n"
  have aA: "?a \<in> log_area (lg_start s)" using slot_in_area [of n] Suc.prems k by simp
  then have na: "?a \<noteq> bl i" if "i < k" for i using B(2) that by auto
  have Va: "writes (W n) V ?a = V ?a" by (rule writes_notin) (use Suc.prems in \<open>simp add: W_def image_iff na\<close>)
  have okW: "\<forall>m. block_ok (writes (W n) V m)" by (intro allI writes_block_ok) (use ok in \<open>auto simp: W_def\<close>)
  have bn: "?b \<in> bl ` {n..<k}" "?a \<notin> bl ` {n..<k}" using Suc.prems by (auto simp: image_iff na)
  have cd: "card (bl ` {n..<k}) < NBUF" using card_image_le [of "{n..<k}" bl] k by (simp add: LOGSIZE_def NBUF_def)
  have "{n..<k} = insert n {Suc n..<k}" using Suc.prems by auto
  moreover have "?b \<notin> bl ` {Suc n..<k}" using Suc.prems by (auto dest: inj_onD [OF B(1)])
  ultimately have "bl ` {n..<k} - {?b} = bl ` {Suc n..<k}" by auto
  then have P': "(?P n)(?b := 0) = ?P (Suc n)" by (auto simp: pins_def fun_eq_iff)
  have "\<exists>u. install1 recovering n t = Done () u \<and> bio_st u ((writes (W n) V)(?b := writes (W n) V ?a)) no_open ((?P n)(?b := 0))
      \<and> bio_frame t u \<and> disk u = (disk t)(?b := writes (W n) V ?a) \<and> dwrites u = dwrites t @ [(?b, writes (W n) V ?a)]"
    by (rule install1_ok [OF t(2)])
      (use ft s(2) bl na [of n] Suc.prems bn cd okW in
        \<open>auto simp: log_block_slot pins_def card_pins [unfolded pins_def] NBUF_def\<close>)
  then obtain u where u: "install1 recovering n t = Done () u" "bio_st u ((writes (W n) V)(?b := V ?a)) no_open (?P (Suc n))"
      "bio_frame t u" "disk u = (disk t)(?b := V ?a)" "dwrites u = dwrites t @ [(?b, V ?a)]"
    unfolding Va P' by blast
  have "W (Suc n) = W n @ [(?b, V ?a)]" by (simp add: W_def)
  with t u bio_frame_trans [OF t(3) u(3)] show ?case
    by (intro exI [of _ u]) (simp add: eachk_append thn_app writes_append fun_upd_def)
qed

text \<open>The disk writes of a commit, in order: the log slots, the header that commits, the home
  locations, the empty header.\<close>

definition log_writes :: "u32 \<Rightarrow> nat \<Rightarrow> (nat \<Rightarrow> u32) \<Rightarrow> (u32 \<Rightarrow> bytes) \<Rightarrow> (u32 \<times> bytes) list" where
  "log_writes S k bl V = map (\<lambda>i. (log_slot S i, V (bl i))) [0..<k]"

definition home_writes :: "nat \<Rightarrow> (nat \<Rightarrow> u32) \<Rightarrow> (u32 \<Rightarrow> bytes) \<Rightarrow> (u32 \<times> bytes) list" where
  "home_writes k bl V = map (\<lambda>i. (bl i, V (bl i))) [0..<k]"

definition commit_writes :: "u32 \<Rightarrow> nat \<Rightarrow> (nat \<Rightarrow> u32) \<Rightarrow> (u32 \<Rightarrow> bytes) \<Rightarrow> (u32 \<times> bytes) list" where
  "commit_writes S k bl V = log_writes S k bl V @ [(S, put_head (int k) bl (V S))]
     @ home_writes k bl V @ [(S, put_head 0 bl (put_head (int k) bl (V S)))]"

lemma pins_empty: "pins {} = (\<lambda>_. 0)"
  by (auto simp: pins_def)

lemma home_not_slot: "b \<in> B \<Longrightarrow> B \<inter> log_area S = {} \<Longrightarrow> Suc i < LOGSIZE \<Longrightarrow> b \<noteq> log_slot S i"
  using slot_in_area [of i S] by auto

lemma writes_log_slot:
  assumes "i < k" "k \<le> LOGSIZE"
  shows "writes (log_writes S k bl V) D (log_slot S i) = V (bl i)"
  unfolding log_writes_def using assms by (intro writes_map) (simp_all add: slot_inj)

lemma writes_log_other:
  assumes "k < LOGSIZE" "n \<notin> log_area S \<or> n = S"
  shows "writes (log_writes S k bl V) D n = D n"
  unfolding log_writes_def
proof (intro writes_map_notin allI impI)
  fix i assume "i < k"
  then have "log_slot S i \<in> log_area S" "log_slot S i \<noteq> S"
    using assms(1) by (simp_all add: slot_in_area slot_not_start)
  with assms(2) show "log_slot S i \<noteq> n" by metis
qed

lemma commit_ok:
  assumes s: "trans_ok s V k" and k: "0 < k"
  shows "\<exists>t V'. commit s = Done () t \<and> bio_st t V' no_open (\<lambda>_. 0) \<and> lh_n t = 0
    \<and> disk t = writes (commit_writes (lg_start s) k (lh_block s) V) (disk s)
    \<and> dwrites t = dwrites s @ commit_writes (lg_start s) k (lh_block s) V
    \<and> bio_frame (s\<lparr>lh_n := 0\<rparr>) t"
proof -
  let ?S = "lg_start s" and ?bl = "lh_block s"
  let ?B = "?bl ` {..<k}" and ?LW = "log_writes ?S k ?bl V"
  have s': "lh_n s = int k" "k < LOGSIZE" "lg_dev s = ROOTDEV" "inj_on ?bl {..<k}" "?B \<inter> log_area ?S = {}"
    "\<forall>n. block_ok (V n)" "bio_st s V no_open (pins ?B)" using s by (auto simp: log_inv_def)
  have cB: "card ?B < NBUF" using card_image_le [of "{..<k}" ?bl] s'(2) by (simp add: LOGSIZE_def NBUF_def)
  obtain t1 where t1: "eachk write_log1 [0..<k] s = Done () t1" "bio_st t1 (writes ?LW V) no_open (pins ?B)"
    "bio_frame s t1" "disk t1 = writes ?LW (disk s)" "dwrites t1 = dwrites s @ ?LW"
    using write_log_loop [OF s'(7,3,6), of k k] cB s'(2,5) by (auto simp: log_writes_def)
  note f1 = bio_frame_log [OF t1(3)]
  have VS: "writes ?LW V ?S = V ?S" using writes_log_other [of k ?S ?S] s'(2) by simp
  let ?V2 = "(writes ?LW V)(?S := put_head (int k) ?bl (V ?S))"
  obtain t2 where t2: "write_head t1 = Done () t2" "bio_st t2 ?V2 no_open (pins ?B)" "bio_frame t1 t2"
    "disk t2 = (disk t1)(?S := put_head (int k) ?bl (V ?S))"
    "dwrites t2 = dwrites t1 @ [(?S, put_head (int k) ?bl (V ?S))]"
    using write_head_ok [OF t1(2)] cB s'(1,3) f1 VS by (auto simp: card_pins)
  note f2 = bio_frame_log [OF t2(3)]
  have slot: "?V2 (log_slot ?S i) = V (?bl i)" if "i < k" for i
    using writes_log_slot [OF that, of ?S ?bl V V] slot_not_start [of i ?S] s'(2) that by simp
  have ok2: "\<forall>n. block_ok (?V2 n)"
    using writes_block_ok [OF s'(6), of ?LW] s'(2,6) by (auto simp: log_writes_def)
  have "map (\<lambda>i. (?bl i, ?V2 (log_slot ?S i))) [0..<k] = home_writes k ?bl V"
    unfolding home_writes_def using slot by (intro map_cong) auto
  then obtain t3 where t3: "eachk (install1 False) [0..<k] t2 = Done () t3"
    "bio_st t3 (writes (home_writes k ?bl V) ?V2) no_open (\<lambda>_. 0)" "bio_frame t2 t3"
    "disk t3 = writes (home_writes k ?bl V) (disk t2)" "dwrites t3 = dwrites t2 @ home_writes k ?bl V"
    using install_loop [of t2 ?V2 False ?bl k k] t2(2) ok2 s'(2,3,4,5) f1 f2 by (auto simp: pins_empty)
  note f3 = bio_frame_log [OF t3(3)]
  have "?S \<notin> ?B" using start_in_area s'(5) by auto
  then have V3: "writes (home_writes k ?bl V) ?V2 ?S = put_head (int k) ?bl (V ?S)"
    by (subst writes_notin) (auto simp: home_writes_def)
  have b3: "bio_st (t3\<lparr>lh_n := 0\<rparr>) (writes (home_writes k ?bl V) ?V2) no_open (\<lambda>_. 0)" using t3(2) by simp
  obtain t4 V4 where t4: "write_head (t3\<lparr>lh_n := 0\<rparr>) = Done () t4" "bio_st t4 V4 no_open (\<lambda>_. 0)"
    "bio_frame (t3\<lparr>lh_n := 0\<rparr>) t4" "disk t4 = (disk t3)(?S := put_head 0 ?bl (put_head (int k) ?bl (V ?S)))"
    "dwrites t4 = dwrites t3 @ [(?S, put_head 0 ?bl (put_head (int k) ?bl (V ?S)))]"
    using write_head_ok [OF b3] s'(3) f1 f2 f3 V3 by (auto simp: NBUF_def)
  have "commit s = Done () t4"
    using t1(1) t2(1) t3(1) t4(1) s'(1) k f1 f2
    by (simp add: commit_def write_log_def install_trans_def bnd_app thn_app whenk_app)
  moreover have "bio_frame (s\<lparr>lh_n := 0\<rparr>) t4"
    using bio_frame_trans [OF bio_frame_trans [OF t1(3) t2(3)] t3(3)] t4(3)
    by (auto intro: bio_frame_trans [OF _ t4(3)] simp: bio_frame_lh_n)
  ultimately show ?thesis
    using t1 t2 t3 t4 bio_frame_log(6) [OF t4(3)]
    by (intro exI [of _ t4] exI [of _ V4]) (simp add: commit_writes_def writes_append)
qed

section \<open>What a disk means after a crash\<close>

definition recovered :: "u32 \<Rightarrow> (u32 \<Rightarrow> bytes) \<Rightarrow> u32 \<Rightarrow> bytes" where
  "recovered S D n = (case first_idx (\<lambda>i. hdr_block (D S) i = n) (nat (hdr_n (D S))) of
     Some i \<Rightarrow> D (log_slot S i) | None \<Rightarrow> D n)"

text \<open>A disk that recovery understands: the header counts at most LOGSIZE - 1 distinct blocks
  outside the log area.\<close>

definition good_disk :: "u32 \<Rightarrow> (u32 \<Rightarrow> bytes) \<Rightarrow> bool" where
  "good_disk S D \<longleftrightarrow> (\<forall>n. block_ok (D n)) \<and> (\<exists>k < LOGSIZE. hdr_n (D S) = int k
     \<and> inj_on (hdr_block (D S)) {..<k} \<and> hdr_block (D S) ` {..<k} \<inter> log_area S = {})"

lemma recovered_empty: "hdr_n (D S) = 0 \<Longrightarrow> recovered S D n = D n"
  by (simp add: recovered_def first_idx_def)

lemma good_disk_empty: "hdr_n (D S) = 0 \<Longrightarrow> \<forall>n. block_ok (D n) \<Longrightarrow> good_disk S D"
  by (auto simp: good_disk_def LOGSIZE_def intro!: exI [of _ 0])

lemma recovered_slot:
  assumes "hdr_n (D S) = int k" "i < k" "inj_on (hdr_block (D S)) {..<k}"
  shows "recovered S D (hdr_block (D S) i) = D (log_slot S i)"
proof -
  have "first_idx (\<lambda>j. hdr_block (D S) j = hdr_block (D S) i) k = Some i"
    unfolding first_idx_Some using assms(2,3) by (auto dest: inj_onD)
  with assms(1) show ?thesis by (simp add: recovered_def)
qed

lemma recovered_other:
  assumes "hdr_n (D S) = int k" "n \<notin> hdr_block (D S) ` {..<k}"
  shows "recovered S D n = D n"
proof -
  have "first_idx (\<lambda>j. hdr_block (D S) j = n) k = None"
    unfolding first_idx_None using assms(2) by auto
  with assms(1) show ?thesis by (simp add: recovered_def)
qed

lemma take_map_upt: "take j (map f [0..<k]) = map f [0..<min j k]"
  by (simp add: take_map min_def)

lemma length_log_writes [simp]: "length (log_writes S k bl V) = k" "length (home_writes k bl V) = k"
  by (simp_all add: log_writes_def home_writes_def)

lemma writes_home:
  assumes "inj_on bl {..<k}" "i < k"
  shows "writes (home_writes k bl V) D (bl i) = V (bl i)"
  unfolding home_writes_def using assms by (intro writes_map) (auto dest: inj_onD)

lemma writes_home_other: "n \<notin> bl ` {..<k} \<Longrightarrow> writes (take m (home_writes k bl V)) D n = D n"
  unfolding home_writes_def take_map_upt by (rule writes_map_notin) auto

lemma hdr_blocks_put_head: "hdr_block (put_head (int k) bl d) ` {..<k} = bl ` {..<k}"
  "inj_on (hdr_block (put_head (int k) bl d)) {..<k} = inj_on bl {..<k}"
  by (auto intro!: image_cong inj_on_cong)

text \<open>A disk with the commit header, full log slots and some of the home locations written.\<close>

lemma committed_disk:
  assumes k: "k < LOGSIZE" and bl: "inj_on bl {..<k}" "bl ` {..<k} \<inter> log_area S = {}"
    and ok: "\<forall>n. block_ok (V n)" "\<forall>n. block_ok (D n)"
    and D': "D' = writes (take m (home_writes k bl V)) ((writes (log_writes S k bl V) D)(S := put_head (int k) bl (V S)))"
  shows "good_disk S D'"
    "n \<notin> log_area S \<Longrightarrow> recovered S D' n = (if n \<in> bl ` {..<k} then V n else D n)"
proof -
  have S: "S \<notin> bl ` {..<k}" using bl(2) start_in_area [of S] by auto
  have h: "D' S = put_head (int k) bl (V S)" unfolding D' by (simp add: writes_home_other [OF S])
  have sl: "D' (log_slot S i) = V (bl i)" if "i < k" for i
  proof -
    have "log_slot S i \<notin> bl ` {..<k}" "log_slot S i \<noteq> S"
      using slot_in_area [of i S] slot_not_start [of i S] bl(2) k that by auto
    then show ?thesis unfolding D' using k that by (simp add: writes_home_other writes_log_slot)
  qed
  have "\<forall>n. block_ok (((writes (log_writes S k bl V) D)(S := put_head (int k) bl (V S))) n)"
    using writes_block_ok [OF ok(2), of "log_writes S k bl V"] ok(1) k by (auto simp: log_writes_def)
  then have "\<forall>n. block_ok (D' n)" unfolding D'
    using writes_block_ok ok(1) by (auto simp: home_writes_def take_map_upt)
  with h k bl show "good_disk S D'"
    unfolding good_disk_def by (auto simp: hdr_blocks_put_head intro!: exI [of _ k])
  have n0: "hdr_n (D' S) = int k" and im: "hdr_block (D' S) ` {..<k} = bl ` {..<k}"
    and inj: "inj_on (hdr_block (D' S)) {..<k}"
    using h k bl by (simp_all add: hdr_blocks_put_head)
  assume n: "n \<notin> log_area S"
  show "recovered S D' n = (if n \<in> bl ` {..<k} then V n else D n)"
  proof (cases "n \<in> bl ` {..<k}")
    case True
    then obtain i where i: "i < k" "n = bl i" by auto
    then have "hdr_block (D' S) i = n" using h by simp
    with recovered_slot [of D' S k i] n0 inj i sl show ?thesis by auto
  next
    case False
    have "n \<noteq> S" using n start_in_area by auto
    then have "D' n = D n"
      unfolding D' using writes_home_other [OF False] writes_log_other [of k n S bl V D] n k by simp
    with False recovered_other [of D' S k n] n0 im show ?thesis by simp
  qed
qed

text \<open>Every prefix of the writes of a commit is a disk that means the old contents (the commit
  header is not written yet) or the new ones.\<close>

lemma commit_prefix:
  fixes j :: nat
  assumes s: "trans_ok s V k" and n: "n \<notin> log_area (lg_start s)"
  defines "S \<equiv> lg_start s"
    and "D \<equiv> writes (take j (commit_writes (lg_start s) k (lh_block s) V)) (disk s)"
  shows "good_disk S D \<and> recovered S D n = (if j \<le> k then disk s n else V n)"
proof -
  let ?bl = "lh_block s"
  let ?H = "put_head (int k) ?bl (V S)" and ?LW = "log_writes S k ?bl V" and ?HW = "home_writes k ?bl V"
  have s': "k < LOGSIZE" "inj_on ?bl {..<k}" "?bl ` {..<k} \<inter> log_area S = {}" "\<forall>n. block_ok (V n)"
    "\<forall>n. block_ok (disk s n)" "hdr_n (disk s S) = 0" "bio_st s V no_open (pins (?bl ` {..<k}))"
    using s by (auto simp: log_inv_def S_def)
  have V: "(if n \<in> ?bl ` {..<k} then V n else disk s n) = V n"
    using s'(7) cacheD(3) [of s V no_open _ n] by (auto simp: bio_st_def blk_ok_def pins_def)
  consider "j \<le> k" | "k < j" "j < 2 * k + 2" | "2 * k + 2 \<le> j" by linarith
  then show ?thesis
  proof cases
    case 1
    then have D: "D = writes (log_writes S j ?bl V) (disk s)"
      by (simp add: D_def commit_writes_def log_writes_def take_map_upt S_def min_absorb1)
    then have "hdr_n (D S) = 0" using s'(1,6) 1 by (simp add: writes_log_other)
    moreover have "\<forall>m. block_ok (D m)" unfolding D
      using writes_block_ok [OF s'(5)] s'(4) by (auto simp: log_writes_def)
    moreover have "D n = disk s n" unfolding D using s'(1) 1 n by (simp add: writes_log_other S_def)
    ultimately show ?thesis using 1 by (simp add: good_disk_empty recovered_empty)
  next
    case 2
    then obtain m where m: "j = k + Suc m" "m \<le> k" using less_imp_Suc_add by fastforce
    then have "take j (commit_writes S k ?bl V) = ?LW @ (S, ?H) # take m ?HW"
      by (simp add: commit_writes_def)
    then have D: "D = writes (take m ?HW) ((writes ?LW (disk s))(S := ?H))"
      by (simp add: D_def S_def writes_append)
    from committed_disk [OF s'(1-5) D] n 2 V show ?thesis by (simp add: S_def)
  next
    case 3
    let ?D = "writes ?HW ((writes ?LW (disk s))(S := ?H))"
    have Deq: "D = ?D(S := put_head 0 ?bl ?H)"
      using 3 by (simp add: D_def S_def commit_writes_def writes_append)
    have "?D = writes (take k ?HW) ((writes ?LW (disk s))(S := ?H))" by simp
    then have "good_disk S ?D" by (rule committed_disk(1) [OF s'(1-5)])
    then have "\<forall>m. block_ok (D m)" using s'(1,4) by (auto simp: Deq good_disk_def)
    moreover have "hdr_n (D S) = 0" by (simp add: Deq)
    moreover have "?D n = V n"
    proof (cases "n \<in> ?bl ` {..<k}")
      case True
      with s'(2) show ?thesis by (auto simp: writes_home)
    next
      case False
      have "n \<noteq> S" using n start_in_area by (auto simp: S_def)
      with False show ?thesis
        using writes_home_other [OF False, of k V] V writes_log_other [of k n S ?bl V] n s'(1) by (simp add: S_def)
    qed
    moreover have "n \<noteq> S" using n start_in_area by (auto simp: S_def)
    ultimately show ?thesis using 3 good_disk_empty recovered_empty by (auto simp: Deq)
  qed
qed

text \<open>The disk writes of a recovery.\<close>

definition recover_writes :: "u32 \<Rightarrow> (u32 \<Rightarrow> bytes) \<Rightarrow> (u32 \<times> bytes) list" where
  "recover_writes S D = map (\<lambda>i. (hdr_block (D S) i, D (log_slot S i))) [0..<nat (hdr_n (D S))]
     @ [(S, put_head 0 (hdr_block (D S)) (D S))]"

lemma recover_prefix:
  fixes j :: nat
  assumes g: "good_disk S D" and n: "n \<notin> log_area S"
  defines "D' \<equiv> writes (take j (recover_writes S D)) D"
  shows "good_disk S D' \<and> recovered S D' n = recovered S D n"
    "nat (hdr_n (D S)) < j \<Longrightarrow> hdr_n (D' S) = 0 \<and> D' n = recovered S D n"
proof -
  obtain k where k: "k < LOGSIZE" "hdr_n (D S) = int k" "inj_on (hdr_block (D S)) {..<k}"
    "hdr_block (D S) ` {..<k} \<inter> log_area S = {}" and ok: "\<forall>n. block_ok (D n)"
    using g by (auto simp: good_disk_def)
  let ?bl = "hdr_block (D S)" and ?W = "\<lambda>m. map (\<lambda>i. (hdr_block (D S) i, D (log_slot S i))) [0..<m]"
  have S: "S \<notin> ?bl ` {..<k}" and nS: "n \<noteq> S" using k(4) n start_in_area [of S] by auto
  have Wo: "writes (?W m) D x = D x" if "m \<le> k" "x \<notin> ?bl ` {..<k}" for m x
    by (rule writes_map_notin) (use that in auto)
  have Wi: "writes (?W k) D (?bl i) = D (log_slot S i)" if "i < k" for i
    by (rule writes_map [OF that]) (use k(3) that in \<open>auto dest: inj_onD\<close>)
  have okW: "\<forall>x. block_ok (writes (?W m) D x)" for m using writes_block_ok [OF ok, of "?W m"] ok by auto
  have slot: "log_slot S i \<notin> ?bl ` {..<k}" if "i < k" for i using slot_in_area [of i S] k(1,4) that by auto
  show 1: "hdr_n (D' S) = 0 \<and> D' n = recovered S D n" if j: "nat (hdr_n (D S)) < j"
  proof -
    have D': "D' = (writes (?W k) D)(S := put_head 0 ?bl (D S))"
      using j k(2) by (simp add: D'_def recover_writes_def writes_append)
    have "writes (?W k) D n = recovered S D n"
    proof (cases "n \<in> ?bl ` {..<k}")
      case True
      then obtain i where i: "i < k" "n = ?bl i" by auto
      with Wi recovered_slot [of D S k i] k(2,3) show ?thesis by simp
    next
      case False
      with Wo [of k n] recovered_other [of D S k n] k(2) show ?thesis by simp
    qed
    with D' nS show ?thesis by simp
  qed
  show "good_disk S D' \<and> recovered S D' n = recovered S D n"
  proof (cases "j \<le> k")
    case True
    then have D': "D' = writes (?W j) D"
      using k(2) by (simp add: D'_def recover_writes_def take_map_upt min_absorb1)
    have h: "D' S = D S" unfolding D' using Wo [OF True S] .
    have sl: "D' (log_slot S i) = D (log_slot S i)" if "i < k" for i unfolding D' using Wo [OF True slot [OF that]] .
    have "good_disk S D'" using k okW [of j] unfolding good_disk_def h by (auto simp: D')
    moreover have "recovered S D' n = recovered S D n"
    proof (cases "n \<in> ?bl ` {..<k}")
      case True
      then obtain i where i: "i < k" "n = ?bl i" by auto
      with recovered_slot [of D S k i] recovered_slot [of D' S k i] k h sl show ?thesis by simp
    next
      case False
      then show ?thesis
        using recovered_other [of D S k n] recovered_other [of D' S k n] k h Wo [OF True False] D' by simp
    qed
    ultimately show ?thesis by simp
  next
    case False
    then have D': "D' = (writes (?W k) D)(S := put_head 0 ?bl (D S))"
      using k(2) by (simp add: D'_def recover_writes_def writes_append)
    have "\<forall>x. block_ok (D' x)" unfolding D' using okW [of k] ok by auto
    with 1 False k(2) show ?thesis using good_disk_empty [of D' S] recovered_empty [of D' S] by auto
  qed
qed

lemma eachk_modk: "eachk (\<lambda>i. modk (g i)) xs s = Done () (fold g xs s)"
  by (induction xs arbitrary: s) (simp_all add: thn_app)

lemma read_blocks:
  "eachk (\<lambda>i. modk (\<lambda>s. s\<lparr>lh_block := (lh_block s)(i := f i)\<rparr>)) [0..<k] s
    = Done () (s\<lparr>lh_block := (\<lambda>i. if i < k then f i else lh_block s i)\<rparr>)"
proof -
  have "fold (\<lambda>i s. s\<lparr>lh_block := (lh_block s)(i := f i)\<rparr>) [0..<k] s
      = s\<lparr>lh_block := (\<lambda>i. if i < k then f i else lh_block s i)\<rparr>"
  proof (induction k)
    case 0
    then show ?case by simp
  next
    case (Suc k)
    have "(\<lambda>a. if a = k then f k else if a < k then f a else lh_block s a)
        = (\<lambda>i. if i < Suc k then f i else lh_block s i)"
      by (auto simp: less_Suc_eq)
    then show ?case using Suc by (simp cong: if_cong)
  qed
  then show ?thesis unfolding eachk_modk by simp
qed

lemma bio_frame_lh: "bio_frame s t \<Longrightarrow>
    bio_frame (s\<lparr>lh_n := n, lh_block := bl\<rparr>) (t\<lparr>lh_n := n, lh_block := bl\<rparr>)"
  by (cases s; cases t; simp add: bio_frame_def procs_kept_def)

lemma read_head_ok:
  assumes s: "bio_st s D no_open (\<lambda>_. 0)" "lg_dev s = ROOTDEV"
  shows "\<exists>t bl. read_head s = Done () t \<and> bio_st t D no_open (\<lambda>_. 0)
    \<and> bio_frame (s\<lparr>lh_n := hdr_n (D (lg_start s)), lh_block := bl\<rparr>) t
    \<and> (\<forall>i < nat (hdr_n (D (lg_start s))). bl i = hdr_block (D (lg_start s)) i)
    \<and> disk t = disk s \<and> dwrites t = dwrites s"
proof -
  let ?h = "D (lg_start s)"
  have rm: "room no_open (\<lambda>_. 0) (lg_start s)" by (simp add: room_none NBUF_def)
  obtain x t where t: "bread ROOTDEV (lg_start s) s = Done x t" "bio_st t D (no_open(lg_start s \<mapsto> x)) (\<lambda>_. 0)"
    "b_data (bufs t x) = ?h" "bio_frame s t" "disk t = disk s" "dwrites t = dwrites s"
    using bc.rd_ok [OF s(1) rm] by blast
  let ?bl = "\<lambda>i. if i < nat (hdr_n ?h) then hdr_block ?h i else lh_block t i"
  let ?u = "t\<lparr>lh_n := hdr_n ?h, lh_block := ?bl\<rparr>"
  have d: "D (lg_start s) = disk ?u (lg_start s)"
    using s(1) t(5) cacheD(3) [of s D no_open "\<lambda>_. 0" "lg_start s"] by (simp add: bio_st_def blk_ok_def)
  have "bio_st ?u D (no_open(lg_start s \<mapsto> x)) (\<lambda>_. 0)" using t(2) by simp
  from bc.rel_ok [OF this, of "lg_start s" x] d obtain v where v: "brelse x ?u = Done () v"
    "bio_st v D ((no_open(lg_start s \<mapsto> x))(lg_start s := None)) (\<lambda>_. 0)" "bio_frame ?u v" "disk v = disk ?u" "dwrites v = dwrites ?u"
    by auto
  have "read_head s = Done () v"
    using t(1,3) v(1) s(2)
    by (simp add: read_head_def bnd_app thn_app read_blocks flip: hdr_n_def hdr_block_def cong: if_cong)
  moreover have "bio_frame (s\<lparr>lh_n := hdr_n ?h, lh_block := ?bl\<rparr>) v"
    using bio_frame_trans [OF bio_frame_lh [OF t(4)] v(3)] .
  moreover have "(no_open(lg_start s \<mapsto> x))(lg_start s := None) = no_open" by auto
  ultimately show ?thesis
    using v t by (intro exI [of _ v] exI [of _ ?bl]) simp
qed

lemma recover_ok:
  assumes s: "bio_st s D no_open (\<lambda>_. 0)" "lg_dev s = ROOTDEV" and g: "good_disk (lg_start s) D"
  shows "\<exists>t bl. recover_from_log s = Done () t \<and> bio_st t (disk t) no_open (\<lambda>_. 0)
    \<and> bio_frame (s\<lparr>lh_block := bl, lh_n := 0\<rparr>) t
    \<and> disk t = writes (recover_writes (lg_start s) D) D \<and> dwrites t = dwrites s @ recover_writes (lg_start s) D"
proof -
  let ?S = "lg_start s" and ?h = "hdr_block (D (lg_start s))"
  obtain k where k: "k < LOGSIZE" "hdr_n (D ?S) = int k" "inj_on ?h {..<k}" "?h ` {..<k} \<inter> log_area ?S = {}"
    and ok: "\<forall>n. block_ok (D n)" using g by (auto simp: good_disk_def)
  have sD: "disk s = D" using s(1) cacheD(3) [of s D no_open "\<lambda>_. 0"] by (auto simp: bio_st_def blk_ok_def fun_eq_iff)
  obtain t bl where t: "read_head s = Done () t" "bio_st t D no_open (\<lambda>_. 0)" "bio_frame (s\<lparr>lh_n := int k, lh_block := bl\<rparr>) t"
    "\<forall>i < k. bl i = ?h i" "disk t = D" "dwrites t = dwrites s"
    using read_head_ok [OF s] k(2) sD by auto
  note ft = bio_frame_log [OF t(3)]
  have im: "bl ` {..<k} = ?h ` {..<k}" "inj_on bl {..<k} = inj_on ?h {..<k}"
    using t(4) by (auto intro!: image_cong inj_on_cong)
  let ?W = "map (\<lambda>i. (?h i, D (log_slot ?S i))) [0..<k]"
  let ?W' = "map (\<lambda>i. (bl i, D (log_slot ?S i))) [0..<k]"
  have eqW: "?W' = ?W" using t(4) by auto
  have "\<exists>u. eachk (install1 True) [0..<k] t = Done () u \<and> bio_st u (writes ?W' D) no_open (\<lambda>_. 0)
      \<and> bio_frame t u \<and> disk u = writes ?W' D \<and> dwrites u = dwrites s @ ?W'"
    using install_loop [of t D True bl k k] t(2,5,6) s(2) ok k im ft by simp
  then obtain u where u: "eachk (install1 True) [0..<k] t = Done () u" "bio_st u (writes ?W D) no_open (\<lambda>_. 0)"
    "bio_frame t u" "disk u = writes ?W D" "dwrites u = dwrites s @ ?W"
    unfolding eqW by blast
  note fu = bio_frame_log [OF u(3)]
  have uS: "writes ?W D ?S = D ?S"
    by (rule writes_map_notin) (use k(4) start_in_area [of ?S] in auto)
  have b: "bio_st (u\<lparr>lh_n := 0\<rparr>) (writes ?W D) no_open (\<lambda>_. 0)" using u(2) by simp
  have p0: "put_head 0 x d = put_head 0 y d" for x y d by (simp add: put_head_def)
  obtain v where v: "write_head (u\<lparr>lh_n := 0\<rparr>) = Done () v" "bio_st v ((writes ?W D)(?S := put_head 0 ?h (D ?S))) no_open (\<lambda>_. 0)"
    "bio_frame (u\<lparr>lh_n := 0\<rparr>) v" "disk v = (disk u)(?S := put_head 0 ?h (D ?S))" "dwrites v = dwrites u @ [(?S, put_head 0 ?h (D ?S))]"
    using write_head_ok [OF b] s(2) ft fu uS p0 [of bl _ ?h] by (auto simp: NBUF_def)
  have "recover_from_log s = Done () v"
    using t(1) u(1) v(1) ft by (simp add: recover_from_log_def install_trans_def bnd_app thn_app)
  moreover have "bio_frame (s\<lparr>lh_block := bl, lh_n := 0\<rparr>) v"
    using bio_frame_trans [OF bio_frame_lh_n [OF bio_frame_trans [OF t(3) u(3)], of 0] v(3)] by simp
  moreover have "disk v = writes (recover_writes ?S D) D" "dwrites v = dwrites s @ recover_writes ?S D"
    using u v k(2) by (simp_all add: recover_writes_def writes_append)
  moreover have "bio_st v (disk v) no_open (\<lambda>_. 0)" using v(2,4) u(4) by simp
  ultimately show ?thesis by blast
qed

section \<open>Crash safety\<close>

text \<open>A machine that has booted from the disk \<open>D\<close> and set up its log, before recovery.\<close>

definition rebooted :: "u32 \<Rightarrow> (u32 \<Rightarrow> bytes) \<Rightarrow> log_state \<Rightarrow> bool" where
  "rebooted S D s \<longleftrightarrow> bio_st s D no_open (\<lambda>_. 0) \<and> lg_dev s = ROOTDEV \<and> lg_start s = S"

text \<open>The disks that further crashes can leave: each boots, starts recovery and stops after
  some of its block writes.\<close>

inductive crashed :: "u32 \<Rightarrow> (u32 \<Rightarrow> bytes) \<Rightarrow> (u32 \<Rightarrow> bytes) \<Rightarrow> bool" for S D0 where
  crashed_once: "crashed S D0 D0"
| crashed_again: "crashed S D0 D \<Longrightarrow> rebooted S D s \<Longrightarrow> recover_from_log s = Done () t \<Longrightarrow>
    dwrites t = dwrites s @ W \<Longrightarrow> crashed S D0 (writes (take j W) D)"

lemma crashed_meaning:
  assumes "crashed S D0 D" "good_disk S D0"
  shows "good_disk S D \<and> (\<forall>n. n \<notin> log_area S \<longrightarrow> recovered S D n = recovered S D0 n)"
  using assms
proof (induction rule: crashed.induct)
  case crashed_once
  then show ?case by simp
next
  case (crashed_again D s t W j)
  then have s: "bio_st s D no_open (\<lambda>_. 0)" "lg_dev s = ROOTDEV" "good_disk (lg_start s) D" "lg_start s = S"
    by (auto simp: rebooted_def)
  from recover_ok [OF s(1-3)] crashed_again have W: "W = recover_writes S D" by (auto simp: s)
  have "good_disk S D" using crashed_again by blast
  from recover_prefix(1) [OF this] crashed_again W show ?case
    using start_in_area by (metis ex_not_in_area)
qed

lemma recover_result:
  assumes "rebooted S D u" "good_disk S D"
  shows "\<exists>v. recover_from_log u = Done () v \<and> hdr_n (disk v S) = 0
    \<and> (\<forall>n. n \<notin> log_area S \<longrightarrow> disk v n = recovered S D n)"
proof -
  have s: "bio_st u D no_open (\<lambda>_. 0)" "lg_dev u = ROOTDEV" "good_disk (lg_start u) D" "lg_start u = S"
    using assms by (auto simp: rebooted_def)
  obtain v where v: "recover_from_log u = Done () v" "disk v = writes (recover_writes S D) D"
    using recover_ok [OF s(1-3)] s(4) by blast
  let ?j = "length (recover_writes S D)"
  have "nat (hdr_n (D S)) < ?j" by (simp add: recover_writes_def)
  from recover_prefix(2) [OF assms(2) _ this] v ex_not_in_area [of S] show ?thesis by (metis take_all_iff order_refl)
qed

text \<open>C1: a commit is atomic under crashes. \<open>commit\<close> writes \<open>W\<close> to the disk, block by block.
  Suppose the machine crashes after any number \<open>j\<close> of these writes, and then any number of times
  in the middle of recovery. The next recovery runs to its end, clears the header, and
  leaves every block outside the log with its old contents (if \<open>j\<close> has not reached the header
  block) or every one with its new contents. Without a crash the new contents are on the disk.\<close>

theorem commit_crash_atomic:
  assumes "trans_ok s V k" "0 < k"
  shows "\<exists>t W. commit s = Done () t \<and> dwrites t = dwrites s @ W \<and> disk t = writes W (disk s)
    \<and> (\<forall>n. n \<notin> log_area (lg_start s) \<longrightarrow> disk t n = V n)
    \<and> (\<forall>j D u. crashed (lg_start s) (writes (take j W) (disk s)) D \<longrightarrow> rebooted (lg_start s) D u \<longrightarrow>
         (\<exists>v. recover_from_log u = Done () v \<and> hdr_n (disk v (lg_start s)) = 0
            \<and> (\<forall>n. n \<notin> log_area (lg_start s) \<longrightarrow> disk v n = (if j \<le> k then disk s n else V n))))"
proof -
  let ?S = "lg_start s" and ?W = "commit_writes (lg_start s) k (lh_block s) V"
  obtain t where t: "commit s = Done () t" "disk t = writes ?W (disk s)" "dwrites t = dwrites s @ ?W"
    using commit_ok [OF assms] by blast
  have new: "disk t n = V n" if n: "n \<notin> log_area ?S" for n
  proof -
    have "hdr_n (disk t ?S) = 0" unfolding t(2) by (simp add: commit_writes_def writes_append)
    moreover have "k < length ?W" by (simp add: commit_writes_def)
    ultimately show ?thesis
      using commit_prefix [OF assms(1) n, where j = "length ?W"] recovered_empty [of "disk t" ?S n] t(2) by simp
  qed
  have "\<exists>v. recover_from_log u = Done () v \<and> hdr_n (disk v ?S) = 0
      \<and> (\<forall>n. n \<notin> log_area ?S \<longrightarrow> disk v n = (if j \<le> k then disk s n else V n))"
    if c: "crashed ?S (writes (take j ?W) (disk s)) D" and u: "rebooted ?S D u" for j D u
  proof -
    note p = commit_prefix [OF assms(1), where j = j]
    then have g: "good_disk ?S (writes (take j ?W) (disk s))" using ex_not_in_area by blast
    from crashed_meaning [OF c g] p recover_result [OF u] show ?thesis by metis
  qed
  with t new show ?thesis by blast
qed

section \<open>Transactions\<close>

text \<open>\<open>log_write\<close>: the block joins the transaction, once however often it is written.\<close>

lemma log_find_cases:
  assumes "lh_n s = int k"
  shows "log_find s n < k \<and> lh_block s (log_find s n) = n \<or> log_find s n = k \<and> n \<notin> lh_block s ` {..<k}"
proof (cases "first_idx (\<lambda>i. lh_block s i = n) k")
  case None
  then have "log_find s n = k" using assms by (simp add: log_find_def)
  moreover have "n \<notin> lh_block s ` {..<k}" using None by (auto simp: first_idx_None)
  ultimately show ?thesis by simp
next
  case (Some i)
  then have "log_find s n = i" using assms by (simp add: log_find_def)
  with Some show ?thesis by (simp add: first_idx_Some)
qed

lemma log_find_held [simp]: "log_find (s\<lparr>held := h\<rparr>) n = log_find s n"
  by (simp add: log_find_def split: option.split)

lemma lh_block_id [simp]: "s\<lparr>lh_block := lh_block s\<rparr> = (s :: 'x log_state_scheme)"
  by (cases s) simp

lemma held_id [simp]: "s\<lparr>held := held s\<rparr> = (s :: 'x log_state_scheme)"
  by (cases s) simp

definition log_frame :: "'x log_state_scheme \<Rightarrow> 'x log_state_scheme \<Rightarrow> bool" where
  "log_frame s t \<longleftrightarrow> bio_frame (s\<lparr>lh_n := lh_n t, lh_block := lh_block t\<rparr>) t"

lemma bio_log_frame: "bio_frame s t \<Longrightarrow> log_frame s t"
  unfolding log_frame_def using bio_frame_lh [of s t "lh_block t" "lh_n t"] by simp

lemma log_frame_fields:
  "log_frame s t \<Longrightarrow> lg_start t = lg_start s \<and> lg_size t = lg_size s \<and> lg_outstanding t = lg_outstanding s
    \<and> lg_committing t = lg_committing s \<and> lg_dev t = lg_dev s \<and> held t = held s \<and> curproc t = curproc s"
  unfolding log_frame_def using bio_frame_log [of "s\<lparr>lh_n := lh_n t, lh_block := lh_block t\<rparr>" t]
  by (simp add: bio_frame_def)

lemma log_write_ok:
  assumes inv: "log_inv s V Q k" and q: "Q n = Some i" and n: "n \<notin> log_area (lg_start s)"
    and sz: "int k < lg_size s - 1" "Suc k < LOGSIZE \<or> n \<in> lh_block s ` {..<k}"
    and out: "1 \<le> lg_outstanding s" and h: "LkLog \<notin> set (held s)"
  shows "\<exists>t. log_write i s = Done () t
    \<and> log_inv t V Q (if n \<in> lh_block s ` {..<k} then k else Suc k) \<and> log_frame s t
    \<and> lh_block t ` {..<(if n \<in> lh_block s ` {..<k} then k else Suc k)} = insert n (lh_block s ` {..<k})
    \<and> disk t = disk s \<and> dwrites t = dwrites s"
proof -
  let ?B = "lh_block s ` {..<k}"
  have s: "lh_n s = int k" "k < LOGSIZE" "bio_st s V Q (pins ?B)" "inj_on (lh_block s) {..<k}"
    using inv by (auto simp: log_inv_def)
  have b: "b_blockno (bufs s i) = n" using s(3) q open_buf(3) by (auto simp: bio_st_def)
  show ?thesis
  proof (cases "n \<in> ?B")
    case True
    then have f: "log_find s n < k" "lh_block s (log_find s n) = n" using log_find_cases [OF s(1), of n] by auto
    then have "(lh_block s)(log_find s n := n) = lh_block s" by auto
    then have "log_write i s = Done () s"
      using h s sz out b f by (simp add: log_write_def bnd_app thn_app whenk_app)
    with inv True show ?thesis by (auto simp: bio_log_frame)
  next
    case False
    then have f: "log_find s n = k" using log_find_cases [OF s(1), of n] by (metis image_eqI lessThan_iff)
    let ?s = "s\<lparr>held := LkLog # held s, lh_block := (lh_block s)(k := n)\<rparr>"
    have "cache ?s V Q (pins ?B)"
      using s(3) cache_fields_cong [of ?s s] by (simp add: bio_st_def mypid_def)
    moreover have "LkBcache \<notin> set (held ?s)" using s(3) by (simp add: bio_st_def bio_ready_def)
    moreover have "Suc (pins ?B n) < 2 ^ 31" by (simp add: pins_def)
    ultimately obtain t where t: "bpin i ?s = Done () t" "cache t V Q ((pins ?B)(n := Suc (pins ?B n)))"
      "bio_frame ?s t" "disk t = disk s" "dwrites t = dwrites s"
      using bpin_ok [of ?s V Q "pins ?B" n i] q by auto
    let ?t = "t\<lparr>lh_n := int (Suc k), held := held s\<rparr>"
    note ft = bio_frame_log [OF t(3)]
    have r: "log_write i s = Done () ?t"
      using h s sz out b f t(1,3) ft
      by (simp add: log_write_def bnd_app thn_app whenk_app bio_frame_def)
    have im: "(lh_block s)(k := n) ` {..<Suc k} = insert n ?B" by (auto simp: less_Suc_eq)
    have P: "(pins ?B)(n := Suc (pins ?B n)) = pins (insert n ?B)" using False by (auto simp: pins_def)
    have fr: "log_frame s ?t"
      using t(3) by (cases s; cases t; simp add: log_frame_def bio_frame_def procs_kept_def)
    have "bio_ready ?t" using s(3) t(3)
      by (auto simp: bio_st_def bio_frame_def bio_ready_def can_wake_def no_plock_def)
    then have st: "bio_st ?t V Q (pins (insert n ?B))"
      using t(2) cache_fields_cong [of ?t t] by (simp add: bio_st_def mypid_def P)
    have inj: "inj_on ((lh_block s)(k := n)) {..<Suc k}"
      using s(4) False by (auto simp: inj_on_def less_Suc_eq)
    have "log_inv ?t V Q (Suc k)"
      unfolding log_inv_def using inv st inj im n sz(2) False ft t(4) by (simp add: log_inv_def)
    with r fr False im ft t(4,5) show ?thesis by (intro exI [of _ ?t]) simp
  qed
qed

lemma bio_st_no_pins: "bio_st s V no_open (\<lambda>_. 0) \<Longrightarrow> V = disk s"
  using cacheD(3) [of s V no_open "\<lambda>_. 0"] by (auto simp: bio_st_def blk_ok_def fun_eq_iff)

lemma commit_any:
  assumes s: "trans_ok s V k"
  shows "\<exists>t. commit s = Done () t \<and> trans_ok t (disk t) 0 \<and> log_frame s t
    \<and> (\<forall>n. n \<notin> log_area (lg_start s) \<longrightarrow> disk t n = V n)"
proof (cases "k = 0")
  case True
  then have "lh_n s = 0" "bio_st s V no_open (\<lambda>_. 0)" using s by (simp_all add: log_inv_def pins_empty)
  then show ?thesis using s True bio_st_no_pins [of s V]
    by (intro exI [of _ s]) (auto simp: commit_def bnd_app whenk_app bio_log_frame)
next
  case False
  let ?S = "lg_start s" and ?W = "commit_writes (lg_start s) k (lh_block s) V"
  obtain t V' where t: "commit s = Done () t" "bio_st t V' no_open (\<lambda>_. 0)" "lh_n t = 0"
      "disk t = writes ?W (disk s)" "bio_frame (s\<lparr>lh_n := 0\<rparr>) t"
    using commit_ok [OF s] False by blast
  note ft = bio_frame_log [OF t(5)]
  have h: "hdr_n (disk t ?S) = 0" unfolding t(4) by (simp add: commit_writes_def writes_append)
  have p: "good_disk ?S (disk t) \<and> recovered ?S (disk t) n = V n" if "n \<notin> log_area ?S" for n
    using commit_prefix [OF s that, where j = "length ?W"] t(4) by (simp add: commit_writes_def)
  then have "good_disk ?S (disk t)" using ex_not_in_area by blast
  then have "trans_ok t (disk t) 0"
    using t(2,3) bio_st_no_pins [OF t(2)] s ft h
    by (auto simp: log_inv_def pins_empty good_disk_def LOGSIZE_def)
  moreover have "log_frame s t" using t(3,5) ft by (simp add: log_frame_def)
  ultimately show ?thesis using t(1) p recovered_empty [of "disk t" ?S] h by auto
qed

lemma bio_st_woken [simp]: "bio_st (s\<lparr>procs := woken ch s\<rparr>) V Q P = bio_st s V Q P"
  by (rule bio_st_cong) (auto simp: mypid_def woken_def sleeping_on_def bio_ready_def can_wake_def no_plock_def)

lemma log_frame_trans: "log_frame s t \<Longrightarrow> log_frame t u \<Longrightarrow> log_frame s u"
  unfolding log_frame_def
  using bio_frame_trans [OF bio_frame_lh [of "s\<lparr>lh_n := lh_n t, lh_block := lh_block t\<rparr>" t "lh_block u" "lh_n u"]]
  by fastforce

lemma end_op_last:
  assumes s: "trans_ok s V k" and o: "lg_outstanding s = 1" "\<not> lg_committing s" and h: "LkLog \<notin> set (held s)"
  shows "\<exists>t. end_op s = Done () t \<and> trans_ok t (disk t) 0 \<and> lg_outstanding t = 0 \<and> \<not> lg_committing t
    \<and> held t = held s \<and> (\<forall>n. n \<notin> log_area (lg_start s) \<longrightarrow> disk t n = V n)"
proof -
  let ?s = "s\<lparr>lg_outstanding := 0, lg_committing := True\<rparr>"
  have "trans_ok ?s V k" using s by (simp add: log_inv_def)
  from commit_any [OF this] obtain t where t: "commit ?s = Done () t" "trans_ok t (disk t) 0" "log_frame ?s t"
    "\<forall>n. n \<notin> log_area (lg_start s) \<longrightarrow> disk t n = V n" by auto
  note ft = log_frame_fields [OF t(3)]
  let ?t = "t\<lparr>held := LkLog # held s, lg_committing := False\<rparr>"
  have "bio_ready t" using t(2) by (simp add: log_inv_def bio_st_def)
  then have cw: "can_wake ?t" using ft by (simp add: bio_ready_def can_wake_def no_plock_def)
  let ?u = "t\<lparr>lg_committing := False, procs := woken (Some ChLog) ?t\<rparr>"
  have wk: "wakeup (Some ChLog) ?t = Done () (?t\<lparr>procs := woken (Some ChLog) ?t\<rparr>)" by (rule wakeup_app [OF cw])
  have "end_op s = Done () ?u"
    using h o t(1) wk ft by (simp add: end_op_def thn_app bnd_app whenk_app)
  moreover have "woken (Some ChLog) ?t = woken (Some ChLog) t" by (rule woken_cong) simp_all
  then have "bio_st ?u (disk t) no_open (pins {}) = bio_st t (disk t) no_open (pins {})"
    by (intro bio_st_cong)
      (auto simp: mypid_def woken_def sleeping_on_def bio_ready_def can_wake_def no_plock_def)
  then have "trans_ok ?u (disk ?u) 0" using t(2) by (simp add: log_inv_def)
  ultimately show ?thesis using t(4) ft by (intro exI [of _ ?u]) simp
qed

text \<open>The cache operations inside a transaction.\<close>

lemma log_inv_frame:
  assumes "log_inv s V Q k" "bio_frame s t" "disk t = disk s" "\<forall>n. block_ok (V' n)"
    "bio_st t V' Q' (pins (lh_block s ` {..<k}))"
  shows "log_inv t V' Q' k"
  using assms(1,3-5) bio_frame_log [OF assms(2)] by (simp add: log_inv_def)

definition demo_log :: log_state where
  "demo_log = \<lparr>held = [], mem = (\<lambda>_. 0), freelist = 0, kend = 0, procs = (\<lambda>p. demo_proc\<lparr>p_pid := of_nat p + 1\<rparr>),
     curproc = Some 0, initproc = Some 0, nextpid = 65, ticks = 0,
     slocks = (\<lambda>_. \<lparr>sl_locked = 0, sl_name = [], sl_pid = 0\<rparr>),
     bufs = (\<lambda>_. \<lparr>b_valid = 0, b_dev = 0, b_blockno = 0, b_refcnt = 0, b_prev = 0, b_next = 0, b_data = (\<lambda>_. 0)\<rparr>),
     disk = (\<lambda>_ _. 0), dwrites = [], lg_start = 2, lg_size = 30, lg_outstanding = 1, lg_committing = False,
     lg_dev = ROOTDEV, lh_n = 0, lh_block = (\<lambda>_. 0)\<rparr>"

lemma demo_log_boot:
  "\<exists>s. binit demo_log = Done () s \<and> trans_ok s (\<lambda>_ _. 0) 0 \<and> lg_start s = 2 \<and> lg_size s = 30
    \<and> lg_outstanding s = 1 \<and> \<not> lg_committing s \<and> held s = [] \<and> curproc s = Some 0"
proof -
  obtain s where s: "binit demo_log = Done () s" "cache s (disk demo_log) no_open (\<lambda>_. 0)" "disk s = disk demo_log"
    "curproc s = Some 0" "held s = []" "bio.more s = bio.more demo_log"
    using binit_ok [of demo_log] by (auto simp: demo_log_def unused_buf_def)
  have lg: "lg_start s = 2" "lg_size s = 30" "lg_outstanding s = 1" "\<not> lg_committing s" "lg_dev s = ROOTDEV" "lh_n s = 0"
    using s(6) by (cases s; simp add: demo_log_def)+
  have "bio_ready s" using s by (simp add: bio_ready_def can_wake_def no_plock_def)
  with s have st: "bio_st s (\<lambda>_ _. 0) no_open (\<lambda>_. 0)" by (simp add: bio_st_def demo_log_def)
  have "hdr_n (\<lambda>_. 0) = 0" by (simp add: hdr_n_def ld32_def le_load_zero)
  with st s lg show ?thesis
    by (intro exI [of _ s]) (auto simp: log_inv_def LOGSIZE_def block_ok_def pins_empty demo_log_def)
qed

text \<open>A transaction that changes block 50.\<close>

lemma demo_trans:
  "\<exists>s V. trans_ok s V 1 \<and> lg_start s = 2 \<and> lg_outstanding s = 1 \<and> \<not> lg_committing s \<and> LkLog \<notin> set (held s)
    \<and> V 50 0 = 7 \<and> disk s 50 0 = 0 \<and> 50 \<notin> log_area (lg_start (s :: log_state))"
proof -
  obtain s where s: "trans_ok s (\<lambda>_ _. 0) 0" "lg_start s = 2" "lg_size s = 30" "lg_outstanding s = 1" "\<not> lg_committing s" "held (s :: log_state) = []"
    using demo_log_boot by blast
  have na: "(50::u32) \<notin> log_area 2"
  proof
    assume "(50::u32) \<in> log_area 2"
    then obtain i where i: "i < LOGSIZE" "(50::u32) = 2 + of_nat i" by (auto simp: log_area_def)
    then have "(of_nat 48 :: u32) = of_nat i" by (simp add: algebra_simps)
    then have "unat (of_nat 48 :: u32) = unat (of_nat i :: u32)" by simp
    then have "48 = i" using i(1) by (simp add: unat_of_nat LOGSIZE_def)
    with i(1) show False by (simp add: LOGSIZE_def)
  qed
  have b: "bio_st s (\<lambda>_ _. 0) no_open (\<lambda>_. 0)" using s(1) by (simp add: log_inv_def pins_empty)
  then have d: "disk s 50 0 = 0" by (simp flip: bio_st_no_pins)
  have rm: "room no_open (\<lambda>_. 0) 50" by (simp add: room_none NBUF_def)
  obtain i t where t: "bio_st t (\<lambda>_ _. 0) (no_open(50 \<mapsto> i)) (\<lambda>_. 0)" "bio_frame s t" "disk t = disk s"
    using bc.rd_ok [OF b rm] by blast
  define V :: "u32 \<Rightarrow> bytes" where "V = (\<lambda>_ _. 0)(50 := (\<lambda>_. 0)(0 := 7))"
  have okV: "\<forall>n. block_ok (V n)" by (simp add: V_def block_ok_def BSIZE_def)
  obtain u where u: "bio_st u V (no_open(50 \<mapsto> i)) (\<lambda>_. 0)" "bio_frame t u" "disk u = disk s"
    using bc.upd_ok [OF t(1), of 50 i "\<lambda>_. (\<lambda>_. 0)(0 := 7)"] t(3) by (auto simp: V_def)
  have fu: "bio_frame s u" using bio_frame_trans t(2) u(2) by blast
  have "log_inv u V (no_open(50 \<mapsto> i)) 0"
    by (rule log_inv_frame [OF s(1) fu u(3) okV]) (use u(1) in \<open>simp add: pins_empty\<close>)
  from log_write_ok [OF this, of 50 i] obtain v where v: "log_inv v V (no_open(50 \<mapsto> i)) 1" "log_frame u v"
      "lh_block v ` {..<1} = {50}" "disk v = disk u"
    using s na bio_frame_log [OF fu] fu by (auto simp: LOGSIZE_def bio_frame_def)
  have "bio_st v V (no_open(50 \<mapsto> i)) (pins {50})" using v(1,3) by (simp add: log_inv_def)
  from bc.rel_ok [OF this, of 50 i] obtain w where w: "bio_st w V ((no_open(50 \<mapsto> i))(50 := None)) (pins {50})"
      "bio_frame v w" "disk w = disk v" by (auto simp: pins_def)
  have e: "(no_open(50 \<mapsto> i))(50 := None) = no_open" by auto
  have "trans_ok w V 1"
    by (rule log_inv_frame [OF v(1) w(2,3) okV]) (use w(1) v(3) e in simp)
  moreover have "lg_start w = 2" "lg_outstanding w = 1" "\<not> lg_committing w" "held w = []"
    using bio_frame_log [OF w(2)] bio_frame_log [OF fu] log_frame_fields [OF v(2)] s fu w(2) by (auto simp: bio_frame_def)
  ultimately show ?thesis using d w(3) v(4) u(3) na by (intro exI [of _ w] exI [of _ V]) (simp add: V_def)
qed

theorem commit_crash_atomic_witness:
  "\<exists>s V t W. trans_ok s V 1 \<and> V 50 0 = 7 \<and> disk (s :: log_state) 50 0 = 0 \<and> commit s = Done () t
     \<and> dwrites t = dwrites s @ W \<and> disk t 50 0 = 7"
proof -
  obtain s V where s: "trans_ok s V 1" "V 50 0 = 7" "disk (s :: log_state) 50 0 = 0" "50 \<notin> log_area (lg_start s)"
    using demo_trans by blast
  from commit_crash_atomic [OF s(1)] s show ?thesis by (metis zero_less_one)
qed

text \<open>C8: the last \<open>end_op\<close> makes the transaction durable. When it returns, every block outside
  the log is on the disk with the contents the kernel saw, the log is empty in memory and on
  the disk, and no buffer is pinned or locked.\<close>

theorem end_op_durable:
  assumes "trans_ok s V k" "lg_outstanding s = 1" "\<not> lg_committing s" "LkLog \<notin> set (held s)"
  shows "\<exists>t. end_op s = Done () t \<and> (\<forall>n. n \<notin> log_area (lg_start s) \<longrightarrow> disk t n = V n)
    \<and> trans_ok t (disk t) 0 \<and> lg_outstanding t = 0 \<and> \<not> lg_committing t \<and> held t = held s"
  using end_op_last [OF assms] by blast

theorem end_op_durable_witness:
  "\<exists>s V t. trans_ok s V 1 \<and> V 50 0 = 7 \<and> disk (s :: log_state) 50 0 = 0 \<and> end_op s = Done () t \<and> disk t 50 0 = 7"
proof -
  obtain s V where s: "trans_ok s V 1" "lg_outstanding s = 1" "\<not> lg_committing s" "LkLog \<notin> set (held s)"
    "V 50 0 = 7" "disk (s :: log_state) 50 0 = 0" "50 \<notin> log_area (lg_start s)"
    using demo_trans by blast
  from end_op_durable [OF s(1-4)] s(5-7) s(1) show ?thesis by metis
qed





end
