(* ===== verification/Vm.thy ===== *)
theory Vm
  imports Ptab
begin

text \<open>
  kernel/vm.c: page tables and the copying of data between the kernel and user memory. A page
  table is three levels of pages of 512 eight-byte entries in physical memory (Sv39), so a
  \<^verbatim>\<open>pagetable_t\<close> is the address of a page and a \<^verbatim>\<open>pte_t *\<close> the address of an entry. The constants of
  kernel/riscv.h and kernel/memlayout.h that describe them are here too.
  A loop \<^verbatim>\<open>for (a = lo; a < hi; a += PGSIZE)\<close> goes through the list \<open>page_seq lo hi\<close>.
  The kernel-side buffer of \<open>copyout\<close>, \<open>copyin\<close> and \<open>copyinstr\<close> is a list of bytes: the ones to copy,
  or the ones copied so far together with the status.
\<close>

section \<open>Entries and addresses\<close>

definition PTE_V :: u64 where
  "PTE_V = 1"

definition PTE_R :: u64 where
  "PTE_R = 2"

definition PTE_W :: u64 where
  "PTE_W = 4"

definition PTE_X :: u64 where
  "PTE_X = 8"

definition PTE_U :: u64 where
  "PTE_U = 16"

definition PA2PTE :: "u64 \<Rightarrow> u64" where
  "PA2PTE pa = push_bit 10 (drop_bit 12 pa)"

definition PTE2PA :: "u64 \<Rightarrow> u64" where
  "PTE2PA pte = push_bit 12 (drop_bit 10 pte)"

definition PTE_FLAGS :: "u64 \<Rightarrow> u64" where
  "PTE_FLAGS pte = pte AND 0x3FF"

definition PX :: "nat \<Rightarrow> u64 \<Rightarrow> u64" where
  "PX level va = drop_bit (12 + 9 * level) va AND 0x1FF"

definition MAXVA :: u64 where
  "MAXVA = push_bit (9 + 9 + 9 + 12 - 1) 1"

definition TRAMPOLINE :: u64 where
  "TRAMPOLINE = MAXVA - PGSIZE"

definition TRAPFRAME :: u64 where
  "TRAPFRAME = TRAMPOLINE - PGSIZE"

definition KSTACK :: "nat \<Rightarrow> u64" where
  "KSTACK p = TRAMPOLINE - (of_nat p + 1) * 2 * PGSIZE"

definition page_seq :: "u64 \<Rightarrow> u64 \<Rightarrow> u64 list" where
  "page_seq lo hi = map (\<lambda>i. lo + of_nat i * PGSIZE) [0..<(unat hi - unat lo + 4095) div 4096]"

section \<open>Walking a page table\<close>

definition ldk :: "u64 \<Rightarrow> ('x kmem_scheme, u64) K" where
  "ldk a = getk (\<lambda>s. ld64 (mem s) (unat a))"

definition stk :: "u64 \<Rightarrow> u64 \<Rightarrow> ('x kmem_scheme, unit) K" where
  "stk a v = modk (\<lambda>s. s\<lparr>mem := st64 (mem s) (unat a) v\<rparr>)"

text \<open>The loop of \<^verbatim>\<open>walk\<close> from a level down; the result is the address of the entry, or 0.\<close>

fun walk_from :: "nat \<Rightarrow> u64 \<Rightarrow> u64 \<Rightarrow> bool \<Rightarrow> ('x kmem_scheme, u64) K" where
  "walk_from 0 pagetable va alloc = ret (pagetable + 8 * PX 0 va)"
| "walk_from (Suc l) pagetable va alloc =
     (let pte = pagetable + 8 * PX (Suc l) va in
      bnd (ldk pte) (\<lambda>e.
      if e AND PTE_V \<noteq> 0 then walk_from l (PTE2PA e) va alloc
      else if \<not> alloc then ret 0
      else bnd kalloc (\<lambda>p.
        if p = 0 then ret 0
        else thn (memset_k p 0 4096) (
             thn (stk pte (PA2PTE p OR PTE_V))
                 (walk_from l p va alloc)))))"

definition walk :: "u64 \<Rightarrow> u64 \<Rightarrow> bool \<Rightarrow> ('x kmem_scheme, u64) K" where
  "walk pagetable va alloc =
     (if va \<ge> MAXVA then panic ''walk'' else walk_from 2 pagetable va alloc)"

definition walkaddr :: "u64 \<Rightarrow> u64 \<Rightarrow> ('x kmem_scheme, u64) K" where
  "walkaddr pagetable va =
     (if va \<ge> MAXVA then ret 0 else
      bnd (walk pagetable va False) (\<lambda>pte.
      if pte = 0 then ret 0 else
      bnd (ldk pte) (\<lambda>e.
      if e AND PTE_V = 0 then ret 0
      else if e AND PTE_U = 0 then ret 0
      else ret (PTE2PA e))))"

text \<open>The loop of \<^verbatim>\<open>mappages\<close>; \<open>n\<close> is the number of pages after the current one, so the test
  \<^verbatim>\<open>a == last\<close> is \<open>n = 0\<close>.\<close>

fun mappages_loop :: "u64 \<Rightarrow> u64 \<Rightarrow> u64 \<Rightarrow> u64 \<Rightarrow> nat \<Rightarrow> ('x kmem_scheme, int) K" where
  "mappages_loop pagetable perm a pa n =
     bnd (walk pagetable a True) (\<lambda>pte.
     if pte = 0 then ret (- 1) else
     bnd (ldk pte) (\<lambda>e.
     if e AND PTE_V \<noteq> 0 then panic ''mappages: remap'' else
     thn (stk pte (PA2PTE pa OR perm OR PTE_V))
     (case n of 0 \<Rightarrow> ret 0
      | Suc m \<Rightarrow> mappages_loop pagetable perm (a + PGSIZE) (pa + PGSIZE) m)))"

definition mappages :: "u64 \<Rightarrow> u64 \<Rightarrow> u64 \<Rightarrow> u64 \<Rightarrow> u64 \<Rightarrow> ('x kmem_scheme, int) K" where
  "mappages pagetable va sz pa perm =
     (if sz = 0 then panic ''mappages: size'' else
      (let a = PGROUNDDOWN va; last = PGROUNDDOWN (va + sz - 1) in
       mappages_loop pagetable perm a pa (unat ((last - a) div PGSIZE))))"

definition kvmmap :: "u64 \<Rightarrow> u64 \<Rightarrow> u64 \<Rightarrow> u64 \<Rightarrow> u64 \<Rightarrow> ('x kmem_scheme, unit) K" where
  "kvmmap kpgtbl va pa sz perm =
     bnd (mappages kpgtbl va sz pa perm) (\<lambda>r. if r \<noteq> 0 then panic ''kvmmap'' else ret ())"

section \<open>The kernel's own map\<close>

definition UART0 :: u64 where
  "UART0 = 0x10000000"

definition VIRTIO0 :: u64 where
  "VIRTIO0 = 0x10001000"

definition PLIC :: u64 where
  "PLIC = 0x0c000000"

text \<open>\<^verbatim>\<open>proc_mapstacks\<close> is in kernel/proc.c; \<^verbatim>\<open>kvmmake\<close>
  calls it. The linker's symbols \<^verbatim>\<open>etext\<close> and \<^verbatim>\<open>trampoline\<close> are arguments.\<close>

definition proc_mapstacks :: "u64 \<Rightarrow> ('x kmem_scheme, unit) K" where
  "proc_mapstacks kpgtbl = eachk (\<lambda>p.
     bnd kalloc (\<lambda>pa.
     if pa = 0 then panic ''kalloc''
     else kvmmap kpgtbl (KSTACK p) pa PGSIZE (PTE_R OR PTE_W))) [0..<NPROC]"

definition kvmmake :: "u64 \<Rightarrow> u64 \<Rightarrow> ('x kmem_scheme, u64) K" where
  "kvmmake etext trampoline =
     bnd kalloc (\<lambda>kpgtbl.
     thn (memset_k kpgtbl 0 4096) (
     thn (kvmmap kpgtbl UART0 UART0 PGSIZE (PTE_R OR PTE_W)) (
     thn (kvmmap kpgtbl VIRTIO0 VIRTIO0 PGSIZE (PTE_R OR PTE_W)) (
     thn (kvmmap kpgtbl PLIC PLIC 0x400000 (PTE_R OR PTE_W)) (
     thn (kvmmap kpgtbl KERNBASE KERNBASE (etext - KERNBASE) (PTE_R OR PTE_X)) (
     thn (kvmmap kpgtbl etext etext (PHYSTOP - etext) (PTE_R OR PTE_W)) (
     thn (kvmmap kpgtbl TRAMPOLINE trampoline PGSIZE (PTE_R OR PTE_X)) (
     thn (proc_mapstacks kpgtbl)
         (ret kpgtbl)))))))))"

section \<open>User memory\<close>

definition uvmunmap1 :: "u64 \<Rightarrow> bool \<Rightarrow> u64 \<Rightarrow> ('x kmem_scheme, unit) K" where
  "uvmunmap1 pagetable do_free a =
     bnd (walk pagetable a False) (\<lambda>pte.
     if pte = 0 then panic ''uvmunmap: walk'' else
     bnd (ldk pte) (\<lambda>e.
     if e AND PTE_V = 0 then panic ''uvmunmap: not mapped''
     else if PTE_FLAGS e = PTE_V then panic ''uvmunmap: not a leaf''
     else
       thn (whenk do_free (kfree (PTE2PA e)))
           (stk pte 0)))"

definition uvmunmap :: "u64 \<Rightarrow> u64 \<Rightarrow> u64 \<Rightarrow> bool \<Rightarrow> ('x kmem_scheme, unit) K" where
  "uvmunmap pagetable va npages do_free =
     (if va mod PGSIZE \<noteq> 0 then panic ''uvmunmap: not aligned'' else
      eachk (uvmunmap1 pagetable do_free) (page_seq va (va + npages * PGSIZE)))"

definition uvmcreate :: "('x kmem_scheme, u64) K" where
  "uvmcreate = bnd kalloc (\<lambda>pagetable.
     if pagetable = 0 then ret 0
     else thn (memset_k pagetable 0 4096) (ret pagetable))"

definition putmem :: "u64 \<Rightarrow> byte list \<Rightarrow> ('x kmem_scheme, unit) K" where
  "putmem a bs = modk (\<lambda>s. s\<lparr>mem := put_bytes (mem s) (unat a) bs\<rparr>)"

definition uvminit :: "u64 \<Rightarrow> byte list \<Rightarrow> ('x kmem_scheme, unit) K" where
  "uvminit pagetable src =
     (if of_nat (length src) \<ge> PGSIZE then panic ''inituvm: more than a page'' else
      bnd kalloc (\<lambda>m.
      thn (memset_k m 0 4096) (
      thn (mappages pagetable 0 PGSIZE m (PTE_W OR PTE_R OR PTE_X OR PTE_U))
          (putmem m src))))"

definition uvmdealloc :: "u64 \<Rightarrow> u64 \<Rightarrow> u64 \<Rightarrow> ('x kmem_scheme, u64) K" where
  "uvmdealloc pagetable oldsz newsz =
     (if newsz \<ge> oldsz then ret oldsz else
      thn (whenk (PGROUNDUP newsz < PGROUNDUP oldsz)
             (let npages = ucast ((PGROUNDUP oldsz - PGROUNDUP newsz) div PGSIZE) :: u32 in
              uvmunmap pagetable (PGROUNDUP newsz) (scast npages) True))
          (ret newsz))"

fun uvmalloc_loop :: "u64 \<Rightarrow> u64 \<Rightarrow> u64 \<Rightarrow> u64 list \<Rightarrow> ('x kmem_scheme, u64) K" where
  "uvmalloc_loop pagetable oldsz newsz [] = ret newsz"
| "uvmalloc_loop pagetable oldsz newsz (a # as) =
     bnd kalloc (\<lambda>m.
     if m = 0 then thn (uvmdealloc pagetable a oldsz) (ret 0) else
     thn (memset_k m 0 4096) (
     bnd (mappages pagetable a PGSIZE m (PTE_W OR PTE_X OR PTE_R OR PTE_U)) (\<lambda>r.
     if r \<noteq> 0 then
       thn (kfree m) (
       thn (uvmdealloc pagetable a oldsz) (ret 0))
     else uvmalloc_loop pagetable oldsz newsz as)))"

definition uvmalloc :: "u64 \<Rightarrow> u64 \<Rightarrow> u64 \<Rightarrow> ('x kmem_scheme, u64) K" where
  "uvmalloc pagetable oldsz newsz =
     (if newsz < oldsz then ret oldsz
      else uvmalloc_loop pagetable (PGROUNDUP oldsz) newsz (page_seq (PGROUNDUP oldsz) newsz))"

text \<open>A page table has three levels; the first argument counts the levels below, and a table
  below the last level is a panic of the model, which the code does not have.\<close>

fun freewalk_from :: "nat \<Rightarrow> u64 \<Rightarrow> ('x kmem_scheme, unit) K" where
  "freewalk_from 0 pagetable = panic ''freewalk: depth''"
| "freewalk_from (Suc l) pagetable =
     thn (eachk (\<lambda>i. let slot = pagetable + 8 * of_nat i in
            bnd (ldk slot) (\<lambda>pte.
            if pte AND PTE_V \<noteq> 0 \<and> pte AND (PTE_R OR PTE_W OR PTE_X) = 0 then
              thn (freewalk_from l (PTE2PA pte)) (stk slot 0)
            else if pte AND PTE_V \<noteq> 0 then panic ''freewalk: leaf''
            else ret ())) [0..<512])
         (kfree pagetable)"

definition freewalk :: "u64 \<Rightarrow> ('x kmem_scheme, unit) K" where
  "freewalk pagetable = freewalk_from 3 pagetable"

definition uvmfree :: "u64 \<Rightarrow> u64 \<Rightarrow> ('x kmem_scheme, unit) K" where
  "uvmfree pagetable sz =
     thn (whenk (sz > 0) (uvmunmap pagetable 0 (PGROUNDUP sz div PGSIZE) True))
         (freewalk pagetable)"

fun uvmcopy_loop :: "u64 \<Rightarrow> u64 \<Rightarrow> u64 list \<Rightarrow> ('x kmem_scheme, int) K" where
  "uvmcopy_loop old new [] = ret 0"
| "uvmcopy_loop old new (i # is) =
     bnd (walk old i False) (\<lambda>pte.
     if pte = 0 then panic ''uvmcopy: pte should exist'' else
     bnd (ldk pte) (\<lambda>e.
     if e AND PTE_V = 0 then panic ''uvmcopy: page not present'' else
     bnd kalloc (\<lambda>m.
     if m = 0 then thn (uvmunmap new 0 (i div PGSIZE) True) (ret (- 1)) else
     thn (bnd (getk (\<lambda>s. get_bytes (mem s) (unat (PTE2PA e)) 4096)) (putmem m)) (
     bnd (mappages new i PGSIZE m (PTE_FLAGS e)) (\<lambda>r.
     if r \<noteq> 0 then
       thn (kfree m) (
       thn (uvmunmap new 0 (i div PGSIZE) True) (ret (- 1)))
     else uvmcopy_loop old new is)))))"

definition uvmcopy :: "u64 \<Rightarrow> u64 \<Rightarrow> u64 \<Rightarrow> ('x kmem_scheme, int) K" where
  "uvmcopy old new sz = uvmcopy_loop old new (page_seq 0 sz)"

definition uvmclear :: "u64 \<Rightarrow> u64 \<Rightarrow> ('x kmem_scheme, unit) K" where
  "uvmclear pagetable va = bnd (walk pagetable va False) (\<lambda>pte.
     if pte = 0 then panic ''uvmclear''
     else bnd (ldk pte) (\<lambda>e. stk pte (e AND NOT PTE_U)))"

section \<open>Copying between kernel and user memory\<close>

text \<open>How many bytes from \<open>va\<close> on lie in its page.\<close>

definition page_room :: "u64 \<Rightarrow> nat" where
  "page_room va = unat (PGSIZE - (va - PGROUNDDOWN va))"

lemma page_room_pos: "0 < page_room va"
proof -
  have "unat (va - PGROUNDDOWN va) = unat va mod 4096"
    using PGROUNDDOWN_unat [of va] unat_sub [of "PGROUNDDOWN va" va]
    by (simp add: unat_le_mono minus_div_mult_eq_mod)
  then have "unat (va - PGROUNDDOWN va) < 4096" by simp
  then show ?thesis using unat_sub [of "va - PGROUNDDOWN va" PGSIZE]
    by (simp add: page_room_def unat_le_mono)
qed

function copyout :: "u64 \<Rightarrow> u64 \<Rightarrow> byte list \<Rightarrow> ('x kmem_scheme, int) K" where
  "copyout pagetable dstva src =
     (if src = [] then ret 0 else
      (let va0 = PGROUNDDOWN dstva; n = min (page_room dstva) (length src) in
       bnd (walkaddr pagetable va0) (\<lambda>pa0.
       if pa0 = 0 then ret (- 1) else
       thn (putmem (pa0 + (dstva - va0)) (take n src))
           (copyout pagetable (va0 + PGSIZE) (drop n src)))))"
  by pat_completeness auto
termination
  by (relation "measure (\<lambda>(p, v, src). length src)") (auto simp: page_room_pos)

declare copyout.simps [simp del]

function copyin :: "u64 \<Rightarrow> u64 \<Rightarrow> nat \<Rightarrow> ('x kmem_scheme, int \<times> byte list) K" where
  "copyin pagetable srcva len =
     (if len = 0 then ret (0, []) else
      (let va0 = PGROUNDDOWN srcva; n = min (page_room srcva) len in
       bnd (walkaddr pagetable va0) (\<lambda>pa0.
       if pa0 = 0 then ret (- 1, []) else
       bnd (getk (\<lambda>s. get_bytes (mem s) (unat (pa0 + (srcva - va0))) n)) (\<lambda>bs.
       bnd (copyin pagetable (va0 + PGSIZE) (len - n)) (\<lambda>(r, rest).
       ret (r, bs @ rest))))))"
  by pat_completeness auto
termination
  by (relation "measure (\<lambda>(p, v, len). len)") (auto simp: page_room_pos)

declare copyin.simps [simp del]

text \<open>The inner loop of \<open>copyinstr\<close>: at most \<open>n\<close> bytes from \<open>p\<close> up to and including a NUL.\<close>

fun scan_nul :: "bytes \<Rightarrow> nat \<Rightarrow> nat \<Rightarrow> bool \<times> byte list" where
  "scan_nul m p 0 = (False, [])"
| "scan_nul m p (Suc n) =
     (if m p = 0 then (True, [0])
      else (case scan_nul m (Suc p) n of (got, bs) \<Rightarrow> (got, m p # bs)))"

function copyinstr :: "u64 \<Rightarrow> u64 \<Rightarrow> nat \<Rightarrow> ('x kmem_scheme, int \<times> byte list) K" where
  "copyinstr pagetable srcva len =
     (if len = 0 then ret (- 1, []) else
      (let va0 = PGROUNDDOWN srcva; n = min (page_room srcva) len in
       bnd (walkaddr pagetable va0) (\<lambda>pa0.
       if pa0 = 0 then ret (- 1, []) else
       bnd (getk (\<lambda>s. scan_nul (mem s) (unat (pa0 + (srcva - va0))) n)) (\<lambda>(got, bs).
       if got then ret (0, bs)
       else bnd (copyinstr pagetable (va0 + PGSIZE) (len - n)) (\<lambda>(r, rest).
            ret (r, bs @ rest))))))"
  by pat_completeness auto
termination
  by (relation "measure (\<lambda>(p, v, len). len)") (auto simp: page_room_pos)

declare copyinstr.simps [simp del]

section \<open>Copying by either address space\<close>

text \<open>\<^verbatim>\<open>either_copyout\<close> and \<^verbatim>\<open>either_copyin\<close> of kernel/proc.c. A destination is a user address, a
  physical address of kernel memory, or an object of the caller (a local structure), whose
  contents the caller takes from the bytes copied; a source is a user address or the contents of
  a kernel object.\<close>

datatype kdst = UserDst u64 | KernDst u64 | LocalDst

datatype ksrc = UserSrc u64 | KernSrc "byte list"

definition either_copyout :: "kdst \<Rightarrow> byte list \<Rightarrow> ('x ptab_scheme, int) K" where
  "either_copyout dst src =
     (case dst of
        UserDst a \<Rightarrow> bnd cur (\<lambda>p. bnd (getp p p_pagetable) (\<lambda>pt. copyout pt a src))
      | KernDst a \<Rightarrow> thn (putmem a src) (ret 0)
      | LocalDst \<Rightarrow> ret 0)"

definition either_copyin :: "ksrc \<Rightarrow> nat \<Rightarrow> ('x ptab_scheme, int \<times> byte list) K" where
  "either_copyin src len =
     (case src of
        UserSrc a \<Rightarrow> bnd cur (\<lambda>p. bnd (getp p p_pagetable) (\<lambda>pt. copyin pt a len))
      | KernSrc bs \<Rightarrow> ret (0, take len bs))"

fun dst_plus :: "kdst \<Rightarrow> nat \<Rightarrow> kdst" where
  "dst_plus (UserDst a) m = UserDst (a + of_nat m)"
| "dst_plus (KernDst a) m = KernDst (a + of_nat m)"
| "dst_plus LocalDst m = LocalDst"

fun src_plus :: "ksrc \<Rightarrow> nat \<Rightarrow> ksrc" where
  "src_plus (UserSrc a) m = UserSrc (a + of_nat m)"
| "src_plus (KernSrc bs) m = KernSrc (drop m bs)"

end
