(* ===== verification/Fs.thy ===== *)
theory Fs
  imports Log Vm
begin

text \<open>
  kernel/fs.c and kernel/fs.h: the block allocator, inodes, file contents, directories and path
  names, on top of the log. The superblock and the inode table are fields of the record \<open>fs\<close>;
  a \<^verbatim>\<open>struct inode *\<close> is an index into the table. On disk a \<^verbatim>\<open>struct dinode\<close> is 64 bytes at offset
  \<open>64 * (inum mod IPB)\<close> of its block, with the fields at their C offsets; a \<^verbatim>\<open>struct dirent\<close> is a
  16-bit inode number and 14 bytes of name.
  The loops over blocks, inode numbers and directory offsets go through the list of values their
  variable takes; \<open>readi\<close> and \<open>writei\<close> recurse on the number of bytes left.
  Path names and names are the bytes before the terminating NUL.
\<close>

definition NINODE :: nat where
  "NINODE = 50"

definition FSMAGIC :: u32 where
  "FSMAGIC = 0x10203040"

definition ROOTINO :: u32 where
  "ROOTINO = 1"

definition NDIRECT :: nat where
  "NDIRECT = 12"

definition NINDIRECT :: nat where
  "NINDIRECT = BSIZE div 4"

definition MAXFILE :: nat where
  "MAXFILE = NDIRECT + NINDIRECT"

definition IPB :: u32 where
  "IPB = of_nat (BSIZE div 64)"

definition BPB :: u32 where
  "BPB = of_nat (BSIZE * 8)"

definition DIRSIZ :: nat where
  "DIRSIZ = 14"

definition T_DIR :: u16 where
  "T_DIR = 1"

definition T_FILE :: u16 where
  "T_FILE = 2"

definition T_DEVICE :: u16 where
  "T_DEVICE = 3"

record inode =
  i_dev :: u32
  i_inum :: u32
  i_ref :: int
  i_valid :: bool
  i_type :: u16
  i_major :: u16
  i_minor :: u16
  i_nlink :: u16
  i_size :: u32
  i_addrs :: "nat \<Rightarrow> u32"

record fs = log_state +
  fs_sb :: superblock
  inodes :: "nat \<Rightarrow> inode"

definition IBLOCK :: "u32 \<Rightarrow> superblock \<Rightarrow> u32" where
  "IBLOCK i sb = i div IPB + sb_inodestart sb"

definition BBLOCK :: "u32 \<Rightarrow> superblock \<Rightarrow> u32" where
  "BBLOCK b sb = b div BPB + sb_bmapstart sb"

definition modi :: "nat \<Rightarrow> (inode \<Rightarrow> inode) \<Rightarrow> ('x fs_scheme, unit) K" where
  "modi i f = modk (\<lambda>s. s\<lparr>inodes := (inodes s)(i := f (inodes s i))\<rparr>)"

definition geti :: "nat \<Rightarrow> (inode \<Rightarrow> 'a) \<Rightarrow> ('x fs_scheme, 'a) K" where
  "geti i f = getk (\<lambda>s. f (inodes s i))"

section \<open>The superblock\<close>

definition sb_decode :: "bytes \<Rightarrow> superblock" where
  "sb_decode d = \<lparr>sb_magic = ld32 d 0, sb_size = ld32 d 4, sb_nblocks = ld32 d 8,
     sb_ninodes = ld32 d 12, sb_nlog = ld32 d 16, sb_logstart = ld32 d 20,
     sb_inodestart = ld32 d 24, sb_bmapstart = ld32 d 28\<rparr>"

definition readsb :: "u32 \<Rightarrow> ('x fs_scheme, unit) K" where
  "readsb dev = bnd (bread dev 1) (\<lambda>bp.
     thn (bnd (getb bp b_data) (\<lambda>d. modk (\<lambda>s. s\<lparr>fs_sb := sb_decode d\<rparr>)))
         (brelse bp))"

definition fsinit :: "u32 \<Rightarrow> ('x fs_scheme, unit) K" where
  "fsinit dev =
     thn (readsb dev) (
     bnd (getk fs_sb) (\<lambda>sb.
     if sb_magic sb \<noteq> FSMAGIC then panic ''invalid file system''
     else initlog dev sb))"

section \<open>Blocks\<close>

definition bzero :: "u32 \<Rightarrow> u32 \<Rightarrow> ('x fs_scheme, unit) K" where
  "bzero dev bno = bnd (bread dev bno) (\<lambda>bp.
     thn (modb bp (b_data_update (\<lambda>d. memset d 0 0 BSIZE))) (
     thn (log_write bp)
         (brelse bp)))"

definition bit_of :: "nat \<Rightarrow> byte" where
  "bit_of bi = push_bit (bi mod 8) 1"

text \<open>The inner loop of \<open>balloc\<close>: the first free bit of a bitmap block.\<close>

definition free_bit :: "bytes \<Rightarrow> u32 \<Rightarrow> u32 \<Rightarrow> nat option" where
  "free_bit d b sz =
     first_idx (\<lambda>bi. d (bi div 8) AND bit_of bi = 0) (min (unat BPB) (unat sz - unat b))"

fun balloc_loop :: "u32 \<Rightarrow> u32 list \<Rightarrow> ('x fs_scheme, u32) K" where
  "balloc_loop dev [] = panic ''balloc: out of blocks''"
| "balloc_loop dev (b # bs) =
     bnd (getk fs_sb) (\<lambda>sb.
     bnd (bread dev (BBLOCK b sb)) (\<lambda>bp.
     bnd (getb bp b_data) (\<lambda>d.
     case free_bit d b (sb_size sb) of
       Some bi \<Rightarrow>
         thn (modb bp (b_data_update (\<lambda>d. d(bi div 8 := d (bi div 8) OR bit_of bi)))) (
         thn (log_write bp) (
         thn (brelse bp) (
         thn (bzero dev (b + of_nat bi))
             (ret (b + of_nat bi)))))
     | None \<Rightarrow> thn (brelse bp) (balloc_loop dev bs))))"

definition balloc :: "u32 \<Rightarrow> ('x fs_scheme, u32) K" where
  "balloc dev = bnd (getk fs_sb) (\<lambda>sb.
     balloc_loop dev (map (\<lambda>k. of_nat k * BPB) [0..<(unat (sb_size sb) + 8191) div 8192]))"

definition bfree :: "u32 \<Rightarrow> u32 \<Rightarrow> ('x fs_scheme, unit) K" where
  "bfree dev b = bnd (getk fs_sb) (\<lambda>sb.
     bnd (bread dev (BBLOCK b sb)) (\<lambda>bp.
     (let bi = unat (b mod BPB) in
      bnd (getb bp b_data) (\<lambda>d.
      if d (bi div 8) AND bit_of bi = 0 then panic ''freeing free block''
      else
        thn (modb bp (b_data_update (\<lambda>d. d(bi div 8 := d (bi div 8) AND NOT (bit_of bi))))) (
        thn (log_write bp)
            (brelse bp))))))"

section \<open>Inodes\<close>

definition iinit :: "('x fs_scheme, unit) K" where
  "iinit = thn (initlk LkItable)
     (eachk (\<lambda>i. initsleeplock (SlInode i) ''inode'') [0..<NINODE])"

text \<open>The fields of a disk inode at offset \<open>o\<close> of a block.\<close>

definition dip_off :: "u32 \<Rightarrow> nat" where
  "dip_off inum = 64 * unat (inum mod IPB)"

definition dinode_load :: "bytes \<Rightarrow> nat \<Rightarrow> inode \<Rightarrow> inode" where
  "dinode_load d off ip = ip\<lparr>i_type := ld16 d off, i_major := ld16 d (off + 2),
     i_minor := ld16 d (off + 4), i_nlink := ld16 d (off + 6), i_size := ld32 d (off + 8),
     i_addrs := (\<lambda>k. if k \<le> NDIRECT then ld32 d (off + 12 + 4 * k) else i_addrs ip k)\<rparr>"

fun put_addrs :: "(nat \<Rightarrow> u32) \<Rightarrow> nat \<Rightarrow> bytes \<Rightarrow> nat \<Rightarrow> bytes" where
  "put_addrs a 0 d off = d"
| "put_addrs a (Suc k) d off = st32 (put_addrs a k d off) (off + 4 * k) (a k)"

definition dinode_store :: "inode \<Rightarrow> nat \<Rightarrow> bytes \<Rightarrow> bytes" where
  "dinode_store ip off d =
     put_addrs (i_addrs ip) (NDIRECT + 1)
       (st32 (st16 (st16 (st16 (st16 d off (i_type ip)) (off + 2) (i_major ip))
          (off + 4) (i_minor ip)) (off + 6) (i_nlink ip)) (off + 8) (i_size ip)) (off + 12)"

text \<open>\<open>iget\<close>'s scan remembers the first free entry on the way to a match.\<close>

definition iget :: "u32 \<Rightarrow> u32 \<Rightarrow> ('x fs_scheme, nat) K" where
  "iget dev inum =
     thn (acquire LkItable) (
     bnd (getk inodes) (\<lambda>I.
     case first_idx (\<lambda>i. i_ref (I i) > 0 \<and> i_dev (I i) = dev \<and> i_inum (I i) = inum) NINODE of
       Some i \<Rightarrow>
         thn (modi i (i_ref_update (\<lambda>r. r + 1))) (
         thn (release LkItable) (ret i))
     | None \<Rightarrow>
         (case first_idx (\<lambda>i. i_ref (I i) = 0) NINODE of
            None \<Rightarrow> panic ''iget: no inodes''
          | Some i \<Rightarrow>
              thn (modi i (i_dev_update (\<lambda>_. dev))) (
              thn (modi i (i_inum_update (\<lambda>_. inum))) (
              thn (modi i (i_ref_update (\<lambda>_. 1))) (
              thn (modi i (i_valid_update (\<lambda>_. False))) (
              thn (release LkItable) (ret i))))))))"

fun ialloc_loop :: "u32 \<Rightarrow> u16 \<Rightarrow> u32 list \<Rightarrow> ('x fs_scheme, nat) K" where
  "ialloc_loop dev type [] = panic ''ialloc: no inodes''"
| "ialloc_loop dev type (inum # is) =
     bnd (getk fs_sb) (\<lambda>sb.
     bnd (bread dev (IBLOCK inum sb)) (\<lambda>bp.
     bnd (getb bp (\<lambda>b. ld16 (b_data b) (dip_off inum))) (\<lambda>t.
     if t = 0 then
       thn (modb bp (b_data_update (\<lambda>d. memset d (dip_off inum) 0 64))) (
       thn (modb bp (b_data_update (\<lambda>d. st16 d (dip_off inum) type))) (
       thn (log_write bp) (
       thn (brelse bp)
           (iget dev inum))))
     else thn (brelse bp) (ialloc_loop dev type is))))"

definition ialloc :: "u32 \<Rightarrow> u16 \<Rightarrow> ('x fs_scheme, nat) K" where
  "ialloc dev type = bnd (getk fs_sb) (\<lambda>sb.
     ialloc_loop dev type (map of_nat [1..<unat (sb_ninodes sb)]))"

definition iupdate :: "nat \<Rightarrow> ('x fs_scheme, unit) K" where
  "iupdate i = bnd (getk fs_sb) (\<lambda>sb. bnd (geti i (\<lambda>ip. ip)) (\<lambda>ip.
     bnd (bread (i_dev ip) (IBLOCK (i_inum ip) sb)) (\<lambda>bp.
     thn (modb bp (b_data_update (dinode_store ip (dip_off (i_inum ip))))) (
     thn (log_write bp)
         (brelse bp)))))"

definition idup :: "nat \<Rightarrow> ('x fs_scheme, nat) K" where
  "idup i =
     thn (acquire LkItable) (
     thn (modi i (i_ref_update (\<lambda>r. r + 1))) (
     thn (release LkItable) (ret i)))"

definition ilock_load :: "nat \<Rightarrow> ('x fs_scheme, unit) K" where
  "ilock_load i = bnd (geti i (\<lambda>ip. ip)) (\<lambda>ip.
     whenk (\<not> i_valid ip) (
       bnd (getk fs_sb) (\<lambda>sb.
       bnd (bread (i_dev ip) (IBLOCK (i_inum ip) sb)) (\<lambda>bp.
       thn (bnd (getb bp b_data) (\<lambda>d. modi i (dinode_load d (dip_off (i_inum ip))))) (
       thn (brelse bp) (
       thn (modi i (i_valid_update (\<lambda>_. True))) (
       bnd (geti i i_type) (\<lambda>t.
       whenk (t = 0) (panic ''ilock: no type'')))))))))"

definition ilock :: "nat \<Rightarrow> ('x fs_scheme, unit) K" where
  "ilock i = bnd (geti i i_ref) (\<lambda>r.
     if r < 1 then panic ''ilock''
     else thn (acquiresleep (SlInode i)) (ilock_load i))"

definition iunlock :: "nat \<Rightarrow> ('x fs_scheme, unit) K" where
  "iunlock i = bnd (holdingsleep (SlInode i)) (\<lambda>h.
     bnd (geti i i_ref) (\<lambda>r.
     if \<not> h \<or> r < 1 then panic ''iunlock'' else releasesleep (SlInode i)))"

section \<open>Contents\<close>

definition bmap :: "nat \<Rightarrow> nat \<Rightarrow> ('x fs_scheme, u32) K" where
  "bmap i bn =
     bnd (geti i i_dev) (\<lambda>dev.
     if bn < NDIRECT then
       bnd (geti i (\<lambda>ip. i_addrs ip bn)) (\<lambda>addr.
       if addr = 0 then
         bnd (balloc dev) (\<lambda>addr.
         thn (modi i (i_addrs_update (\<lambda>a. a(bn := addr)))) (ret addr))
       else ret addr)
     else (let bn = bn - NDIRECT in
     if bn < NINDIRECT then
       bnd (bnd (geti i (\<lambda>ip. i_addrs ip NDIRECT)) (\<lambda>addr.
            if addr = 0 then
              bnd (balloc dev) (\<lambda>addr.
              thn (modi i (i_addrs_update (\<lambda>a. a(NDIRECT := addr)))) (ret addr))
            else ret addr)) (\<lambda>ind.
       bnd (bread dev ind) (\<lambda>bp.
       bnd (bnd (getb bp (\<lambda>b. ld32 (b_data b) (4 * bn))) (\<lambda>addr.
            if addr = 0 then
              bnd (balloc dev) (\<lambda>addr.
              thn (modb bp (b_data_update (\<lambda>d. st32 d (4 * bn) addr))) (
              thn (log_write bp) (ret addr)))
            else ret addr)) (\<lambda>addr.
       thn (brelse bp) (ret addr))))
     else panic ''bmap: out of range''))"

definition itrunc :: "nat \<Rightarrow> ('x fs_scheme, unit) K" where
  "itrunc i =
     bnd (geti i i_dev) (\<lambda>dev.
     thn (eachk (\<lambda>k. bnd (geti i (\<lambda>ip. i_addrs ip k)) (\<lambda>a.
            whenk (a \<noteq> 0) (
              thn (bfree dev a)
                  (modi i (i_addrs_update (\<lambda>f. f(k := 0))))))) [0..<NDIRECT]) (
     thn (bnd (geti i (\<lambda>ip. i_addrs ip NDIRECT)) (\<lambda>ind.
          whenk (ind \<noteq> 0) (
            bnd (bread dev ind) (\<lambda>bp.
            thn (eachk (\<lambda>j. bnd (getb bp (\<lambda>b. ld32 (b_data b) (4 * j))) (\<lambda>a.
                   whenk (a \<noteq> 0) (bfree dev a))) [0..<NINDIRECT]) (
            thn (brelse bp) (
            thn (bfree dev ind)
                (modi i (i_addrs_update (\<lambda>f. f(NDIRECT := 0)))))))))) (
     thn (modi i (i_size_update (\<lambda>_. 0)))
         (iupdate i))))"

definition iput :: "nat \<Rightarrow> ('x fs_scheme, unit) K" where
  "iput i =
     thn (acquire LkItable) (
     bnd (geti i (\<lambda>ip. i_ref ip = 1 \<and> i_valid ip \<and> i_nlink ip = 0)) (\<lambda>last.
     thn (whenk last (
       thn (acquiresleep (SlInode i)) (
       thn (release LkItable) (
       thn (itrunc i) (
       thn (modi i (i_type_update (\<lambda>_. 0))) (
       thn (iupdate i) (
       thn (modi i (i_valid_update (\<lambda>_. False))) (
       thn (releasesleep (SlInode i))
           (acquire LkItable)))))))))
     (thn (modi i (i_ref_update (\<lambda>r. r - 1)))
          (release LkItable))))"

definition iunlockput :: "nat \<Rightarrow> ('x fs_scheme, unit) K" where
  "iunlockput i = thn (iunlock i) (iput i)"

record stat =
  st_dev :: u32
  st_ino :: u32
  st_type :: u16
  st_nlink :: u16
  st_size :: u64

definition stati :: "nat \<Rightarrow> ('x fs_scheme, stat) K" where
  "stati i = geti i (\<lambda>ip. \<lparr>st_dev = i_dev ip, st_ino = i_inum ip, st_type = i_type ip,
     st_nlink = i_nlink ip, st_size = ucast (i_size ip)\<rparr>)"

lemma mod_BSIZE_less [simp]: "off mod BSIZE < BSIZE"
  by (simp add: BSIZE_def)

text \<open>\<open>readi\<close>'s loop with \<open>n\<close> bytes left: the number of bytes delivered, or -1, and the bytes.\<close>

function readi_loop :: "nat \<Rightarrow> kdst \<Rightarrow> nat \<Rightarrow> nat \<Rightarrow> ('x fs_scheme, int \<times> byte list) K" where
  "readi_loop i dst off n =
     (if n = 0 then ret (0, []) else
      (let m = min n (BSIZE - off mod BSIZE) in
       bnd (bnd (bmap i (off div BSIZE)) (\<lambda>addr. bnd (geti i i_dev) (\<lambda>dev. bread dev addr))) (\<lambda>bp.
       bnd (getb bp (\<lambda>b. get_bytes (b_data b) (off mod BSIZE) m)) (\<lambda>bs.
       bnd (either_copyout dst bs) (\<lambda>r.
       thn (brelse bp) (
       if r = - 1 then ret (- 1, [])
       else bnd (readi_loop i (dst_plus dst m) (off + m) (n - m)) (\<lambda>(tot, rest).
            ret (if tot = - 1 then - 1 else int m + tot, bs @ rest))))))))"
  by pat_completeness auto
termination
  by (relation "measure (\<lambda>(i, dst, off, n). n)") auto

declare readi_loop.simps [simp del]

definition readi :: "nat \<Rightarrow> kdst \<Rightarrow> u32 \<Rightarrow> u32 \<Rightarrow> ('x fs_scheme, int \<times> byte list) K" where
  "readi i dst off n =
     bnd (geti i i_size) (\<lambda>sz.
     if off > sz \<or> off + n < off then ret (0, []) else
     (let n = (if off + n > sz then sz - off else n) in
      readi_loop i dst (unat off) (unat n)))"

text \<open>\<open>writei\<close>'s loop: the number of bytes written. When the source faults, the bytes that came
  before the fault are in the buffer, but the block is not logged.\<close>

function writei_loop :: "nat \<Rightarrow> ksrc \<Rightarrow> nat \<Rightarrow> nat \<Rightarrow> ('x fs_scheme, nat) K" where
  "writei_loop i src off n =
     (if n = 0 then ret 0 else
      (let m = min n (BSIZE - off mod BSIZE) in
       bnd (bnd (bmap i (off div BSIZE)) (\<lambda>addr. bnd (geti i i_dev) (\<lambda>dev. bread dev addr))) (\<lambda>bp.
       bnd (either_copyin src m) (\<lambda>(r, bs).
       thn (modb bp (b_data_update (\<lambda>d. put_bytes d (off mod BSIZE) bs))) (
       if r = - 1 then thn (brelse bp) (ret 0)
       else
         thn (log_write bp) (
         thn (brelse bp) (
         bnd (writei_loop i (src_plus src m) (off + m) (n - m)) (\<lambda>tot.
         ret (m + tot)))))))))"
  by pat_completeness auto
termination
  by (relation "measure (\<lambda>(i, src, off, n). n)") auto

declare writei_loop.simps [simp del]

definition writei :: "nat \<Rightarrow> ksrc \<Rightarrow> u32 \<Rightarrow> u32 \<Rightarrow> ('x fs_scheme, int) K" where
  "writei i src off n =
     bnd (geti i i_size) (\<lambda>sz.
     if off > sz \<or> off + n < off then ret (- 1)
     else if unat (off + n) > MAXFILE * BSIZE then ret (- 1)
     else
       bnd (writei_loop i src (unat off) (unat n)) (\<lambda>tot.
       (let off = off + of_nat tot in
        thn (bnd (geti i i_size) (\<lambda>sz. whenk (off > sz) (modi i (i_size_update (\<lambda>_. off))))) (
        thn (iupdate i)
            (ret (int tot))))))"

section \<open>Directories\<close>

text \<open>A C string that holds the given bytes.\<close>

definition cbytes :: "byte list \<Rightarrow> bytes" where
  "cbytes xs = (\<lambda>k. if k < length xs then xs ! k else 0)"

definition namecmp :: "byte list \<Rightarrow> byte list \<Rightarrow> int" where
  "namecmp s t = strncmp (cbytes s) (cbytes t) DIRSIZ"

text \<open>\<^verbatim>\<open>strncpy(de.name, name, DIRSIZ)\<close>: the field at address 0, the name behind it.\<close>

definition dirname :: "byte list \<Rightarrow> byte list" where
  "dirname name =
     get_bytes (strncpy (put_bytes (\<lambda>_. 0) DIRSIZ (name @ [0])) 0 DIRSIZ (int DIRSIZ)) 0 DIRSIZ"

definition de_inum :: "byte list \<Rightarrow> u16" where
  "de_inum de = ld16 (cbytes de) 0"

definition de_name :: "byte list \<Rightarrow> byte list" where
  "de_name de = take DIRSIZ (drop 2 de)"

definition de_make :: "u32 \<Rightarrow> byte list \<Rightarrow> byte list" where
  "de_make inum name = le_bytes 2 (unat (ucast inum :: u16)) @ dirname name"

definition dir_offs :: "u32 \<Rightarrow> u32 list" where
  "dir_offs sz = map (\<lambda>k. of_nat (16 * k)) [0..<(unat sz + 15) div 16]"

fun dirlookup_loop :: "nat \<Rightarrow> byte list \<Rightarrow> u32 list \<Rightarrow> ('x fs_scheme, (nat \<times> u32) option) K" where
  "dirlookup_loop dp name [] = ret None"
| "dirlookup_loop dp name (off # offs) =
     bnd (readi dp LocalDst off 16) (\<lambda>(r, de).
     if r \<noteq> 16 then panic ''dirlookup read''
     else if de_inum de = 0 then dirlookup_loop dp name offs
     else if namecmp name (de_name de) = 0 then
       bnd (geti dp i_dev) (\<lambda>dev.
       bnd (iget dev (ucast (de_inum de))) (\<lambda>ip. ret (Some (ip, off))))
     else dirlookup_loop dp name offs)"

definition dirlookup :: "nat \<Rightarrow> byte list \<Rightarrow> ('x fs_scheme, (nat \<times> u32) option) K" where
  "dirlookup dp name =
     bnd (geti dp i_type) (\<lambda>t.
     if t \<noteq> T_DIR then panic ''dirlookup not DIR''
     else bnd (geti dp i_size) (\<lambda>sz. dirlookup_loop dp name (dir_offs sz)))"

text \<open>The search of \<open>dirlink\<close> for an empty entry; without one it is the offset after the last.\<close>

fun dirlink_scan :: "nat \<Rightarrow> u32 \<Rightarrow> u32 list \<Rightarrow> ('x fs_scheme, u32) K" where
  "dirlink_scan dp next [] = ret next"
| "dirlink_scan dp next (off # offs) =
     bnd (readi dp LocalDst off 16) (\<lambda>(r, de).
     if r \<noteq> 16 then panic ''dirlink read''
     else if de_inum de = 0 then ret off
     else dirlink_scan dp (off + 16) offs)"

definition dirlink :: "nat \<Rightarrow> byte list \<Rightarrow> u32 \<Rightarrow> ('x fs_scheme, int) K" where
  "dirlink dp name inum =
     bnd (dirlookup dp name) (\<lambda>found.
     case found of
       Some (ip, off) \<Rightarrow> thn (iput ip) (ret (- 1))
     | None \<Rightarrow>
         bnd (bnd (geti dp i_size) (\<lambda>sz. dirlink_scan dp 0 (dir_offs sz))) (\<lambda>off.
         bnd (writei dp (KernSrc (de_make inum name)) off 16) (\<lambda>r.
         if r \<noteq> 16 then panic ''dirlink'' else ret 0)))"

section \<open>Paths\<close>

abbreviation slash :: byte where
  "slash \<equiv> 47"

text \<open>The result is the rest of the path and the name buffer, of which the old contents stay
  behind the terminating NUL.\<close>

definition skipelem :: "byte list \<Rightarrow> byte list \<Rightarrow> (byte list \<times> byte list) option" where
  "skipelem pth name =
     (let pth = dropWhile (\<lambda>c. c = slash) pth in
      if pth = [] then None
      else
        (let s = takeWhile (\<lambda>c. c \<noteq> slash) pth;
             pth = dropWhile (\<lambda>c. c \<noteq> slash) pth;
             name = (if length s \<ge> DIRSIZ then take DIRSIZ s @ drop DIRSIZ name
                     else s @ 0 # drop (Suc (length s)) name) in
         Some (dropWhile (\<lambda>c. c = slash) pth, name)))"

lemma skipelem_shorter: "skipelem pth name = Some (pth', name') \<Longrightarrow> length pth' < length pth"
proof -
  assume a: "skipelem pth name = Some (pth', name')"
  define p where "p = dropWhile (\<lambda>c. c = slash) pth"
  have p: "p \<noteq> []" "pth' = dropWhile (\<lambda>c. c = slash) (dropWhile (\<lambda>c. c \<noteq> slash) p)"
    using a by (auto simp: skipelem_def p_def Let_def split: if_splits)
  have "hd p \<noteq> slash" using p(1) hd_dropWhile [of "\<lambda>c. c = slash" pth] by (simp add: p_def)
  then have "length (dropWhile (\<lambda>c. c \<noteq> slash) p) < length p"
    using p(1) length_dropWhile_le [of "\<lambda>c. c \<noteq> slash"] by (cases p) (auto simp: less_Suc_eq_le)
  moreover have "length p \<le> length pth" by (simp add: p_def length_dropWhile_le)
  ultimately show ?thesis
    using length_dropWhile_le [of "\<lambda>c. c = slash"] p(2) by (meson order_le_less_trans order_less_le_trans)
qed

function namex_loop :: "nat \<Rightarrow> byte list \<Rightarrow> bool \<Rightarrow> byte list
    \<Rightarrow> ('x fs_scheme, (nat \<times> byte list) option) K" where
  "namex_loop ip pth parent name =
     (case skipelem pth name of
        None \<Rightarrow> if parent then thn (iput ip) (ret None) else ret (Some (ip, name))
      | Some (pth, name) \<Rightarrow>
          thn (ilock ip) (
          bnd (geti ip i_type) (\<lambda>t.
          if t \<noteq> T_DIR then thn (iunlockput ip) (ret None)
          else if parent \<and> pth = [] then thn (iunlock ip) (ret (Some (ip, name)))
          else
            bnd (dirlookup ip name) (\<lambda>found.
            case found of
              None \<Rightarrow> thn (iunlockput ip) (ret None)
            | Some (next, off) \<Rightarrow>
                thn (iunlockput ip)
                    (namex_loop next pth parent name)))))"
  by pat_completeness auto
termination
  by (relation "measure (\<lambda>(ip, pth, parent, name). length pth)") (auto dest: skipelem_shorter)

declare namex_loop.simps [simp del]

definition namex :: "byte list \<Rightarrow> bool \<Rightarrow> byte list \<Rightarrow> ('x fs_scheme, (nat \<times> byte list) option) K" where
  "namex pth parent name =
     bnd (if pth \<noteq> [] \<and> hd pth = slash then iget ROOTDEV ROOTINO
          else bnd cur (\<lambda>p. bnd (getp p p_cwd) (\<lambda>cwd.
               case cwd of Some i \<Rightarrow> idup i | None \<Rightarrow> panic ''kerneltrap''))) (\<lambda>ip.
     namex_loop ip pth parent name)"

definition namei :: "byte list \<Rightarrow> ('x fs_scheme, nat option) K" where
  "namei pth = bnd (namex pth False (replicate DIRSIZ 0)) (\<lambda>r. ret (map_option fst r))"

definition nameiparent :: "byte list \<Rightarrow> byte list \<Rightarrow> ('x fs_scheme, (nat \<times> byte list) option) K" where
  "nameiparent pth name = namex pth True name"

end
