(* ===== verification/Uart.thy ===== *)
theory Uart
  imports Fs
begin

text \<open>
  kernel/uart.c, \<^verbatim>\<open>consputc\<close> of kernel/console.c, and kernel/printf.c.
  The 16550 device is what the code sees of it through its registers: the bytes given to the
  transmit register so far (\<open>uart_out\<close>), how many more it accepts before the status register says
  busy (\<open>uart_room\<close>), the bytes that have arrived (\<open>uart_in\<close>), and the last value written to each
  control register. Spinning until the device is idle has no effect but time.
  After a panic on another hart (\<open>panicked\<close>) a writer spins for ever, here a panic.
  A printed argument is a value of \<open>parg\<close>; a conversion that meets an argument of another type or
  none is undefined (\<open>None\<close>).
\<close>

abbreviation UART_TX_BUF_SIZE :: nat where
  "UART_TX_BUF_SIZE \<equiv> 32"

record uart = fs +
  uart_tx_buf :: "nat \<Rightarrow> byte"
  uart_tx_w :: u64
  uart_tx_r :: u64
  uart_out :: "byte list"
  uart_room :: nat
  uart_in :: "byte list"
  uart_regs :: "nat \<Rightarrow> byte"
  panicked :: bool
  pr_locking :: bool

section \<open>uart.c\<close>

definition WriteReg :: "nat \<Rightarrow> byte \<Rightarrow> ('x uart_scheme, unit) K" where
  "WriteReg r v = modk (\<lambda>s. s\<lparr>uart_regs := (uart_regs s)(r := v)\<rparr>)"

text \<open>A write to the transmit register, and the test of its bit of the line status register.\<close>

definition WriteTHR :: "byte \<Rightarrow> ('x uart_scheme, unit) K" where
  "WriteTHR c = modk (\<lambda>s. s\<lparr>uart_out := uart_out s @ [c], uart_room := uart_room s - 1\<rparr>)"

definition tx_idle :: "('x uart_scheme, bool) K" where
  "tx_idle = getk (\<lambda>s. uart_room s > 0)"

definition uartinit :: "('x uart_scheme, unit) K" where
  "uartinit =
     thn (WriteReg 1 0) (
     thn (WriteReg 3 0x80) (
     thn (WriteReg 0 3) (
     thn (WriteReg 1 0) (
     thn (WriteReg 3 3) (
     thn (WriteReg 2 7) (
     thn (WriteReg 1 3)
         (initlk LkUart)))))))"

text \<open>\<open>uartstart\<close> sends at most what the buffer holds when it is called; with no fuel left the
  buffer is empty.\<close>

fun uartstart_loop :: "nat \<Rightarrow> ('x uart_scheme, unit) K" where
  "uartstart_loop 0 = ret ()"
| "uartstart_loop (Suc n) = bnd tx_idle (\<lambda>idle.
     if \<not> idle then ret ()
     else
       bnd (getk (\<lambda>s. uart_tx_buf s (unat (uart_tx_r s) mod UART_TX_BUF_SIZE))) (\<lambda>c.
       thn (modk (\<lambda>s. s\<lparr>uart_tx_r := uart_tx_r s + 1\<rparr>)) (
       thn (wakeup (Some ChUartTxR)) (
       thn (WriteTHR c)
           (uartstart_loop n)))))"

definition uartstart :: "('x uart_scheme, unit) K" where
  "uartstart = bnd (getk (\<lambda>s. unat (uart_tx_w s - uart_tx_r s))) uartstart_loop"

definition uartputc_loop :: "byte \<Rightarrow> ('x uart_scheme, unit) K" where
  "uartputc_loop c = bnd (getk (\<lambda>s. uart_tx_w s = uart_tx_r s + of_nat UART_TX_BUF_SIZE)) (\<lambda>full.
     if full then sleep ChUartTxR LkUart
     else
       thn (modk (\<lambda>s. s\<lparr>uart_tx_buf :=
              (uart_tx_buf s)(unat (uart_tx_w s) mod UART_TX_BUF_SIZE := c)\<rparr>)) (
       thn (modk (\<lambda>s. s\<lparr>uart_tx_w := uart_tx_w s + 1\<rparr>)) (
       thn uartstart
           (release LkUart))))"

definition uartputc :: "byte \<Rightarrow> ('x uart_scheme, unit) K" where
  "uartputc c =
     thn (acquire LkUart) (
     bnd (getk panicked) (\<lambda>dead.
     if dead then panic ''panicked'' else uartputc_loop c))"

definition uartputc_wake :: "byte \<Rightarrow> ('x uart_scheme, unit) K" where
  "uartputc_wake c = thn (sleep_wake LkUart) (uartputc_loop c)"

definition uartputc_sync :: "byte \<Rightarrow> ('x uart_scheme, unit) K" where
  "uartputc_sync c = bnd (getk panicked) (\<lambda>dead.
     if dead then panic ''panicked'' else WriteTHR c)"

definition uartgetc :: "('x uart_scheme, byte option) K" where
  "uartgetc = bnd (getk uart_in) (\<lambda>cs.
     case cs of
       [] \<Rightarrow> ret None
     | c # rest \<Rightarrow> thn (modk (\<lambda>s. s\<lparr>uart_in := rest\<rparr>)) (ret (Some c)))"

section \<open>Output of the kernel\<close>

definition BACKSPACE :: u32 where
  "BACKSPACE = 0x100"

definition consputc :: "u32 \<Rightarrow> ('x uart_scheme, unit) K" where
  "consputc c =
     (if c = BACKSPACE then
        thn (uartputc_sync 8) (thn (uartputc_sync 32) (uartputc_sync 8))
      else uartputc_sync (ucast c))"

section \<open>printf.c\<close>

definition str :: "string \<Rightarrow> byte list" where
  "str s = map of_char s"

datatype parg = AInt u32 | APtr u64 | AStr "byte list option"

definition digits :: "byte list" where
  "digits = str ''0123456789abcdef''"

text \<open>The digits of \<open>x\<close>, least significant first: the \<^verbatim>\<open>do\<close> loop of \<^verbatim>\<open>printint\<close>, with fuel for the
  32 digits a 32-bit number has at most in any base from 2 on.\<close>

fun digs :: "nat \<Rightarrow> u32 \<Rightarrow> u32 \<Rightarrow> byte list" where
  "digs 0 x base = []"
| "digs (Suc k) x base = digits ! unat (x mod base) #
     (if x div base = 0 then [] else digs k (x div base) base)"

definition printint :: "u32 \<Rightarrow> u32 \<Rightarrow> bool \<Rightarrow> byte list" where
  "printint xx base sign =
     (let neg = sign \<and> sint xx < 0; x = (if neg then - xx else xx);
          buf = digs 32 x base @ (if neg then str ''-'' else []) in rev buf)"

fun hexits :: "nat \<Rightarrow> u64 \<Rightarrow> byte list" where
  "hexits 0 x = []"
| "hexits (Suc k) x = digits ! unat (drop_bit 60 x) # hexits k (push_bit 4 x)"

definition printptr :: "u64 \<Rightarrow> byte list" where
  "printptr x = str ''0x'' @ hexits 16 x"

text \<open>What one conversion prints, and the arguments left.\<close>

fun conversion :: "byte \<Rightarrow> parg list \<Rightarrow> (byte list \<times> parg list) option" where
  "conversion c args =
     (if c = of_char CHR ''d'' then
        (case args of AInt x # rest \<Rightarrow> Some (printint x 10 True, rest) | _ \<Rightarrow> None)
      else if c = of_char CHR ''x'' then
        (case args of AInt x # rest \<Rightarrow> Some (printint x 16 True, rest) | _ \<Rightarrow> None)
      else if c = of_char CHR ''p'' then
        (case args of APtr x # rest \<Rightarrow> Some (printptr x, rest) | _ \<Rightarrow> None)
      else if c = of_char CHR ''s'' then
        (case args of
           AStr (Some bs) # rest \<Rightarrow> Some (bs, rest)
         | AStr None # rest \<Rightarrow> Some (str ''(null)'', rest)
         | _ \<Rightarrow> None)
      else if c = of_char CHR ''%'' then Some ([c], args)
      else Some ([of_char CHR ''%'', c], args))"

fun fmt_out :: "byte list \<Rightarrow> parg list \<Rightarrow> byte list option" where
  "fmt_out [] args = Some []"
| "fmt_out (c # fmt) args =
     (if c \<noteq> of_char CHR ''%'' then map_option (Cons c) (fmt_out fmt args)
      else
        (case fmt of
           [] \<Rightarrow> Some []
         | d # fmt' \<Rightarrow>
             (case conversion d args of
                None \<Rightarrow> None
              | Some (out, rest) \<Rightarrow> map_option (append out) (fmt_out fmt' rest))))"

definition printf :: "byte list \<Rightarrow> parg list \<Rightarrow> ('x uart_scheme, unit) K" where
  "printf fmt args =
     bnd (getk pr_locking) (\<lambda>locking.
     thn (whenk locking (acquire LkPr)) (
     thn (case fmt_out fmt args of
            None \<Rightarrow> panic ''undefined: printf argument''
          | Some out \<Rightarrow> eachk (\<lambda>c. consputc (ucast c)) out)
     (whenk locking (release LkPr))))"

definition printfinit :: "('x uart_scheme, unit) K" where
  "printfinit =
     thn (initlk LkPr) (modk (\<lambda>s. s\<lparr>pr_locking := True\<rparr>))"

text \<open>What \<^verbatim>\<open>panic\<close> prints before it stops; its other effect is the outcome \<open>Panic\<close>.\<close>

definition panic_message :: "byte list \<Rightarrow> ('x uart_scheme, unit) K" where
  "panic_message msg =
     thn (modk (\<lambda>s. s\<lparr>pr_locking := False\<rparr>)) (
     thn (printf (str ''panic: '') []) (
     thn (printf msg []) (
     thn (printf (str [CHR 0x0A]) [])
         (modk (\<lambda>s. s\<lparr>panicked := True\<rparr>)))))"

section \<open>procdump\<close>

text \<open>The table of state names has no entry for \<open>USED\<close>.\<close>

fun state_name :: "procstate \<Rightarrow> string option" where
  "state_name UNUSED = Some ''unused''"
| "state_name USED = None"
| "state_name SLEEPING = Some ''sleep ''"
| "state_name RUNNABLE = Some ''runble''"
| "state_name RUNNING = Some ''run   ''"
| "state_name ZOMBIE = Some ''zombie''"

definition procdump1 :: "nat \<Rightarrow> ('x uart_scheme, unit) K" where
  "procdump1 p = bnd (getp p (\<lambda>q. q)) (\<lambda>q.
     whenk (p_state q \<noteq> UNUSED) (
       (let state = (case state_name (p_state q) of Some n \<Rightarrow> n | None \<Rightarrow> ''???'') in
        thn (printf (str ''%d %s %s'')
               [AInt (p_pid q), AStr (Some (str state)),
                AStr (Some (takeWhile (\<lambda>c. c \<noteq> 0) (p_name q)))])
            (printf (str [CHR 0x0A]) []))))"

definition procdump :: "('x uart_scheme, unit) K" where
  "procdump =
     thn (printf (str [CHR 0x0A]) [])
         (eachk procdump1 [0..<NPROC])"

end
