(* ===== verification/Console.thy ===== *)
theory Console
  imports Uart
begin

text \<open>
  kernel/console.c: the line discipline between the UART and the processes that read and write the
  console, and \<^verbatim>\<open>uartintr\<close>, which feeds it. The input buffer is a ring of 128 bytes with three
  32-bit counters: read, write (the end of the committed lines) and edit.
  \<open>consoleread\<close> and \<open>consolewrite\<close> can sleep inside their loops; \<open>consoleread_wake\<close> and
  \<open>consolewrite_wake\<close> continue after the switch with the values the loop variables had.
  An entry of \<^verbatim>\<open>devsw\<close> is null or holds the console's routine, the only one the kernel installs.
  \<^verbatim>\<open>char\<close> is unsigned on RISC-V.
\<close>

abbreviation INPUT_BUF :: nat where
  "INPUT_BUF \<equiv> 128"

record console = uart +
  cons_buf :: "nat \<Rightarrow> byte"
  cons_r :: u32
  cons_w :: u32
  cons_e :: u32
  devsw_read :: "nat \<Rightarrow> bool"
  devsw_write :: "nat \<Rightarrow> bool"

abbreviation ctl :: "char \<Rightarrow> byte" where
  "ctl c \<equiv> of_char c - of_char CHR ''@''"

abbreviation newline :: byte where
  "newline \<equiv> 10"

fun consolewrite_loop :: "ksrc \<Rightarrow> nat \<Rightarrow> nat \<Rightarrow> ('x console_scheme, int) K" where
  "consolewrite_loop src i 0 = ret (int i)"
| "consolewrite_loop src i (Suc n) =
     bnd (either_copyin src 1) (\<lambda>(r, bs).
     if r = - 1 then ret (int i)
     else
       thn (uartputc (hd bs))
           (consolewrite_loop (src_plus src 1) (Suc i) n))"

definition consolewrite :: "ksrc \<Rightarrow> int \<Rightarrow> ('x console_scheme, int) K" where
  "consolewrite src n = consolewrite_loop src 0 (nat n)"

definition consolewrite_wake :: "byte \<Rightarrow> ksrc \<Rightarrow> nat \<Rightarrow> nat \<Rightarrow> ('x console_scheme, int) K" where
  "consolewrite_wake c src i n =
     thn (uartputc_wake c) (consolewrite_loop (src_plus src 1) (Suc i) n)"

definition cons_done :: "nat \<Rightarrow> ('x console_scheme, int) K" where
  "cons_done got = thn (release LkCons) (ret (int got))"

fun consoleread_loop :: "kdst \<Rightarrow> nat \<Rightarrow> nat \<Rightarrow> ('x console_scheme, int) K" where
  "consoleread_loop dst target 0 = cons_done target"
| "consoleread_loop dst target (Suc n) =
     bnd (getk (\<lambda>s. cons_r s = cons_w s)) (\<lambda>empty.
     if empty then
       bnd cur (\<lambda>p. bnd (getp p p_killed) (\<lambda>killed.
       if killed \<noteq> 0 then thn (release LkCons) (ret (- 1))
       else sleep ChConsR LkCons))
     else
       bnd (getk (\<lambda>s. cons_buf s (unat (cons_r s) mod INPUT_BUF))) (\<lambda>c.
       thn (modk (\<lambda>s. s\<lparr>cons_r := cons_r s + 1\<rparr>)) (
       if c = ctl CHR ''D'' then
         thn (whenk (Suc n < target) (modk (\<lambda>s. s\<lparr>cons_r := cons_r s - 1\<rparr>)))
             (cons_done (target - Suc n))
       else
         bnd (either_copyout dst [c]) (\<lambda>r.
         if r = - 1 then cons_done (target - Suc n)
         else if c = newline then cons_done (target - n)
         else consoleread_loop (dst_plus dst 1) target n))))"

definition consoleread :: "kdst \<Rightarrow> int \<Rightarrow> ('x console_scheme, int) K" where
  "consoleread dst n =
     thn (acquire LkCons) (consoleread_loop dst (nat n) (nat n))"

definition consoleread_wake :: "kdst \<Rightarrow> nat \<Rightarrow> nat \<Rightarrow> ('x console_scheme, int) K" where
  "consoleread_wake dst target n = thn (sleep_wake LkCons) (consoleread_loop dst target n)"

text \<open>Control-U: back over the edit line. The fuel is the number of bytes in it.\<close>

fun kill_line :: "nat \<Rightarrow> ('x console_scheme, unit) K" where
  "kill_line 0 = ret ()"
| "kill_line (Suc n) =
     bnd (getk (\<lambda>s. cons_buf s (unat (cons_e s - 1) mod INPUT_BUF))) (\<lambda>c.
     if c = newline then ret ()
     else
       thn (modk (\<lambda>s. s\<lparr>cons_e := cons_e s - 1\<rparr>)) (
       thn (consputc BACKSPACE)
           (kill_line n)))"

definition consoleintr :: "byte \<Rightarrow> ('x console_scheme, unit) K" where
  "consoleintr c =
     thn (acquire LkCons) (
     thn (if c = ctl CHR ''P'' then procdump
          else if c = ctl CHR ''U'' then
            bnd (getk (\<lambda>s. unat (cons_e s - cons_w s))) kill_line
          else if c = ctl CHR ''H'' \<or> c = 0x7f then
            bnd (getk (\<lambda>s. cons_e s \<noteq> cons_w s)) (\<lambda>b.
            whenk b (
              thn (modk (\<lambda>s. s\<lparr>cons_e := cons_e s - 1\<rparr>))
                  (consputc BACKSPACE)))
          else
            bnd (getk (\<lambda>s. c \<noteq> 0 \<and> unat (cons_e s - cons_r s) < INPUT_BUF)) (\<lambda>b.
            whenk b
              (let c = (if c = 13 then newline else c) in
               thn (consputc (ucast c)) (
               thn (modk (\<lambda>s. s\<lparr>cons_buf := (cons_buf s)(unat (cons_e s) mod INPUT_BUF := c)\<rparr>)) (
               thn (modk (\<lambda>s. s\<lparr>cons_e := cons_e s + 1\<rparr>)) (
               bnd (getk (\<lambda>s. c = newline \<or> c = ctl CHR ''D''
                              \<or> cons_e s = cons_r s + of_nat INPUT_BUF)) (\<lambda>line.
               whenk line (
                 thn (modk (\<lambda>s. s\<lparr>cons_w := cons_e s\<rparr>))
                     (wakeup (Some ChConsR))))))))))
     (release LkCons))"

definition consoleinit :: "('x console_scheme, unit) K" where
  "consoleinit =
     thn (initlk LkCons) (
     thn uartinit (
     thn (modk (\<lambda>s. s\<lparr>devsw_read := (devsw_read s)(1 := True)\<rparr>))
         (modk (\<lambda>s. s\<lparr>devsw_write := (devsw_write s)(1 := True)\<rparr>))))"

text \<open>The input loop of \<^verbatim>\<open>uartintr\<close>: one turn for every byte that has arrived.\<close>

fun uartintr_loop :: "nat \<Rightarrow> ('x console_scheme, unit) K" where
  "uartintr_loop 0 = ret ()"
| "uartintr_loop (Suc n) = bnd uartgetc (\<lambda>c.
     case c of None \<Rightarrow> ret () | Some c \<Rightarrow> thn (consoleintr c) (uartintr_loop n))"

definition uartintr :: "('x console_scheme, unit) K" where
  "uartintr =
     thn (bnd (getk (\<lambda>s. length (uart_in s))) uartintr_loop) (
     thn (acquire LkUart) (
     thn uartstart
         (release LkUart)))"

end
