(* ===== verification/Pipe.thy ===== *)
theory Pipe
  imports Console
begin

text \<open>
  kernel/pipe.c except \<open>pipealloc\<close> (theory \<^verbatim>\<open>File\<close>), with \<^verbatim>\<open>struct file\<close> and \<^verbatim>\<open>struct pipe\<close>. A
  \<^verbatim>\<open>struct pipe *\<close> is the address of the page it was allocated in; the structure is an entry of
  \<open>pipes\<close>. The counters \<open>nread\<close> and \<open>nwrite\<close> are 32-bit and wrap.
  The loops that can sleep are split at the switch: \<open>pipewrite_wake\<close> and \<open>piperead_wake\<close> continue.
  \<open>kjunk\<close> is what an uninitialised local structure holds.
\<close>

definition PIPESIZE :: nat where
  "PIPESIZE = 512"

record pipe =
  pi_data :: "nat \<Rightarrow> byte"
  pi_nread :: u32
  pi_nwrite :: u32
  pi_readopen :: bool
  pi_writeopen :: bool

datatype ftype = FD_NONE | FD_PIPE | FD_INODE | FD_DEVICE

record kfile =
  f_type :: ftype
  f_ref :: int
  f_readable :: bool
  f_writable :: bool
  f_pipe :: u64
  f_ip :: nat
  f_off :: u32
  f_major :: u16

record files = console +
  ftable :: "nat \<Rightarrow> kfile"
  pipes :: "u64 \<Rightarrow> pipe"
  kjunk :: "nat \<Rightarrow> byte"

definition modpi :: "u64 \<Rightarrow> (pipe \<Rightarrow> pipe) \<Rightarrow> ('x files_scheme, unit) K" where
  "modpi pi f = modk (\<lambda>s. s\<lparr>pipes := (pipes s)(pi := f (pipes s pi))\<rparr>)"

definition getpi :: "u64 \<Rightarrow> (pipe \<Rightarrow> 'a) \<Rightarrow> ('x files_scheme, 'a) K" where
  "getpi pi f = getk (\<lambda>s. f (pipes s pi))"

definition pipeclose :: "u64 \<Rightarrow> bool \<Rightarrow> ('x files_scheme, unit) K" where
  "pipeclose pi writable =
     thn (acquire (LkPipe pi)) (
     thn (if writable then
            thn (modpi pi (pi_writeopen_update (\<lambda>_. False))) (wakeup (Some (ChNread pi)))
          else
            thn (modpi pi (pi_readopen_update (\<lambda>_. False))) (wakeup (Some (ChNwrite pi)))) (
     bnd (getpi pi (\<lambda>q. \<not> pi_readopen q \<and> \<not> pi_writeopen q)) (\<lambda>last.
     if last then thn (release (LkPipe pi)) (kfree pi)
     else release (LkPipe pi))))"

definition pipewrite_done :: "u64 \<Rightarrow> nat \<Rightarrow> ('x files_scheme, int) K" where
  "pipewrite_done pi i =
     thn (wakeup (Some (ChNread pi))) (
     thn (release (LkPipe pi)) (ret (int i)))"

text \<open>The loop with \<open>i\<close> bytes written and \<open>left\<close> to go.\<close>

fun pipewrite_loop :: "u64 \<Rightarrow> u64 \<Rightarrow> nat \<Rightarrow> nat \<Rightarrow> ('x files_scheme, int) K" where
  "pipewrite_loop pi addr i 0 = pipewrite_done pi i"
| "pipewrite_loop pi addr i (Suc left) =
     bnd cur (\<lambda>pr. bnd (getp pr (\<lambda>q. q)) (\<lambda>q.
     bnd (getpi pi (\<lambda>q. q)) (\<lambda>pp.
     if \<not> pi_readopen pp \<or> p_killed q \<noteq> 0 then
       thn (release (LkPipe pi)) (ret (- 1))
     else if pi_nwrite pp = pi_nread pp + of_nat PIPESIZE then
       thn (wakeup (Some (ChNread pi))) (sleep (ChNwrite pi) (LkPipe pi))
     else
       bnd (copyin (p_pagetable q) (addr + of_nat i) 1) (\<lambda>(r, ch).
       if r = - 1 then pipewrite_done pi i
       else
         thn (modpi pi (\<lambda>pp. pp\<lparr>pi_data := (pi_data pp)(unat (pi_nwrite pp) mod PIPESIZE := hd ch),
                                pi_nwrite := pi_nwrite pp + 1\<rparr>))
             (pipewrite_loop pi addr (Suc i) left)))))"

definition pipewrite :: "u64 \<Rightarrow> u64 \<Rightarrow> int \<Rightarrow> ('x files_scheme, int) K" where
  "pipewrite pi addr n = thn (acquire (LkPipe pi)) (pipewrite_loop pi addr 0 (nat n))"

definition pipewrite_wake :: "u64 \<Rightarrow> u64 \<Rightarrow> nat \<Rightarrow> nat \<Rightarrow> ('x files_scheme, int) K" where
  "pipewrite_wake pi addr i left = thn (sleep_wake (LkPipe pi)) (pipewrite_loop pi addr i left)"

definition piperead_done :: "u64 \<Rightarrow> nat \<Rightarrow> ('x files_scheme, int) K" where
  "piperead_done pi i =
     thn (wakeup (Some (ChNwrite pi))) (
     thn (release (LkPipe pi)) (ret (int i)))"

fun piperead_copy :: "u64 \<Rightarrow> u64 \<Rightarrow> nat \<Rightarrow> nat \<Rightarrow> ('x files_scheme, int) K" where
  "piperead_copy pi addr i 0 = piperead_done pi i"
| "piperead_copy pi addr i (Suc left) =
     bnd (getpi pi (\<lambda>q. q)) (\<lambda>pp.
     if pi_nread pp = pi_nwrite pp then piperead_done pi i
     else
       (let ch = pi_data pp (unat (pi_nread pp) mod PIPESIZE) in
        thn (modpi pi (pi_nread_update (\<lambda>r. r + 1))) (
        bnd cur (\<lambda>pr. bnd (getp pr p_pagetable) (\<lambda>pt.
        bnd (copyout pt (addr + of_nat i) [ch]) (\<lambda>r.
        if r = - 1 then piperead_done pi i
        else piperead_copy pi addr (Suc i) left))))))"

text \<open>From the test of the waiting loop on.\<close>

definition piperead_loop :: "u64 \<Rightarrow> u64 \<Rightarrow> int \<Rightarrow> ('x files_scheme, int) K" where
  "piperead_loop pi addr n =
     bnd (getpi pi (\<lambda>q. q)) (\<lambda>pp.
     if pi_nread pp = pi_nwrite pp \<and> pi_writeopen pp then
       bnd cur (\<lambda>pr. bnd (getp pr p_killed) (\<lambda>killed.
       if killed \<noteq> 0 then thn (release (LkPipe pi)) (ret (- 1))
       else sleep (ChNread pi) (LkPipe pi)))
     else piperead_copy pi addr 0 (nat n))"

definition piperead :: "u64 \<Rightarrow> u64 \<Rightarrow> int \<Rightarrow> ('x files_scheme, int) K" where
  "piperead pi addr n = thn (acquire (LkPipe pi)) (piperead_loop pi addr n)"

definition piperead_wake :: "u64 \<Rightarrow> u64 \<Rightarrow> int \<Rightarrow> ('x files_scheme, int) K" where
  "piperead_wake pi addr n = thn (sleep_wake (LkPipe pi)) (piperead_loop pi addr n)"

end
