(* ===== verification/File.thy ===== *)
theory File
  imports Pipe
begin

text \<open>
  kernel/file.c and \<^verbatim>\<open>pipealloc\<close> of kernel/pipe.c: the table of open files. A \<^verbatim>\<open>struct file *\<close> is an
  index into \<open>ftable\<close>; a null one is \<open>None\<close>.
\<close>

definition NFILE :: nat where
  "NFILE = 100"

definition NDEV :: int where
  "NDEV = 10"

definition modf :: "nat \<Rightarrow> (kfile \<Rightarrow> kfile) \<Rightarrow> ('x files_scheme, unit) K" where
  "modf f g = modk (\<lambda>s. s\<lparr>ftable := (ftable s)(f := g (ftable s f))\<rparr>)"

definition getf :: "nat \<Rightarrow> (kfile \<Rightarrow> 'a) \<Rightarrow> ('x files_scheme, 'a) K" where
  "getf f g = getk (\<lambda>s. g (ftable s f))"

definition fileinit :: "('x files_scheme, unit) K" where
  "fileinit = initlk LkFtable"

definition filealloc :: "('x files_scheme, nat option) K" where
  "filealloc =
     thn (acquire LkFtable) (
     bnd (getk (\<lambda>s. first_idx (\<lambda>f. f_ref (ftable s f) = 0) NFILE)) (\<lambda>r.
     case r of
       Some f \<Rightarrow>
         thn (modf f (f_ref_update (\<lambda>_. 1))) (
         thn (release LkFtable) (ret (Some f)))
     | None \<Rightarrow> thn (release LkFtable) (ret None)))"

definition filedup :: "nat \<Rightarrow> ('x files_scheme, nat) K" where
  "filedup f =
     thn (acquire LkFtable) (
     bnd (getf f f_ref) (\<lambda>r.
     if r < 1 then panic ''filedup''
     else
       thn (modf f (f_ref_update (\<lambda>r. r + 1))) (
       thn (release LkFtable) (ret f))))"

definition fileclose :: "nat \<Rightarrow> ('x files_scheme, unit) K" where
  "fileclose f =
     thn (acquire LkFtable) (
     bnd (getf f f_ref) (\<lambda>r.
     if r < 1 then panic ''fileclose'' else
     thn (modf f (f_ref_update (\<lambda>r. r - 1))) (
     if r - 1 > 0 then release LkFtable
     else
       bnd (getf f (\<lambda>g. g)) (\<lambda>ff.
       thn (modf f (f_ref_update (\<lambda>_. 0))) (
       thn (modf f (f_type_update (\<lambda>_. FD_NONE))) (
       thn (release LkFtable) (
       if f_type ff = FD_PIPE then pipeclose (f_pipe ff) (f_writable ff)
       else whenk (f_type ff = FD_INODE \<or> f_type ff = FD_DEVICE) (
         thn begin_op (
         thn (iput (f_ip ff))
             end_op))))))))) "

text \<open>\<^verbatim>\<open>struct stat\<close> in memory: 24 bytes, of which four are padding before the size.\<close>

definition stat_bytes :: "stat \<Rightarrow> (nat \<Rightarrow> byte) \<Rightarrow> byte list" where
  "stat_bytes st junk =
     le_bytes 4 (unat (st_dev st)) @ le_bytes 4 (unat (st_ino st)) @
     le_bytes 2 (unat (st_type st)) @ le_bytes 2 (unat (st_nlink st)) @
     get_bytes junk 12 4 @ le_bytes 8 (unat (st_size st))"

definition filestat :: "nat \<Rightarrow> u64 \<Rightarrow> ('x files_scheme, int) K" where
  "filestat f addr =
     bnd (getf f (\<lambda>g. g)) (\<lambda>g.
     if f_type g = FD_INODE \<or> f_type g = FD_DEVICE then
       thn (ilock (f_ip g)) (
       bnd (stati (f_ip g)) (\<lambda>st.
       thn (iunlock (f_ip g)) (
       bnd cur (\<lambda>p. bnd (getp p p_pagetable) (\<lambda>pt.
       bnd (getk kjunk) (\<lambda>junk.
       bnd (copyout pt addr (stat_bytes st junk)) (\<lambda>r.
       ret (if r < 0 then - 1 else 0))))))))
     else ret (- 1))"

definition fileread :: "nat \<Rightarrow> u64 \<Rightarrow> int \<Rightarrow> ('x files_scheme, int) K" where
  "fileread f addr n =
     bnd (getf f (\<lambda>g. g)) (\<lambda>g.
     if \<not> f_readable g then ret (- 1)
     else case f_type g of
       FD_PIPE \<Rightarrow> piperead (f_pipe g) addr n
     | FD_DEVICE \<Rightarrow>
         bnd (getk devsw_read) (\<lambda>dr.
         if sint (f_major g) < 0 \<or> sint (f_major g) \<ge> NDEV \<or> \<not> dr (unat (f_major g)) then ret (- 1)
         else consoleread (UserDst addr) n)
     | FD_INODE \<Rightarrow>
         thn (ilock (f_ip g)) (
         bnd (readi (f_ip g) (UserDst addr) (f_off g) (word_of_int n)) (\<lambda>(r, bs).
         thn (whenk (r > 0) (modf f (f_off_update (\<lambda>off. off + word_of_int r)))) (
         thn (iunlock (f_ip g)) (ret r))))
     | FD_NONE \<Rightarrow> panic ''fileread'')"

definition filewrite_max :: nat where
  "filewrite_max = nat ((MAXOPBLOCKS - 1 - 1 - 2) div 2) * BSIZE"

text \<open>One transaction of \<open>filewrite\<close>, and the loop: the number of bytes written before the
  first failure.\<close>

definition filewrite1 :: "nat \<Rightarrow> u64 \<Rightarrow> nat \<Rightarrow> ('x files_scheme, int) K" where
  "filewrite1 f addr n1 =
     bnd (getf f f_ip) (\<lambda>ip.
     thn begin_op (
     thn (ilock ip) (
     bnd (getf f f_off) (\<lambda>off.
     bnd (writei ip (UserSrc addr) off (of_nat n1)) (\<lambda>r.
     thn (whenk (r > 0) (modf f (f_off_update (\<lambda>off. off + word_of_int r)))) (
     thn (iunlock ip) (
     thn end_op (ret r))))))))"

lemma filewrite_max_pos [simp]: "0 < filewrite_max"
  by (simp add: filewrite_max_def MAXOPBLOCKS_def BSIZE_def)

function filewrite_loop :: "nat \<Rightarrow> u64 \<Rightarrow> nat \<Rightarrow> nat \<Rightarrow> ('x files_scheme, nat) K" where
  "filewrite_loop f addr i n =
     (if i < n then
        (let n1 = min (n - i) filewrite_max in
         bnd (filewrite1 f (addr + of_nat i) n1) (\<lambda>r.
         if r \<noteq> int n1 then ret i
         else filewrite_loop f addr (i + n1) n))
      else ret i)"
  by pat_completeness auto
termination
  by (relation "measure (\<lambda>(f, addr, i, n). n - i)") (auto simp: min_def filewrite_max_def MAXOPBLOCKS_def BSIZE_def)

declare filewrite_loop.simps [simp del]

definition filewrite :: "nat \<Rightarrow> u64 \<Rightarrow> int \<Rightarrow> ('x files_scheme, int) K" where
  "filewrite f addr n =
     bnd (getf f (\<lambda>g. g)) (\<lambda>g.
     if \<not> f_writable g then ret (- 1)
     else case f_type g of
       FD_PIPE \<Rightarrow> pipewrite (f_pipe g) addr n
     | FD_DEVICE \<Rightarrow>
         bnd (getk devsw_write) (\<lambda>dw.
         if sint (f_major g) < 0 \<or> sint (f_major g) \<ge> NDEV \<or> \<not> dw (unat (f_major g)) then ret (- 1)
         else consolewrite (UserSrc addr) n)
     | FD_INODE \<Rightarrow>
         bnd (filewrite_loop f addr 0 (nat n)) (\<lambda>i.
         ret (if int i = n then n else - 1))
     | FD_NONE \<Rightarrow> panic ''filewrite'')"

section \<open>pipealloc\<close>

definition pipealloc_bad :: "nat option \<Rightarrow> nat option \<Rightarrow> ('x files_scheme, (nat \<times> nat) option) K" where
  "pipealloc_bad f0 f1 =
     thn (case f0 of Some f \<Rightarrow> fileclose f | None \<Rightarrow> ret ()) (
     thn (case f1 of Some f \<Rightarrow> fileclose f | None \<Rightarrow> ret ())
         (ret None))"

definition pipealloc :: "('x files_scheme, (nat \<times> nat) option) K" where
  "pipealloc =
     bnd filealloc (\<lambda>r0. case r0 of None \<Rightarrow> pipealloc_bad None None | Some f0 \<Rightarrow>
     bnd filealloc (\<lambda>r1. case r1 of None \<Rightarrow> pipealloc_bad (Some f0) None | Some f1 \<Rightarrow>
     bnd kalloc (\<lambda>pi.
     if pi = 0 then pipealloc_bad (Some f0) (Some f1)
     else
       thn (modpi pi (pi_readopen_update (\<lambda>_. True))) (
       thn (modpi pi (pi_writeopen_update (\<lambda>_. True))) (
       thn (modpi pi (pi_nwrite_update (\<lambda>_. 0))) (
       thn (modpi pi (pi_nread_update (\<lambda>_. 0))) (
       thn (initlk (LkPipe pi)) (
       thn (modf f0 (\<lambda>f. f\<lparr>f_type := FD_PIPE, f_readable := True, f_writable := False, f_pipe := pi\<rparr>)) (
       thn (modf f1 (\<lambda>f. f\<lparr>f_type := FD_PIPE, f_readable := False, f_writable := True, f_pipe := pi\<rparr>))
           (ret (Some (f0, f1)))))))))))) "

end
