(* ===== verification/Proc.thy ===== *)
theory Proc
  imports File
begin

text \<open>
  The rest of kernel/proc.c: the life of a process, from \<open>allocproc\<close> through \<open>fork\<close> and \<open>exit\<close> to
  \<open>wait\<close>. The record \<open>kern\<close> is the whole kernel state: it adds the addresses of linker symbols
  (\<open>sym_...\<close>), the kernel page table and the control registers that kernel/trap.c uses.
  A trapframe is in the page \<open>p->trapframe\<close> at the offsets of \<^verbatim>\<open>struct trapframe\<close>.
  \<open>wait\<close> and \<open>wait2\<close> sleep in their loop; \<open>wait_wake\<close> and \<open>wait2_wake\<close> continue.
\<close>

record kern = files +
  kernel_pagetable :: u64
  sym_trampoline :: u64
  sym_uservec :: u64
  sym_userret :: u64
  sym_kernelvec :: u64
  sym_usertrap :: u64
  sym_forkret :: u64
  sym_etext :: u64
  first_forkret :: bool
  r_sstatus :: u64
  r_sepc :: u64
  r_scause :: u64
  r_stval :: u64
  r_stvec :: u64
  r_satp :: u64
  r_sip :: u64
  r_tp :: u64
  plic_pending :: "u32 list"
  plic_regs :: "(u64 \<times> u32) list"

text \<open>Offsets in \<^verbatim>\<open>struct trapframe\<close>.\<close>

abbreviation TF_kernel_satp :: u64 where "TF_kernel_satp \<equiv> 0"
abbreviation TF_kernel_sp :: u64 where "TF_kernel_sp \<equiv> 8"
abbreviation TF_kernel_trap :: u64 where "TF_kernel_trap \<equiv> 16"
abbreviation TF_epc :: u64 where "TF_epc \<equiv> 24"
abbreviation TF_kernel_hartid :: u64 where "TF_kernel_hartid \<equiv> 32"
abbreviation TF_sp :: u64 where "TF_sp \<equiv> 48"
abbreviation TF_a0 :: u64 where "TF_a0 \<equiv> 112"
abbreviation TF_a1 :: u64 where "TF_a1 \<equiv> 120"
abbreviation TF_a7 :: u64 where "TF_a7 \<equiv> 168"
abbreviation TF_size :: nat where "TF_size \<equiv> 288"

definition tf_get :: "nat \<Rightarrow> u64 \<Rightarrow> ('x ptab_scheme, u64) K" where
  "tf_get p off = bnd (getp p p_trapframe) (\<lambda>tf. ldk (tf + off))"

definition tf_set :: "nat \<Rightarrow> u64 \<Rightarrow> u64 \<Rightarrow> ('x ptab_scheme, unit) K" where
  "tf_set p off v = bnd (getp p p_trapframe) (\<lambda>tf. stk (tf + off) v)"

section \<open>Allocation\<close>

definition procinit :: "('x ptab_scheme, unit) K" where
  "procinit =
     thn (initlk LkPid) (
     thn (initlk LkWait)
         (eachk (\<lambda>p.
            thn (initlk (LkProc p))
                (modp p (p_kstack_update (\<lambda>_. KSTACK p)))) [0..<NPROC]))"

definition proc_pagetable :: "nat \<Rightarrow> ('x kern_scheme, u64) K" where
  "proc_pagetable p =
     bnd uvmcreate (\<lambda>pagetable.
     if pagetable = 0 then ret 0 else
     bnd (bnd (getk sym_trampoline) (\<lambda>t. mappages pagetable TRAMPOLINE PGSIZE t (PTE_R OR PTE_X))) (\<lambda>r.
     if r < 0 then thn (uvmfree pagetable 0) (ret 0) else
     bnd (bnd (getp p p_trapframe) (\<lambda>tf. mappages pagetable TRAPFRAME PGSIZE tf (PTE_R OR PTE_W))) (\<lambda>r.
     if r < 0 then
       thn (uvmunmap pagetable TRAMPOLINE 1 False) (
       thn (uvmfree pagetable 0) (ret 0))
     else ret pagetable)))"

definition proc_freepagetable :: "u64 \<Rightarrow> u64 \<Rightarrow> ('x kmem_scheme, unit) K" where
  "proc_freepagetable pagetable sz =
     thn (uvmunmap pagetable TRAMPOLINE 1 False) (
     thn (uvmunmap pagetable TRAPFRAME 1 False)
         (uvmfree pagetable sz))"

definition freeproc :: "nat \<Rightarrow> ('x ptab_scheme, unit) K" where
  "freeproc p =
     thn (bnd (getp p p_trapframe) (\<lambda>tf. whenk (tf \<noteq> 0) (kfree tf))) (
     thn (modp p (p_trapframe_update (\<lambda>_. 0))) (
     thn (bnd (getp p (\<lambda>q. (p_pagetable q, p_sz q))) (\<lambda>(pt, sz).
            whenk (pt \<noteq> 0) (proc_freepagetable pt sz)))
     (modp p (\<lambda>q. q\<lparr>p_pagetable := 0, p_sz := 0, p_pid := 0, p_parent := None,
                    p_name := (p_name q)[0 := 0], p_chan := None, p_killed := 0,
                    p_xstate := 0, p_state := UNUSED\<rparr>))))"

definition allocproc_found :: "nat \<Rightarrow> ('x kern_scheme, nat option) K" where
  "allocproc_found p =
     thn (bnd allocpid (\<lambda>pid. modp p (p_pid_update (\<lambda>_. pid)))) (
     thn (modp p (p_state_update (\<lambda>_. USED))) (
     bnd kalloc (\<lambda>tf.
     thn (modp p (p_trapframe_update (\<lambda>_. tf))) (
     if tf = 0 then
       thn (freeproc p) (thn (release (LkProc p)) (ret None))
     else
       bnd (proc_pagetable p) (\<lambda>pt.
       thn (modp p (p_pagetable_update (\<lambda>_. pt))) (
       if pt = 0 then
         thn (freeproc p) (thn (release (LkProc p)) (ret None))
       else
         bnd (getk sym_forkret) (\<lambda>fr.
         thn (modp p (\<lambda>q. q\<lparr>p_context := \<lparr>ctx_ra = fr, ctx_sp = p_kstack q + PGSIZE,
                                         ctx_s = replicate 12 0\<rparr>\<rparr>))
             (ret (Some p)))))))))"

fun allocproc_loop :: "nat list \<Rightarrow> ('x kern_scheme, nat option) K" where
  "allocproc_loop [] = ret None"
| "allocproc_loop (p # ps) =
     thn (acquire (LkProc p)) (
     bnd (getp p p_state) (\<lambda>st.
     if st = UNUSED then allocproc_found p
     else
       thn (release (LkProc p)) (
       thn (modp p (p_cputime_update (\<lambda>_. 0)))
           (allocproc_loop ps))))"

definition allocproc :: "('x kern_scheme, nat option) K" where
  "allocproc = allocproc_loop [0..<NPROC]"

definition initcode :: "byte list" where
  "initcode =
    [0x17, 0x05, 0x00, 0x00, 0x13, 0x05, 0x45, 0x02,
     0x97, 0x05, 0x00, 0x00, 0x93, 0x85, 0x35, 0x02,
     0x93, 0x08, 0x70, 0x00, 0x73, 0x00, 0x00, 0x00,
     0x93, 0x08, 0x20, 0x00, 0x73, 0x00, 0x00, 0x00,
     0xef, 0xf0, 0x9f, 0xff, 0x2f, 0x69, 0x6e, 0x69,
     0x74, 0x00, 0x00, 0x24, 0x00, 0x00, 0x00, 0x00,
     0x00, 0x00, 0x00, 0x00]"

text \<open>\<^verbatim>\<open>safestrcpy(p->name, src, sizeof(p->name))\<close>: the field at address 0, the source at 16.\<close>

definition copy_name :: "byte list \<Rightarrow> byte list \<Rightarrow> byte list" where
  "copy_name src old =
     get_bytes (safestrcpy (put_bytes (put_bytes (\<lambda>_. 0) 0 (take 16 old)) 16 src) 0 16 16) 0 16"

definition userinit :: "('x kern_scheme, unit) K" where
  "userinit =
     bnd allocproc (\<lambda>r.
     thn (modk (\<lambda>s. s\<lparr>initproc := r\<rparr>)) (
     case r of
       None \<Rightarrow> panic ''kerneltrap''
     | Some p \<Rightarrow>
         thn (bnd (getp p p_pagetable) (\<lambda>pt. uvminit pt initcode)) (
         thn (modp p (p_sz_update (\<lambda>_. PGSIZE))) (
         thn (tf_set p TF_epc 0) (
         thn (tf_set p TF_sp PGSIZE) (
         thn (modp p (p_name_update (copy_name (str ''initcode'')))) (
         bnd (namei (str ''/'')) (\<lambda>cwd.
         thn (modp p (p_cwd_update (\<lambda>_. cwd))) (
         thn (modp p (p_state_update (\<lambda>_. RUNNABLE)))
             (release (LkProc p)))))))))))"

definition growproc :: "int \<Rightarrow> ('x ptab_scheme, int) K" where
  "growproc n = bnd cur (\<lambda>p. bnd (getp p (\<lambda>q. q)) (\<lambda>q.
     (let sz = ucast (p_sz q) :: u32; new = ucast (sz + word_of_int n) :: u64 in
      if n > 0 then
        bnd (uvmalloc (p_pagetable q) (ucast sz) new) (\<lambda>sz.
        if (ucast sz :: u32) = 0 then ret (- 1)
        else thn (modp p (p_sz_update (\<lambda>_. ucast (ucast sz :: u32)))) (ret 0))
      else if n < 0 then
        bnd (uvmdealloc (p_pagetable q) (ucast sz) new) (\<lambda>sz.
        thn (modp p (p_sz_update (\<lambda>_. ucast (ucast sz :: u32)))) (ret 0))
      else thn (modp p (p_sz_update (\<lambda>_. ucast sz))) (ret 0))))"

section \<open>fork\<close>

definition fork_files :: "nat \<Rightarrow> nat \<Rightarrow> ('x kern_scheme, unit) K" where
  "fork_files p np = eachk (\<lambda>i.
     bnd (getp p (\<lambda>q. p_ofile q ! i)) (\<lambda>r.
     case r of
       None \<Rightarrow> ret ()
     | Some f \<Rightarrow> bnd (filedup f) (\<lambda>f. modp np (p_ofile_update (\<lambda>l. l[i := Some f]))))) [0..<NOFILE]"

definition fork :: "('x kern_scheme, int) K" where
  "fork = bnd cur (\<lambda>p.
     bnd allocproc (\<lambda>r. case r of None \<Rightarrow> ret (- 1) | Some np \<Rightarrow>
     bnd (getp p (\<lambda>q. q)) (\<lambda>q. bnd (getp np (\<lambda>q. q)) (\<lambda>nq.
     bnd (uvmcopy (p_pagetable q) (p_pagetable nq) (p_sz q)) (\<lambda>c.
     if c < 0 then thn (freeproc np) (thn (release (LkProc np)) (ret (- 1)))
     else
       thn (modp np (p_sz_update (\<lambda>_. p_sz q))) (
       thn (bnd (getk (\<lambda>s. get_bytes (mem s) (unat (p_trapframe q)) TF_size)) (putmem (p_trapframe nq))) (
       thn (tf_set np TF_a0 0) (
       thn (fork_files p np) (
       thn (case p_cwd q of
              None \<Rightarrow> panic ''kerneltrap''
            | Some c \<Rightarrow> bnd (idup c) (\<lambda>c. modp np (p_cwd_update (\<lambda>_. Some c)))) (
       thn (modp np (p_name_update (copy_name (p_name q)))) (
       bnd (getp np p_pid) (\<lambda>pid.
       thn (release (LkProc np)) (
       thn (acquire LkWait) (
       thn (modp np (p_parent_update (\<lambda>_. Some p))) (
       thn (release LkWait) (
       thn (acquire (LkProc np)) (
       thn (modp np (p_state_update (\<lambda>_. RUNNABLE))) (
       thn (release (LkProc np))
           (ret (sint pid))))))))))))))))))))"

section \<open>exit and wait\<close>

definition reparent1 :: "nat \<Rightarrow> nat \<Rightarrow> ('x ptab_scheme, unit) K" where
  "reparent1 p pp = bnd (getp pp p_parent) (\<lambda>par.
     whenk (par = Some p) (
       bnd (getk initproc) (\<lambda>ini.
       thn (modp pp (p_parent_update (\<lambda>_. ini)))
           (wakeup (map_option ChProc ini)))))"

definition reparent :: "nat \<Rightarrow> ('x ptab_scheme, unit) K" where
  "reparent p = eachk (reparent1 p) [0..<NPROC]"

definition exit_files :: "nat \<Rightarrow> ('x kern_scheme, unit) K" where
  "exit_files p = eachk (\<lambda>fd.
     bnd (getp p (\<lambda>q. p_ofile q ! fd)) (\<lambda>r.
     case r of
       None \<Rightarrow> ret ()
     | Some f \<Rightarrow>
         thn (fileclose f)
             (modp p (p_ofile_update (\<lambda>l. l[fd := None]))))) [0..<NOFILE]"

text \<open>\<open>exit_zombie\<close> is the part of \<open>exit\<close> that hands the children over and becomes a zombie.\<close>

definition exit_zombie :: "nat \<Rightarrow> u32 \<Rightarrow> ('x ptab_scheme, 'a) K" where
  "exit_zombie p status =
     thn (acquire LkWait) (
     thn (reparent p) (
     thn (bnd (getp p p_parent) (\<lambda>par. wakeup (map_option ChProc par))) (
     thn (acquire (LkProc p)) (
     thn (modp p (p_xstate_update (\<lambda>_. status))) (
     thn (modp p (p_state_update (\<lambda>_. ZOMBIE))) (
     thn (release LkWait)
         sched))))))"

definition exit :: "u32 \<Rightarrow> ('x kern_scheme, 'a) K" where
  "exit status = bnd cur (\<lambda>p. bnd (getk initproc) (\<lambda>ini.
     if Some p = ini then panic ''init exiting'' else
     thn (exit_files p) (
     thn begin_op (
     thn (bnd (getp p p_cwd) (\<lambda>c. case c of Some i \<Rightarrow> iput i | None \<Rightarrow> panic ''kerneltrap'')) (
     thn end_op (
     thn (modp p (p_cwd_update (\<lambda>_. None)))
         (exit_zombie p status)))))))"

text \<open>The result of a scan: the pid of a zombie child that was collected or -1 after a fault;
  otherwise the scan ends with the test for children, and sleeps.\<close>

fun wait_scan :: "nat \<Rightarrow> u64 \<Rightarrow> bool \<Rightarrow> nat list \<Rightarrow> ('x ptab_scheme, int) K" where
  "wait_scan p addr havekids [] =
     bnd (getp p p_killed) (\<lambda>killed.
     if \<not> havekids \<or> killed \<noteq> 0 then thn (release LkWait) (ret (- 1))
     else sleep (ChProc p) LkWait)"
| "wait_scan p addr havekids (np # nps) =
     bnd (getp np p_parent) (\<lambda>par.
     if par = Some p then
       thn (acquire (LkProc np)) (
       bnd (getp np (\<lambda>q. q)) (\<lambda>nq.
       if p_state nq = ZOMBIE then
         bnd (if addr \<noteq> 0 then
                bnd (getp p p_pagetable) (\<lambda>pt. copyout pt addr (le_bytes 4 (unat (p_xstate nq))))
              else ret 0) (\<lambda>r.
         if r < 0 then
           thn (release (LkProc np)) (thn (release LkWait) (ret (- 1)))
         else
           thn (freeproc np) (
           thn (release (LkProc np)) (
           thn (release LkWait) (ret (sint (p_pid nq))))))
       else thn (release (LkProc np)) (wait_scan p addr True nps)))
     else wait_scan p addr havekids nps)"

definition wait :: "u64 \<Rightarrow> ('x ptab_scheme, int) K" where
  "wait addr = bnd cur (\<lambda>p.
     thn (acquire LkWait) (wait_scan p addr False [0..<NPROC]))"

definition wait_wake :: "u64 \<Rightarrow> ('x ptab_scheme, int) K" where
  "wait_wake addr = bnd cur (\<lambda>p.
     thn (sleep_wake LkWait) (wait_scan p addr False [0..<NPROC]))"

fun wait2_scan :: "nat \<Rightarrow> u64 \<Rightarrow> u64 \<Rightarrow> bool \<Rightarrow> nat list \<Rightarrow> ('x ptab_scheme, int) K" where
  "wait2_scan p addr addr2 havekids [] =
     bnd (getp p p_killed) (\<lambda>killed.
     if \<not> havekids \<or> killed \<noteq> 0 then thn (release LkWait) (ret (- 1))
     else sleep (ChProc p) LkWait)"
| "wait2_scan p addr addr2 havekids (np # nps) =
     bnd (getp np p_parent) (\<lambda>par.
     if par = Some p then
       thn (acquire (LkProc np)) (
       bnd (getp np (\<lambda>q. q)) (\<lambda>nq.
       if p_state nq = ZOMBIE then
         bnd (if addr \<noteq> 0 then
                bnd (getp p p_pagetable) (\<lambda>pt. copyout pt addr (le_bytes 4 (unat (p_xstate nq))))
              else ret 0) (\<lambda>r.
         if r < 0 then
           thn (release (LkProc np)) (thn (release LkWait) (ret (- 1)))
         else
         bnd (if addr2 \<noteq> 0 then
                bnd (getp p p_pagetable) (\<lambda>pt. copyout pt addr2 (le_bytes 4 (unat (p_cputime nq))))
              else ret 0) (\<lambda>r2.
         if r2 < 0 then
           thn (release (LkProc np)) (thn (release LkWait) (ret (- 1)))
         else
           thn (freeproc np) (
           thn (release (LkProc np)) (
           thn (release LkWait) (ret (sint (p_pid nq)))))))
       else thn (release (LkProc np)) (wait2_scan p addr addr2 True nps)))
     else wait2_scan p addr addr2 havekids nps)"

definition wait2 :: "u64 \<Rightarrow> u64 \<Rightarrow> ('x ptab_scheme, int) K" where
  "wait2 addr addr2 = bnd cur (\<lambda>p.
     thn (acquire LkWait) (wait2_scan p addr addr2 False [0..<NPROC]))"

definition wait2_wake :: "u64 \<Rightarrow> u64 \<Rightarrow> ('x ptab_scheme, int) K" where
  "wait2_wake addr addr2 = bnd cur (\<lambda>p.
     thn (sleep_wake LkWait) (wait2_scan p addr addr2 False [0..<NPROC]))"

section \<open>procinfo\<close>

fun state_num :: "procstate \<Rightarrow> u32" where
  "state_num UNUSED = 0"
| "state_num USED = 1"
| "state_num SLEEPING = 2"
| "state_num RUNNABLE = 3"
| "state_num RUNNING = 4"
| "state_num ZOMBIE = 5"

text \<open>\<^verbatim>\<open>struct pstat\<close> is 56 bytes; the code assigns pid, state, size, ppid and name, and the rest
  keeps what the stack held.\<close>

definition pstat_bytes :: "proc \<Rightarrow> u32 \<Rightarrow> (nat \<Rightarrow> byte) \<Rightarrow> byte list" where
  "pstat_bytes q ppid junk =
     get_bytes junk 0 4 @ le_bytes 4 (unat (p_pid q)) @ le_bytes 4 (unat (state_num (p_state q))) @
     get_bytes junk 12 4 @ le_bytes 8 (unat (p_sz q)) @ le_bytes 4 (unat ppid) @
     take 16 (p_name q) @ get_bytes junk 44 12"

fun procinfo_loop :: "u64 \<Rightarrow> int \<Rightarrow> nat list \<Rightarrow> ('x kern_scheme, int) K" where
  "procinfo_loop addr nprocs [] = ret nprocs"
| "procinfo_loop addr nprocs (p # ps) =
     bnd (getp p (\<lambda>q. q)) (\<lambda>q.
     if p_state q = UNUSED then procinfo_loop addr nprocs ps
     else
       bnd (getk (\<lambda>s. case p_parent q of Some pp \<Rightarrow> p_pid (procs s pp) | None \<Rightarrow> 0)) (\<lambda>ppid.
       bnd (getk kjunk) (\<lambda>junk.
       bnd cur (\<lambda>me. bnd (getp me p_pagetable) (\<lambda>pt.
       bnd (copyout pt addr (pstat_bytes q ppid junk)) (\<lambda>r.
       if r < 0 then ret (- 1)
       else procinfo_loop (addr + 56) (nprocs + 1) ps))))))"

definition procinfo :: "u64 \<Rightarrow> ('x kern_scheme, int) K" where
  "procinfo addr = procinfo_loop addr 0 [0..<NPROC]"

end
