(* ===== verification/Sysproc.thy ===== *)
theory Sysproc
  imports Proc
begin

text \<open>
  The fetching of system call arguments (first half of kernel/syscall.c) and kernel/sysproc.c.
  A handler returns the 64-bit value that goes to a0; an \<^verbatim>\<open>int\<close> result is sign-extended. The tests of
  the results of \<^verbatim>\<open>argint\<close> and \<^verbatim>\<open>argaddr\<close>, which are always 0, are left out.
  The table and \<^verbatim>\<open>syscall()\<close> itself are in \<^verbatim>\<open>Syscall\<close>.
\<close>

definition fetchaddr :: "u64 \<Rightarrow> ('x ptab_scheme, u64 option) K" where
  "fetchaddr addr = bnd cur (\<lambda>p. bnd (getp p (\<lambda>q. q)) (\<lambda>q.
     if addr \<ge> p_sz q \<or> addr + 8 > p_sz q then ret None
     else bnd (copyin (p_pagetable q) addr 8) (\<lambda>(r, bs).
          if r \<noteq> 0 then ret None else ret (Some (ld64 (cbytes bs) 0)))))"

text \<open>The status and the bytes that \<^verbatim>\<open>buf\<close> got, the terminating NUL included.\<close>

definition fetchstr :: "u64 \<Rightarrow> nat \<Rightarrow> ('x ptab_scheme, int \<times> byte list) K" where
  "fetchstr addr len = bnd cur (\<lambda>p. bnd (getp p p_pagetable) (\<lambda>pt.
     bnd (copyinstr pt addr len) (\<lambda>(err, buf).
     if err < 0 then ret (err, buf)
     else ret (int (length (takeWhile (\<lambda>c. c \<noteq> 0) buf)), buf))))"

definition argraw :: "nat \<Rightarrow> ('x ptab_scheme, u64) K" where
  "argraw n = bnd cur (\<lambda>p.
     if n \<le> 5 then tf_get p (TF_a0 + 8 * of_nat n) else panic ''argraw'')"

definition argint :: "nat \<Rightarrow> ('x ptab_scheme, int) K" where
  "argint n = bnd (argraw n) (\<lambda>v. ret (sint (ucast v :: u32)))"

definition argaddr :: "nat \<Rightarrow> ('x ptab_scheme, u64) K" where
  "argaddr n = argraw n"

definition argstr :: "nat \<Rightarrow> nat \<Rightarrow> ('x ptab_scheme, int \<times> byte list) K" where
  "argstr n len = bnd (argaddr n) (\<lambda>addr. fetchstr addr len)"

definition retint :: "int \<Rightarrow> ('s, u64) K" where
  "retint r = ret (word_of_int r)"

definition sys_exit :: "('x kern_scheme, u64) K" where
  "sys_exit = bnd (argint 0) (\<lambda>n. exit (word_of_int n))"

definition sys_getpid :: "('x ptab_scheme, u64) K" where
  "sys_getpid = bnd cur (\<lambda>p. bnd (getp p p_pid) (\<lambda>pid. ret (scast pid)))"

definition sys_fork :: "('x kern_scheme, u64) K" where
  "sys_fork = bnd fork retint"

definition sys_wait :: "('x ptab_scheme, u64) K" where
  "sys_wait = bnd (argaddr 0) (\<lambda>p. bnd (wait p) retint)"

definition sys_sbrk :: "('x ptab_scheme, u64) K" where
  "sys_sbrk = bnd (argint 0) (\<lambda>n.
     bnd cur (\<lambda>p. bnd (getp p (\<lambda>q. sint (ucast (p_sz q) :: u32))) (\<lambda>addr.
     bnd (growproc n) (\<lambda>r.
     if r < 0 then retint (- 1) else retint addr))))"

definition sys_sleep_loop :: "int \<Rightarrow> u32 \<Rightarrow> ('x ptab_scheme, u64) K" where
  "sys_sleep_loop n ticks0 = bnd (getk ticks) (\<lambda>t.
     if t - ticks0 < word_of_int n then
       bnd cur (\<lambda>p. bnd (getp p p_killed) (\<lambda>killed.
       if killed \<noteq> 0 then thn (release LkTicks) (retint (- 1))
       else sleep ChTicks LkTicks))
     else thn (release LkTicks) (ret 0))"

definition sys_sleep :: "('x ptab_scheme, u64) K" where
  "sys_sleep = bnd (argint 0) (\<lambda>n.
     thn (acquire LkTicks) (
     bnd (getk ticks) (\<lambda>ticks0. sys_sleep_loop n ticks0)))"

definition sys_sleep_wake :: "int \<Rightarrow> u32 \<Rightarrow> ('x ptab_scheme, u64) K" where
  "sys_sleep_wake n ticks0 = thn (sleep_wake LkTicks) (sys_sleep_loop n ticks0)"

definition sys_kill :: "('x ptab_scheme, u64) K" where
  "sys_kill = bnd (argint 0) (\<lambda>pid. bnd (kill (word_of_int pid)) (\<lambda>r. ret (scast r)))"

definition sys_wait2 :: "('x ptab_scheme, u64) K" where
  "sys_wait2 = bnd (argaddr 0) (\<lambda>p. bnd (argaddr 1) (\<lambda>p2. bnd (wait2 p p2) retint))"

definition sys_getpriority :: "('x ptab_scheme, u64) K" where
  "sys_getpriority = bnd cur (\<lambda>p. bnd (getp p p_priority) (\<lambda>pr. ret (scast pr)))"

definition sys_setpriority :: "('x ptab_scheme, u64) K" where
  "sys_setpriority = bnd (argint 0) (\<lambda>priority.
     bnd cur (\<lambda>p.
     thn (modp p (p_priority_update (\<lambda>_. word_of_int priority))) (ret 0)))"

definition sys_getprocs :: "('x kern_scheme, u64) K" where
  "sys_getprocs = bnd (argaddr 0) (\<lambda>addr. bnd (procinfo addr) retint)"

end
