(* ===== verification/Exec.thy ===== *)
theory Exec
  imports Sysproc
begin

text \<open>
  kernel/exec.c and kernel/elf.h: replacing the image of the current process by a program file.
  The headers are read from the file as bytes and decoded at their C offsets. \<^verbatim>\<open>argv\<close> is the list
  of the addresses of the pages that hold the argument strings, up to the null pointer.
\<close>

definition MAXARG :: nat where
  "MAXARG = 32"

definition ELF_MAGIC :: u32 where
  "ELF_MAGIC = 0x464C457F"

definition ELF_PROG_LOAD :: u32 where
  "ELF_PROG_LOAD = 1"

record elfhdr =
  elf_magic :: u32
  elf_entry :: u64
  elf_phoff :: u64
  elf_phnum :: u16

definition elf_decode :: "byte list \<Rightarrow> elfhdr" where
  "elf_decode bs = (let d = cbytes bs in
     \<lparr>elf_magic = ld32 d 0, elf_entry = ld64 d 24, elf_phoff = ld64 d 32, elf_phnum = ld16 d 56\<rparr>)"

record proghdr =
  ph_type :: u32
  ph_off :: u64
  ph_vaddr :: u64
  ph_filesz :: u64
  ph_memsz :: u64

definition ph_decode :: "byte list \<Rightarrow> proghdr" where
  "ph_decode bs = (let d = cbytes bs in
     \<lparr>ph_type = ld32 d 0, ph_off = ld64 d 8, ph_vaddr = ld64 d 16, ph_filesz = ld64 d 32,
      ph_memsz = ld64 d 40\<rparr>)"

fun loadseg_loop :: "u64 \<Rightarrow> u64 \<Rightarrow> nat \<Rightarrow> u32 \<Rightarrow> u32 \<Rightarrow> u32 list \<Rightarrow> ('x fs_scheme, int) K" where
  "loadseg_loop pagetable va ip offset sz [] = ret 0"
| "loadseg_loop pagetable va ip offset sz (i # is) =
     bnd (walkaddr pagetable (va + ucast i)) (\<lambda>pa.
     if pa = 0 then panic ''loadseg: address should exist''
     else
       (let n = (if sz - i < 4096 then sz - i else 4096) in
        bnd (readi ip (KernDst pa) (offset + i) n) (\<lambda>(r, bs).
        if r \<noteq> int (unat n) then ret (- 1)
        else loadseg_loop pagetable va ip offset sz is)))"

definition loadseg :: "u64 \<Rightarrow> u64 \<Rightarrow> nat \<Rightarrow> u32 \<Rightarrow> u32 \<Rightarrow> ('x fs_scheme, int) K" where
  "loadseg pagetable va ip offset sz =
     loadseg_loop pagetable va ip offset sz
       (map (\<lambda>k. of_nat (4096 * k)) [0..<(unat sz + 4095) div 4096])"

text \<open>The loop over the program headers, with \<open>k\<close> of them left: whether all were loaded, and the
  size reached (which \<open>exec\<close> needs to clean up when they were not).\<close>

fun exec_load :: "u64 \<Rightarrow> nat \<Rightarrow> u32 \<Rightarrow> u64 \<Rightarrow> nat \<Rightarrow> ('x fs_scheme, bool \<times> u64) K" where
  "exec_load pagetable ip off sz 0 = ret (True, sz)"
| "exec_load pagetable ip off sz (Suc k) =
     bnd (readi ip LocalDst off 56) (\<lambda>(r, bs).
     if r \<noteq> 56 then ret (False, sz) else
     (let ph = ph_decode bs in
      if ph_type ph \<noteq> ELF_PROG_LOAD then exec_load pagetable ip (off + 56) sz k
      else if ph_memsz ph < ph_filesz ph then ret (False, sz)
      else if ph_vaddr ph + ph_memsz ph < ph_vaddr ph then ret (False, sz)
      else
        bnd (uvmalloc pagetable sz (ph_vaddr ph + ph_memsz ph)) (\<lambda>sz1.
        if sz1 = 0 then ret (False, sz)
        else if ph_vaddr ph mod PGSIZE \<noteq> 0 then ret (False, sz1)
        else
          bnd (loadseg pagetable (ph_vaddr ph) ip (ucast (ph_off ph)) (ucast (ph_filesz ph))) (\<lambda>r.
          if r < 0 then ret (False, sz1)
          else exec_load pagetable ip (off + 56) sz1 k))))"

definition exec_bad :: "u64 \<Rightarrow> u64 \<Rightarrow> nat option \<Rightarrow> ('x kern_scheme, int) K" where
  "exec_bad pagetable sz ip =
     thn (whenk (pagetable \<noteq> 0) (proc_freepagetable pagetable sz)) (
     thn (case ip of Some i \<Rightarrow> thn (iunlockput i) end_op | None \<Rightarrow> ret ())
         (ret (- 1)))"

text \<open>The loop that pushes the argument strings; \<open>ustack\<close> collects their addresses.\<close>

fun exec_args :: "u64 \<Rightarrow> u64 \<Rightarrow> u64 \<Rightarrow> u64 list \<Rightarrow> u64 list \<Rightarrow> ('x kern_scheme, (u64 \<times> u64 list) option) K" where
  "exec_args pagetable stackbase sp ustack [] = ret (Some (sp, ustack))"
| "exec_args pagetable stackbase sp ustack (a # argv) =
     (if length ustack \<ge> MAXARG then ret None else
      bnd (getk (\<lambda>s. strlen (\<lambda>k. mem s (unat a + k)))) (\<lambda>len.
      case len of
        None \<Rightarrow> panic ''undefined: unterminated argument''
      | Some n \<Rightarrow>
          (let sp = sp - of_nat (n + 1); sp = sp - sp mod 16 in
           if sp < stackbase then ret None
           else
             bnd (getk (\<lambda>s. get_bytes (mem s) (unat a) (n + 1))) (\<lambda>bs.
             bnd (copyout pagetable sp bs) (\<lambda>r.
             if r < 0 then ret None
             else exec_args pagetable stackbase sp (ustack @ [sp]) argv)))))"

definition exec_stack :: "u64 \<Rightarrow> u64 \<Rightarrow> u64 list \<Rightarrow> ('x kern_scheme, (u64 \<times> nat) option) K" where
  "exec_stack pagetable sz argv =
     (let stackbase = sz - PGSIZE in
      bnd (exec_args pagetable stackbase sz [] argv) (\<lambda>r.
      case r of
        None \<Rightarrow> ret None
      | Some (sp, ustack) \<Rightarrow>
          (let argc = length ustack; sp = sp - (of_nat argc + 1) * 8; sp = sp - sp mod 16 in
           if sp < stackbase then ret None
           else
             bnd (copyout pagetable sp (concat (map (\<lambda>v. le_bytes 8 (unat v)) (ustack @ [0])))) (\<lambda>r.
             if r < 0 then ret None else ret (Some (sp, argc))))))"

definition last_elem :: "byte list \<Rightarrow> byte list" where
  "last_elem pth = rev (takeWhile (\<lambda>c. c \<noteq> slash) (rev pth))"

text \<open>From the end of the transaction on: the stack, the arguments, and the switch to the new
  image.\<close>

definition exec_commit :: "byte list \<Rightarrow> u64 list \<Rightarrow> elfhdr \<Rightarrow> u64 \<Rightarrow> u64 \<Rightarrow> ('x kern_scheme, int) K" where
  "exec_commit pth argv elf pagetable sz =
     bnd cur (\<lambda>p. bnd (getp p p_sz) (\<lambda>oldsz.
     (let sz = PGROUNDUP sz in
      bnd (uvmalloc pagetable sz (sz + 2 * PGSIZE)) (\<lambda>sz1.
      if sz1 = 0 then exec_bad pagetable sz None
      else
        thn (uvmclear pagetable (sz1 - 2 * PGSIZE)) (
        bnd (exec_stack pagetable sz1 argv) (\<lambda>r.
        case r of
          None \<Rightarrow> exec_bad pagetable sz1 None
        | Some (sp, argc) \<Rightarrow>
            thn (tf_set p TF_a1 sp) (
            thn (modp p (p_name_update (copy_name (last_elem pth @ [0])))) (
            bnd (getp p p_pagetable) (\<lambda>oldpagetable.
            thn (modp p (p_pagetable_update (\<lambda>_. pagetable))) (
            thn (modp p (p_sz_update (\<lambda>_. sz1))) (
            thn (tf_set p TF_epc (elf_entry elf)) (
            thn (tf_set p TF_sp sp) (
            thn (proc_freepagetable oldpagetable oldsz)
                (ret (int argc)))))))))))))))"

definition exec :: "byte list \<Rightarrow> u64 list \<Rightarrow> ('x kern_scheme, int) K" where
  "exec pth argv = bnd cur (\<lambda>p.
     thn begin_op (
     bnd (namei pth) (\<lambda>r. case r of None \<Rightarrow> thn end_op (ret (- 1)) | Some ip \<Rightarrow>
     thn (ilock ip) (
     bnd (readi ip LocalDst 0 64) (\<lambda>(r, bs).
     if r \<noteq> 64 then exec_bad 0 0 (Some ip)
     else if elf_magic (elf_decode bs) \<noteq> ELF_MAGIC then exec_bad 0 0 (Some ip)
     else
       (let elf = elf_decode bs in
        bnd (proc_pagetable p) (\<lambda>pagetable.
        if pagetable = 0 then exec_bad 0 0 (Some ip)
        else
          bnd (exec_load pagetable ip (ucast (elf_phoff elf)) 0 (unat (elf_phnum elf))) (\<lambda>(ok, sz).
          if \<not> ok then exec_bad pagetable sz (Some ip)
          else
            thn (iunlockput ip) (
            thn end_op
                (exec_commit pth argv elf pagetable sz))))))))))"

end
