(* ===== verification/Sysfile.thy ===== *)
theory Sysfile
  imports Exec
begin

text \<open>
  kernel/sysfile.c: the system calls on files, directories and paths. Labels \<^verbatim>\<open>bad:\<close> are
  definitions of their own. A path argument is the bytes before the NUL of the fetched string.
\<close>

definition MAXPATH :: nat where
  "MAXPATH = 128"

definition O_WRONLY :: u32 where
  "O_WRONLY = 1"

definition O_RDWR :: u32 where
  "O_RDWR = 2"

definition O_CREATE :: u32 where
  "O_CREATE = 0x200"

definition O_TRUNC :: u32 where
  "O_TRUNC = 0x400"

text \<open>A path argument, or \<open>None\<close> when \<^verbatim>\<open>argstr\<close> fails.\<close>

definition argpath :: "nat \<Rightarrow> ('x ptab_scheme, byte list option) K" where
  "argpath n = bnd (argstr n MAXPATH) (\<lambda>(r, buf).
     ret (if r < 0 then None else Some (takeWhile (\<lambda>c. c \<noteq> 0) buf)))"

definition argfd :: "nat \<Rightarrow> ('x ptab_scheme, (nat \<times> nat) option) K" where
  "argfd n = bnd (argint n) (\<lambda>fd.
     if fd < 0 \<or> fd \<ge> int NOFILE then ret None
     else bnd cur (\<lambda>p. bnd (getp p (\<lambda>q. p_ofile q ! nat fd)) (\<lambda>f.
          case f of None \<Rightarrow> ret None | Some f \<Rightarrow> ret (Some (nat fd, f)))))"

definition fdalloc :: "nat \<Rightarrow> ('x ptab_scheme, nat option) K" where
  "fdalloc f = bnd cur (\<lambda>p. bnd (getp p p_ofile) (\<lambda>l.
     case first_idx (\<lambda>fd. l ! fd = None) NOFILE of
       Some fd \<Rightarrow> thn (modp p (p_ofile_update (\<lambda>l. l[fd := Some f]))) (ret (Some fd))
     | None \<Rightarrow> ret None))"

definition fail :: "('s, u64) K" where
  "fail = retint (- 1)"

definition sys_dup :: "('x kern_scheme, u64) K" where
  "sys_dup = bnd (argfd 0) (\<lambda>r. case r of None \<Rightarrow> fail | Some (_, f) \<Rightarrow>
     bnd (fdalloc f) (\<lambda>r. case r of None \<Rightarrow> fail | Some fd \<Rightarrow>
     thn (filedup f) (retint (int fd))))"

definition sys_read :: "('x kern_scheme, u64) K" where
  "sys_read = bnd (argfd 0) (\<lambda>r. case r of None \<Rightarrow> fail | Some (_, f) \<Rightarrow>
     bnd (argint 2) (\<lambda>n. bnd (argaddr 1) (\<lambda>p. bnd (fileread f p n) retint)))"

definition sys_write :: "('x kern_scheme, u64) K" where
  "sys_write = bnd (argfd 0) (\<lambda>r. case r of None \<Rightarrow> fail | Some (_, f) \<Rightarrow>
     bnd (argint 2) (\<lambda>n. bnd (argaddr 1) (\<lambda>p. bnd (filewrite f p n) retint)))"

definition sys_close :: "('x kern_scheme, u64) K" where
  "sys_close = bnd (argfd 0) (\<lambda>r. case r of None \<Rightarrow> fail | Some (fd, f) \<Rightarrow>
     bnd cur (\<lambda>p.
     thn (modp p (p_ofile_update (\<lambda>l. l[fd := None]))) (
     thn (fileclose f) (ret 0))))"

definition sys_fstat :: "('x kern_scheme, u64) K" where
  "sys_fstat = bnd (argfd 0) (\<lambda>r. case r of None \<Rightarrow> fail | Some (_, f) \<Rightarrow>
     bnd (argaddr 1) (\<lambda>st. bnd (filestat f st) retint))"

section \<open>link and unlink\<close>

definition sys_link_bad :: "nat \<Rightarrow> ('x kern_scheme, u64) K" where
  "sys_link_bad ip =
     thn (ilock ip) (
     thn (modi ip (i_nlink_update (\<lambda>n. n - 1))) (
     thn (iupdate ip) (
     thn (iunlockput ip) (
     thn end_op fail))))"

definition sys_link :: "('x kern_scheme, u64) K" where
  "sys_link =
     bnd (argpath 0) (\<lambda>r. case r of None \<Rightarrow> fail | Some old \<Rightarrow>
     bnd (argpath 1) (\<lambda>r. case r of None \<Rightarrow> fail | Some new \<Rightarrow>
     thn begin_op (
     bnd (namei old) (\<lambda>r. case r of None \<Rightarrow> thn end_op fail | Some ip \<Rightarrow>
     thn (ilock ip) (
     bnd (geti ip i_type) (\<lambda>t.
     if t = T_DIR then thn (iunlockput ip) (thn end_op fail)
     else
       thn (modi ip (i_nlink_update (\<lambda>n. n + 1))) (
       thn (iupdate ip) (
       thn (iunlock ip) (
       bnd (nameiparent new (replicate DIRSIZ 0)) (\<lambda>r.
       case r of None \<Rightarrow> sys_link_bad ip | Some (dp, name) \<Rightarrow>
       thn (ilock dp) (
       bnd (geti dp i_dev) (\<lambda>ddev. bnd (geti ip i_dev) (\<lambda>idev. bnd (geti ip i_inum) (\<lambda>inum.
       bnd (if ddev \<noteq> idev then ret (- 1) else dirlink dp name inum) (\<lambda>r.
       if r < 0 then thn (iunlockput dp) (sys_link_bad ip)
       else
         thn (iunlockput dp) (
         thn (iput ip) (
         thn end_op (ret 0))))))))))))))))))"

fun isdirempty_loop :: "nat \<Rightarrow> u32 list \<Rightarrow> ('x fs_scheme, bool) K" where
  "isdirempty_loop dp [] = ret True"
| "isdirempty_loop dp (off # offs) =
     bnd (readi dp LocalDst off 16) (\<lambda>(r, de).
     if r \<noteq> 16 then panic ''isdirempty: readi''
     else if de_inum de \<noteq> 0 then ret False
     else isdirempty_loop dp offs)"

definition isdirempty :: "nat \<Rightarrow> ('x fs_scheme, bool) K" where
  "isdirempty dp = bnd (geti dp i_size) (\<lambda>sz. isdirempty_loop dp (drop 2 (dir_offs sz)))"

definition sys_unlink_bad :: "nat \<Rightarrow> ('x kern_scheme, u64) K" where
  "sys_unlink_bad dp = thn (iunlockput dp) (thn end_op fail)"

text \<open>The part of \<^verbatim>\<open>sys_unlink\<close> after the checks: erase the entry, drop the links.\<close>

definition sys_unlink_do :: "nat \<Rightarrow> nat \<Rightarrow> u32 \<Rightarrow> ('x kern_scheme, u64) K" where
  "sys_unlink_do dp ip off =
     bnd (writei dp (KernSrc (replicate 16 0)) off 16) (\<lambda>r.
     if r \<noteq> 16 then panic ''unlink: writei'' else
     bnd (geti ip i_type) (\<lambda>t.
     thn (whenk (t = T_DIR) (
       thn (modi dp (i_nlink_update (\<lambda>n. n - 1)))
           (iupdate dp))) (
     thn (iunlockput dp) (
     thn (modi ip (i_nlink_update (\<lambda>n. n - 1))) (
     thn (iupdate ip) (
     thn (iunlockput ip) (
     thn end_op (ret 0))))))))"

definition sys_unlink :: "('x kern_scheme, u64) K" where
  "sys_unlink =
     bnd (argpath 0) (\<lambda>r. case r of None \<Rightarrow> fail | Some pth \<Rightarrow>
     thn begin_op (
     bnd (nameiparent pth (replicate DIRSIZ 0)) (\<lambda>r.
     case r of None \<Rightarrow> thn end_op fail | Some (dp, name) \<Rightarrow>
     thn (ilock dp) (
     if namecmp name (str ''.'') = 0 \<or> namecmp name (str ''..'') = 0 then sys_unlink_bad dp
     else
       bnd (dirlookup dp name) (\<lambda>r. case r of None \<Rightarrow> sys_unlink_bad dp | Some (ip, off) \<Rightarrow>
       thn (ilock ip) (
       bnd (geti ip (\<lambda>i. i)) (\<lambda>i.
       if sint (i_nlink i) < 1 then panic ''unlink: nlink < 1''
       else
         bnd (if i_type i = T_DIR then isdirempty ip else ret True) (\<lambda>ok.
         if \<not> ok then thn (iunlockput ip) (sys_unlink_bad dp)
         else sys_unlink_do dp ip off)))))))) "

section \<open>create and open\<close>

definition create :: "byte list \<Rightarrow> u16 \<Rightarrow> u16 \<Rightarrow> u16 \<Rightarrow> ('x fs_scheme, nat option) K" where
  "create pth type major minor =
     bnd (nameiparent pth (replicate DIRSIZ 0)) (\<lambda>r. case r of None \<Rightarrow> ret None | Some (dp, name) \<Rightarrow>
     thn (ilock dp) (
     bnd (dirlookup dp name) (\<lambda>r.
     case r of
       Some (ip, _) \<Rightarrow>
         thn (iunlockput dp) (
         thn (ilock ip) (
         bnd (geti ip i_type) (\<lambda>t.
         if type = T_FILE \<and> (t = T_FILE \<or> t = T_DEVICE) then ret (Some ip)
         else thn (iunlockput ip) (ret None))))
     | None \<Rightarrow>
         bnd (bnd (geti dp i_dev) (\<lambda>dev. ialloc dev type)) (\<lambda>ip.
         thn (ilock ip) (
         thn (modi ip (i_major_update (\<lambda>_. major))) (
         thn (modi ip (i_minor_update (\<lambda>_. minor))) (
         thn (modi ip (i_nlink_update (\<lambda>_. 1))) (
         thn (iupdate ip) (
         bnd (geti ip i_inum) (\<lambda>inum. bnd (geti dp i_inum) (\<lambda>dinum.
         thn (whenk (type = T_DIR) (
           thn (modi dp (i_nlink_update (\<lambda>n. n + 1))) (
           thn (iupdate dp) (
           bnd (dirlink ip (str ''.'') inum) (\<lambda>r.
           bnd (if r < 0 then ret (- 1) else dirlink ip (str ''..'') dinum) (\<lambda>r.
           whenk (r < 0) (panic ''create dots'')))))))
         (bnd (dirlink dp name inum) (\<lambda>r.
          if r < 0 then panic ''create: dirlink''
          else thn (iunlockput dp) (ret (Some ip)))))))))))))))"

definition open_bad :: "nat \<Rightarrow> ('x kern_scheme, u64) K" where
  "open_bad ip = thn (iunlockput ip) (thn end_op fail)"

text \<open>\<^verbatim>\<open>sys_open\<close> once it has a locked inode.\<close>

definition open_inode :: "nat \<Rightarrow> u32 \<Rightarrow> ('x kern_scheme, u64) K" where
  "open_inode ip omode = bnd (geti ip (\<lambda>i. i)) (\<lambda>i.
     if i_type i = T_DEVICE \<and> (sint (i_major i) < 0 \<or> sint (i_major i) \<ge> NDEV) then open_bad ip
     else
       bnd filealloc (\<lambda>r. case r of None \<Rightarrow> open_bad ip | Some f \<Rightarrow>
       bnd (fdalloc f) (\<lambda>r. case r of None \<Rightarrow> thn (fileclose f) (open_bad ip) | Some fd \<Rightarrow>
       thn (if i_type i = T_DEVICE then
              modf f (\<lambda>g. g\<lparr>f_type := FD_DEVICE, f_major := i_major i\<rparr>)
            else modf f (\<lambda>g. g\<lparr>f_type := FD_INODE, f_off := 0\<rparr>)) (
       thn (modf f (f_ip_update (\<lambda>_. ip))) (
       thn (modf f (f_readable_update (\<lambda>_. omode AND O_WRONLY = 0))) (
       thn (modf f (f_writable_update (\<lambda>_. omode AND O_WRONLY \<noteq> 0 \<or> omode AND O_RDWR \<noteq> 0))) (
       thn (whenk (omode AND O_TRUNC \<noteq> 0 \<and> i_type i = T_FILE) (itrunc ip)) (
       thn (iunlock ip) (
       thn end_op
           (retint (int fd)))))))))))"

definition sys_open :: "('x kern_scheme, u64) K" where
  "sys_open =
     bnd (argpath 0) (\<lambda>r. case r of None \<Rightarrow> fail | Some pth \<Rightarrow>
     bnd (argint 1) (\<lambda>n. (let omode = word_of_int n in
     thn begin_op (
     if omode AND O_CREATE \<noteq> 0 then
       bnd (create pth T_FILE 0 0) (\<lambda>r. case r of None \<Rightarrow> thn end_op fail | Some ip \<Rightarrow> open_inode ip omode)
     else
       bnd (namei pth) (\<lambda>r. case r of None \<Rightarrow> thn end_op fail | Some ip \<Rightarrow>
       thn (ilock ip) (
       bnd (geti ip i_type) (\<lambda>t.
       if t = T_DIR \<and> omode \<noteq> 0 then open_bad ip
       else open_inode ip omode)))))))"

definition sys_mkdir :: "('x kern_scheme, u64) K" where
  "sys_mkdir =
     thn begin_op (
     bnd (argpath 0) (\<lambda>r. case r of None \<Rightarrow> thn end_op fail | Some pth \<Rightarrow>
     bnd (create pth T_DIR 0 0) (\<lambda>r. case r of None \<Rightarrow> thn end_op fail | Some ip \<Rightarrow>
     thn (iunlockput ip) (thn end_op (ret 0)))))"

definition sys_mknod :: "('x kern_scheme, u64) K" where
  "sys_mknod =
     thn begin_op (
     bnd (argpath 0) (\<lambda>r. case r of None \<Rightarrow> thn end_op fail | Some pth \<Rightarrow>
     bnd (argint 1) (\<lambda>major. bnd (argint 2) (\<lambda>minor.
     bnd (create pth T_DEVICE (word_of_int major) (word_of_int minor)) (\<lambda>r.
     case r of None \<Rightarrow> thn end_op fail | Some ip \<Rightarrow>
     thn (iunlockput ip) (thn end_op (ret 0)))))))"

definition sys_chdir :: "('x kern_scheme, u64) K" where
  "sys_chdir = bnd cur (\<lambda>p.
     thn begin_op (
     bnd (argpath 0) (\<lambda>r. case r of None \<Rightarrow> thn end_op fail | Some pth \<Rightarrow>
     bnd (namei pth) (\<lambda>r. case r of None \<Rightarrow> thn end_op fail | Some ip \<Rightarrow>
     thn (ilock ip) (
     bnd (geti ip i_type) (\<lambda>t.
     if t \<noteq> T_DIR then thn (iunlockput ip) (thn end_op fail)
     else
       thn (iunlock ip) (
       thn (bnd (getp p p_cwd) (\<lambda>c. case c of Some i \<Rightarrow> iput i | None \<Rightarrow> panic ''kerneltrap'')) (
       thn end_op (
       thn (modp p (p_cwd_update (\<lambda>_. Some ip)))
           (ret 0))))))))))"

section \<open>exec and pipe\<close>

text \<open>The loop of \<^verbatim>\<open>sys_exec\<close> over the indices that are left: whether all arguments were fetched,
  and the pages allocated for them.\<close>

fun sys_exec_args :: "u64 \<Rightarrow> nat list \<Rightarrow> ('x kern_scheme, bool \<times> u64 list) K" where
  "sys_exec_args uargv [] = ret (False, [])"
| "sys_exec_args uargv (i # is) =
     bnd (fetchaddr (uargv + 8 * of_nat i)) (\<lambda>r. case r of None \<Rightarrow> ret (False, []) | Some uarg \<Rightarrow>
     if uarg = 0 then ret (True, [])
     else
       bnd kalloc (\<lambda>pg.
       if pg = 0 then ret (False, [])
       else
         bnd (fetchstr uarg 4096) (\<lambda>(r, buf).
         thn (putmem pg buf) (
         if r < 0 then ret (False, [pg])
         else bnd (sys_exec_args uargv is) (\<lambda>(ok, pgs). ret (ok, pg # pgs))))))"

definition sys_exec :: "('x kern_scheme, u64) K" where
  "sys_exec =
     bnd (argpath 0) (\<lambda>r. case r of None \<Rightarrow> fail | Some pth \<Rightarrow>
     bnd (argaddr 1) (\<lambda>uargv.
     bnd (sys_exec_args uargv [0..<MAXARG]) (\<lambda>(ok, argv).
     if \<not> ok then thn (eachk kfree argv) fail
     else
       bnd (exec pth argv) (\<lambda>r.
       thn (eachk kfree argv)
           (retint r)))))"

definition pipe_close_both :: "nat \<Rightarrow> nat \<Rightarrow> ('x kern_scheme, u64) K" where
  "pipe_close_both rf wrf = thn (fileclose rf) (thn (fileclose wrf) fail)"

definition sys_pipe :: "('x kern_scheme, u64) K" where
  "sys_pipe = bnd cur (\<lambda>p.
     bnd (argaddr 0) (\<lambda>fdarray.
     bnd pipealloc (\<lambda>r. case r of None \<Rightarrow> fail | Some (rf, wrf) \<Rightarrow>
     bnd (fdalloc rf) (\<lambda>r. case r of None \<Rightarrow> pipe_close_both rf wrf | Some fd0 \<Rightarrow>
     bnd (fdalloc wrf) (\<lambda>r. case r of
       None \<Rightarrow>
         thn (modp p (p_ofile_update (\<lambda>l. l[fd0 := None]))) (pipe_close_both rf wrf)
     | Some fd1 \<Rightarrow>
         bnd (getp p p_pagetable) (\<lambda>pt.
         bnd (copyout pt fdarray (le_bytes 4 fd0)) (\<lambda>r.
         bnd (if r < 0 then ret (- 1) else copyout pt (fdarray + 4) (le_bytes 4 fd1)) (\<lambda>r.
         if r < 0 then
           thn (modp p (p_ofile_update (\<lambda>l. l[fd0 := None]))) (
           thn (modp p (p_ofile_update (\<lambda>l. l[fd1 := None])))
               (pipe_close_both rf wrf))
         else ret 0))))))))"

end
