(* ===== verification/Syscall.thy ===== *)
theory Syscall
  imports Sysfile
begin

text \<open>
  The second half of kernel/syscall.c and kernel/syscall.h: the numbers of the system calls, the
  table of handlers and the dispatcher.
\<close>

definition syscalls :: "nat \<Rightarrow> ('x kern_scheme, u64) K option" where
  "syscalls num =
     (if num = 1 then Some sys_fork
      else if num = 2 then Some sys_exit
      else if num = 3 then Some sys_wait
      else if num = 4 then Some sys_pipe
      else if num = 5 then Some sys_read
      else if num = 6 then Some sys_kill
      else if num = 7 then Some sys_exec
      else if num = 8 then Some sys_fstat
      else if num = 9 then Some sys_chdir
      else if num = 10 then Some sys_dup
      else if num = 11 then Some sys_getpid
      else if num = 12 then Some sys_sbrk
      else if num = 13 then Some sys_sleep
      else if num = 14 then Some sys_uptime
      else if num = 15 then Some sys_open
      else if num = 16 then Some sys_write
      else if num = 17 then Some sys_mknod
      else if num = 18 then Some sys_unlink
      else if num = 19 then Some sys_link
      else if num = 20 then Some sys_mkdir
      else if num = 21 then Some sys_close
      else if num = 22 then Some sys_wait2
      else if num = 23 then Some sys_getprocs
      else if num = 24 then Some sys_getpriority
      else if num = 25 then Some sys_setpriority
      else None)"

definition NELEM_syscalls :: int where
  "NELEM_syscalls = 26"

definition syscall :: "('x kern_scheme, unit) K" where
  "syscall = bnd cur (\<lambda>p.
     bnd (tf_get p TF_a7) (\<lambda>a7.
     (let num = sint (ucast a7 :: u32) in
      case (if num > 0 \<and> num < NELEM_syscalls then syscalls (nat num) else None) of
        Some handler \<Rightarrow> bnd handler (\<lambda>r. tf_set p TF_a0 r)
      | None \<Rightarrow>
          bnd (getp p (\<lambda>q. q)) (\<lambda>q.
          thn (printf (str (''%d %s: unknown sys call %d'' @ [CHR 0x0A]))
                 [AInt (p_pid q), AStr (Some (takeWhile (\<lambda>c. c \<noteq> 0) (p_name q))),
                  AInt (word_of_int num)])
              (tf_set p TF_a0 (- 1))))))"

end
