(* ===== verification/Virtio.thy ===== *)
theory Virtio
  imports Syscall
begin

text \<open>
  kernel/virtio_disk.c and kernel/virtio.h: the disk driver. Theory \<^verbatim>\<open>Bio\<close> sees a disk transfer as one
  step; here is the driver with its descriptors, rings and sleeps. An address in a descriptor is
  one of the three kinds of object the driver points to. The routine
  \<^verbatim>\<open>virtio_disk_rw\<close> is \<open>virtio_rw\<close> up to the first sleep; \<open>virtio_rw_alloc_wake\<close> continues after waiting
  for descriptors, \<open>virtio_rw_wake\<close> after waiting for the device.
  The device is not part of the kernel: its registers are \<open>vd_mmio\<close>, its used ring \<open>vd_used\<close>.
\<close>

definition NUM :: nat where
  "NUM = 8"

datatype daddr = DNull | DOps nat | DData nat | DStatus nat

record virtq_desc =
  vq_addr :: daddr
  vq_len :: u32
  vq_flags :: u16
  vq_next :: u16

definition VRING_DESC_F_NEXT :: u16 where
  "VRING_DESC_F_NEXT = 1"

definition VRING_DESC_F_WRITE :: u16 where
  "VRING_DESC_F_WRITE = 2"

record virtio_blk_req =
  vr_type :: u32
  vr_reserved :: u32
  vr_sector :: u64

record virtq_used_elem =
  ue_id :: u32
  ue_len :: u32

record virtio = kern +
  vd_desc :: "nat \<Rightarrow> virtq_desc"
  vd_avail_idx :: u16
  vd_avail :: "nat \<Rightarrow> u16"
  vd_used_ring_idx :: u16
  vd_used :: "nat \<Rightarrow> virtq_used_elem"
  vd_free :: "nat \<Rightarrow> bool"
  vd_used_idx :: u16
  vd_info_b :: "nat \<Rightarrow> nat option"
  vd_info_status :: "nat \<Rightarrow> byte"
  vd_ops :: "nat \<Rightarrow> virtio_blk_req"
  vd_mmio :: "nat \<Rightarrow> u32"
  b_disk :: "nat \<Rightarrow> bool"
  sym_disk_pages :: u64

section \<open>Descriptors\<close>

definition moddesc :: "nat \<Rightarrow> (virtq_desc \<Rightarrow> virtq_desc) \<Rightarrow> ('x virtio_scheme, unit) K" where
  "moddesc i f = modk (\<lambda>s. s\<lparr>vd_desc := (vd_desc s)(i := f (vd_desc s i))\<rparr>)"

definition alloc_desc :: "('x virtio_scheme, nat option) K" where
  "alloc_desc = bnd (getk (\<lambda>s. first_idx (vd_free s) NUM)) (\<lambda>r.
     case r of
       Some i \<Rightarrow> thn (modk (\<lambda>s. s\<lparr>vd_free := (vd_free s)(i := False)\<rparr>)) (ret (Some i))
     | None \<Rightarrow> ret None)"

definition free_desc :: "nat \<Rightarrow> ('x virtio_scheme, unit) K" where
  "free_desc i =
     (if i \<ge> NUM then panic ''free_desc 1'' else
      bnd (getk (\<lambda>s. vd_free s i)) (\<lambda>f.
      if f then panic ''free_desc 2''
      else
        thn (moddesc i (\<lambda>d. d\<lparr>vq_addr := DNull, vq_len := 0, vq_flags := 0, vq_next := 0\<rparr>)) (
        thn (modk (\<lambda>s. s\<lparr>vd_free := (vd_free s)(i := True)\<rparr>))
            (wakeup (Some ChDiskFree)))))"

text \<open>A chain has at most NUM links: freeing a descriptor twice is a panic.\<close>

fun free_chain :: "nat \<Rightarrow> nat \<Rightarrow> ('x virtio_scheme, unit) K" where
  "free_chain 0 i = panic ''free_desc 2''"
| "free_chain (Suc k) i = bnd (getk (\<lambda>s. vd_desc s i)) (\<lambda>d.
     thn (free_desc i)
     (whenk (vq_flags d AND VRING_DESC_F_NEXT \<noteq> 0) (free_chain k (unat (vq_next d)))))"

definition alloc3_desc :: "('x virtio_scheme, (nat \<times> nat \<times> nat) option) K" where
  "alloc3_desc =
     bnd alloc_desc (\<lambda>r0. case r0 of None \<Rightarrow> ret None | Some i0 \<Rightarrow>
     bnd alloc_desc (\<lambda>r1. case r1 of
       None \<Rightarrow> thn (free_desc i0) (ret None)
     | Some i1 \<Rightarrow>
         bnd alloc_desc (\<lambda>r2. case r2 of
           None \<Rightarrow> thn (free_desc i0) (thn (free_desc i1) (ret None))
         | Some i2 \<Rightarrow> ret (Some (i0, i1, i2)))))"

section \<open>Requests\<close>

text \<open>The sector number is computed in 32 bits and then widened.\<close>

definition rw_sector :: "u32 \<Rightarrow> u64" where
  "rw_sector blockno = ucast (blockno * (of_nat BSIZE div 512))"

definition virtio_rw_submit :: "nat \<Rightarrow> bool \<Rightarrow> nat \<Rightarrow> nat \<Rightarrow> nat \<Rightarrow> ('x virtio_scheme, unit) K" where
  "virtio_rw_submit b write i0 i1 i2 =
     bnd (getb b b_blockno) (\<lambda>blockno.
     thn (modk (\<lambda>s. s\<lparr>vd_ops := (vd_ops s)(i0 := \<lparr>vr_type = (if write then 1 else 0),
            vr_reserved = 0, vr_sector = rw_sector blockno\<rparr>)\<rparr>)) (
     thn (moddesc i0 (\<lambda>d. d\<lparr>vq_addr := DOps i0, vq_len := 16, vq_flags := VRING_DESC_F_NEXT,
            vq_next := of_nat i1\<rparr>)) (
     thn (moddesc i1 (\<lambda>d. d\<lparr>vq_addr := DData b, vq_len := of_nat BSIZE,
            vq_flags := (if write then 0 else VRING_DESC_F_WRITE) OR VRING_DESC_F_NEXT,
            vq_next := of_nat i2\<rparr>)) (
     thn (modk (\<lambda>s. s\<lparr>vd_info_status := (vd_info_status s)(i0 := 0xff)\<rparr>)) (
     thn (moddesc i2 (\<lambda>d. d\<lparr>vq_addr := DStatus i0, vq_len := 1, vq_flags := VRING_DESC_F_WRITE,
            vq_next := 0\<rparr>)) (
     thn (modk (\<lambda>s. s\<lparr>b_disk := (b_disk s)(b := True)\<rparr>)) (
     thn (modk (\<lambda>s. s\<lparr>vd_info_b := (vd_info_b s)(i0 := Some b)\<rparr>)) (
     thn (modk (\<lambda>s. s\<lparr>vd_avail := (vd_avail s)(unat (vd_avail_idx s) mod NUM := of_nat i0)\<rparr>)) (
     thn (modk (\<lambda>s. s\<lparr>vd_avail_idx := vd_avail_idx s + 1\<rparr>))
         (modk (\<lambda>s. s\<lparr>vd_mmio := (vd_mmio s)(0x50 := 0)\<rparr>)))))))))))"

text \<open>From the test \<^verbatim>\<open>while (b->disk == 1)\<close> on.\<close>

definition virtio_rw_wait :: "nat \<Rightarrow> nat \<Rightarrow> ('x virtio_scheme, unit) K" where
  "virtio_rw_wait b i0 = bnd (getk (\<lambda>s. b_disk s b)) (\<lambda>busy.
     if busy then sleep (ChBuf b) LkVdisk
     else
       thn (modk (\<lambda>s. s\<lparr>vd_info_b := (vd_info_b s)(i0 := None)\<rparr>)) (
       thn (free_chain NUM i0)
           (release LkVdisk)))"

definition virtio_rw_wake :: "nat \<Rightarrow> nat \<Rightarrow> ('x virtio_scheme, unit) K" where
  "virtio_rw_wake b i0 = thn (sleep_wake LkVdisk) (virtio_rw_wait b i0)"

definition virtio_rw_alloc :: "nat \<Rightarrow> bool \<Rightarrow> ('x virtio_scheme, unit) K" where
  "virtio_rw_alloc b write = bnd alloc3_desc (\<lambda>r.
     case r of
       None \<Rightarrow> sleep ChDiskFree LkVdisk
     | Some (i0, i1, i2) \<Rightarrow>
         thn (virtio_rw_submit b write i0 i1 i2)
             (virtio_rw_wait b i0))"

definition virtio_rw :: "nat \<Rightarrow> bool \<Rightarrow> ('x virtio_scheme, unit) K" where
  "virtio_rw b write = thn (acquire LkVdisk) (virtio_rw_alloc b write)"

definition virtio_rw_alloc_wake :: "nat \<Rightarrow> bool \<Rightarrow> ('x virtio_scheme, unit) K" where
  "virtio_rw_alloc_wake b write = thn (sleep_wake LkVdisk) (virtio_rw_alloc b write)"

section \<open>Completion\<close>

text \<open>One turn for every entry the device has added to the used ring.\<close>

fun virtio_intr_loop :: "nat \<Rightarrow> ('x virtio_scheme, unit) K" where
  "virtio_intr_loop 0 = ret ()"
| "virtio_intr_loop (Suc n) =
     bnd (getk (\<lambda>s. unat (ue_id (vd_used s (unat (vd_used_idx s) mod NUM))))) (\<lambda>id.
     bnd (getk (\<lambda>s. (vd_info_status s id, vd_info_b s id))) (\<lambda>(status, b).
     if status \<noteq> 0 then panic ''virtio_disk_intr status''
     else
       case b of
         None \<Rightarrow> panic ''kerneltrap''
       | Some b \<Rightarrow>
           thn (modk (\<lambda>s. s\<lparr>b_disk := (b_disk s)(b := False)\<rparr>)) (
           thn (wakeup (Some (ChBuf b))) (
           thn (modk (\<lambda>s. s\<lparr>vd_used_idx := vd_used_idx s + 1\<rparr>))
               (virtio_intr_loop n)))))"

definition virtio_disk_intr :: "('x virtio_scheme, unit) K" where
  "virtio_disk_intr =
     thn (acquire LkVdisk) (
     thn (modk (\<lambda>s. s\<lparr>vd_mmio := (vd_mmio s)(0x64 := vd_mmio s 0x60 AND 3)\<rparr>)) (
     thn (bnd (getk (\<lambda>s. unat (vd_used_ring_idx s - vd_used_idx s))) virtio_intr_loop)
         (release LkVdisk)))"

section \<open>Initialisation\<close>

definition mmio :: "nat \<Rightarrow> u32 \<Rightarrow> ('x virtio_scheme, unit) K" where
  "mmio r v = modk (\<lambda>s. s\<lparr>vd_mmio := (vd_mmio s)(r := v)\<rparr>)"

definition driver_features :: "u32 \<Rightarrow> u32" where
  "driver_features features = features AND NOT (push_bit 5 1) AND NOT (push_bit 7 1)
     AND NOT (push_bit 11 1) AND NOT (push_bit 12 1) AND NOT (push_bit 27 1)
     AND NOT (push_bit 29 1) AND NOT (push_bit 28 1)"

definition virtio_disk_init :: "('x virtio_scheme, unit) K" where
  "virtio_disk_init =
     thn (initlk LkVdisk) (
     bnd (getk vd_mmio) (\<lambda>R.
     if R 0 \<noteq> 0x74726976 \<or> R 4 \<noteq> 1 \<or> R 8 \<noteq> 2 \<or> R 0xc \<noteq> 0x554d4551
     then panic ''could not find virtio disk''
     else
       thn (mmio 0x70 1) (
       thn (mmio 0x70 3) (
       thn (mmio 0x20 (driver_features (R 0x10))) (
       thn (mmio 0x70 11) (
       thn (mmio 0x70 15) (
       thn (mmio 0x28 (ucast PGSIZE)) (
       thn (mmio 0x30 0) (
       bnd (getk (\<lambda>s. vd_mmio s 0x34)) (\<lambda>len.
       if len = 0 then panic ''virtio disk has no queue 0''
       else if len < of_nat NUM then panic ''virtio disk max queue too short''
       else
         thn (mmio 0x38 (of_nat NUM)) (
         thn (modk (\<lambda>s. s\<lparr>vd_desc := (\<lambda>_. \<lparr>vq_addr = DNull, vq_len = 0, vq_flags = 0, vq_next = 0\<rparr>),
                vd_avail_idx := 0, vd_avail := (\<lambda>_. 0), vd_used_ring_idx := 0,
                vd_used := (\<lambda>_. \<lparr>ue_id = 0, ue_len = 0\<rparr>)\<rparr>)) (
         thn (bnd (getk (\<lambda>s. ucast (drop_bit 12 (sym_disk_pages s)))) (mmio 0x40))
             (eachk (\<lambda>i. modk (\<lambda>s. s\<lparr>vd_free := (vd_free s)(i := True)\<rparr>)) [0..<NUM])))))))))))))"

end
