(* ===== verification/Trap.thy ===== *)
theory Trap
  imports Virtio
begin

text \<open>
  kernel/trap.c, kernel/plic.c and \<^verbatim>\<open>forkret\<close> of kernel/proc.c: entering and leaving the kernel. A
  trap handler that calls \<^verbatim>\<open>yield\<close> is in two parts, \<open>usertrap\<close> and \<open>usertrap_wake\<close>, \<open>kerneltrap\<close> and
  \<open>kerneltrap_wake\<close>. The result of \<open>usertrapret\<close> is the pair of arguments it passes to the assembly
  routine \<^verbatim>\<open>userret\<close>, which enters user mode. The interrupt controller is the list of pending
  interrupt numbers and the sequence of register writes.
\<close>

definition SSTATUS_SPP :: u64 where
  "SSTATUS_SPP = push_bit 8 1"

definition SSTATUS_SPIE :: u64 where
  "SSTATUS_SPIE = push_bit 5 1"

definition SSTATUS_SIE :: u64 where
  "SSTATUS_SIE = push_bit 1 1"

definition MAKE_SATP :: "u64 \<Rightarrow> u64" where
  "MAKE_SATP pagetable = push_bit 60 8 OR drop_bit 12 pagetable"

definition sintr_on :: "('x kern_scheme, unit) K" where
  "sintr_on = modk (\<lambda>s. s\<lparr>r_sstatus := r_sstatus s OR SSTATUS_SIE\<rparr>)"

definition sintr_off :: "('x kern_scheme, unit) K" where
  "sintr_off = modk (\<lambda>s. s\<lparr>r_sstatus := r_sstatus s AND NOT SSTATUS_SIE\<rparr>)"

section \<open>plic.c\<close>

definition plic_write :: "u64 \<Rightarrow> u32 \<Rightarrow> ('x kern_scheme, unit) K" where
  "plic_write a v = modk (\<lambda>s. s\<lparr>plic_regs := plic_regs s @ [(a, v)]\<rparr>)"

definition plicinit :: "('x kern_scheme, unit) K" where
  "plicinit =
     thn (plic_write (PLIC + 10 * 4) 1)
         (plic_write (PLIC + 1 * 4) 1)"

definition PLIC_SENABLE :: "u64 \<Rightarrow> u64" where
  "PLIC_SENABLE hart = PLIC + 0x2080 + hart * 0x100"

definition PLIC_SPRIORITY :: "u64 \<Rightarrow> u64" where
  "PLIC_SPRIORITY hart = PLIC + 0x201000 + hart * 0x2000"

definition PLIC_SCLAIM :: "u64 \<Rightarrow> u64" where
  "PLIC_SCLAIM hart = PLIC + 0x201004 + hart * 0x2000"

definition plicinithart :: "('x kern_scheme, unit) K" where
  "plicinithart = bnd (getk r_tp) (\<lambda>hart.
     thn (plic_write (PLIC_SENABLE hart) (push_bit 10 1 OR push_bit 1 1))
         (plic_write (PLIC_SPRIORITY hart) 0))"

text \<open>Reading the claim register takes the pending interrupt; 0 means none.\<close>

definition plic_claim :: "('x kern_scheme, u32) K" where
  "plic_claim = bnd (getk plic_pending) (\<lambda>l.
     case l of
       [] \<Rightarrow> ret 0
     | irq # rest \<Rightarrow> thn (modk (\<lambda>s. s\<lparr>plic_pending := rest\<rparr>)) (ret irq))"

definition plic_complete :: "u32 \<Rightarrow> ('x kern_scheme, unit) K" where
  "plic_complete irq = bnd (getk r_tp) (\<lambda>hart. plic_write (PLIC_SCLAIM hart) irq)"

section \<open>trap.c\<close>

definition trapinit :: "('x kern_scheme, unit) K" where
  "trapinit = initlk LkTicks"

definition trapinithart :: "('x kern_scheme, unit) K" where
  "trapinithart = modk (\<lambda>s. s\<lparr>r_stvec := sym_kernelvec s\<rparr>)"

definition clockintr :: "('x ptab_scheme, unit) K" where
  "clockintr =
     thn (acquire LkTicks) (
     thn (modk (\<lambda>s. s\<lparr>ticks := ticks s + 1\<rparr>)) (
     thn (wakeup (Some ChTicks))
         (release LkTicks)))"

definition devintr :: "('x virtio_scheme, int) K" where
  "devintr = bnd (getk r_scause) (\<lambda>scause.
     if scause AND 0x8000000000000000 \<noteq> 0 \<and> scause AND 0xff = 9 then
       bnd plic_claim (\<lambda>irq.
       thn (if irq = 10 then uartintr
            else if irq = 1 then virtio_disk_intr
            else whenk (irq \<noteq> 0)
              (printf (str (''unexpected interrupt irq=%d'' @ [CHR 0x0A])) [AInt irq])) (
       thn (whenk (irq \<noteq> 0) (plic_complete irq))
           (ret 1)))
     else if scause = 0x8000000000000001 then
       bnd (getk r_tp) (\<lambda>hart.
       thn (whenk (hart = 0) clockintr) (
       thn (modk (\<lambda>s. s\<lparr>r_sip := r_sip s AND NOT 2\<rparr>))
           (ret 2)))
     else ret 0)"

definition usertrapret :: "('x kern_scheme, u64 \<times> u64) K" where
  "usertrapret = bnd cur (\<lambda>p.
     thn sintr_off (
     thn (modk (\<lambda>s. s\<lparr>r_stvec := TRAMPOLINE + (sym_uservec s - sym_trampoline s)\<rparr>)) (
     thn (bnd (getk r_satp) (tf_set p TF_kernel_satp)) (
     thn (bnd (getp p (\<lambda>q. p_kstack q + PGSIZE)) (tf_set p TF_kernel_sp)) (
     thn (bnd (getk sym_usertrap) (tf_set p TF_kernel_trap)) (
     thn (bnd (getk r_tp) (tf_set p TF_kernel_hartid)) (
     thn (modk (\<lambda>s. s\<lparr>r_sstatus := (r_sstatus s AND NOT SSTATUS_SPP) OR SSTATUS_SPIE\<rparr>)) (
     thn (bnd (tf_get p TF_epc) (\<lambda>epc. modk (\<lambda>s. s\<lparr>r_sepc := epc\<rparr>))) (
     bnd (getp p p_pagetable) (\<lambda>pt.
     ret (TRAPFRAME, MAKE_SATP pt)))))))))))"

definition usertrap_killed :: "nat \<Rightarrow> ('x kern_scheme, unit) K" where
  "usertrap_killed p = bnd (getp p p_killed) (\<lambda>killed. whenk (killed \<noteq> 0) (exit (- 1)))"

text \<open>Up to the switch of \<^verbatim>\<open>yield()\<close>. The statement after \<^verbatim>\<open>if(which_dev == 2)\<close> is the increment of the
  CPU time alone; \<^verbatim>\<open>yield()\<close> is the next statement.\<close>

definition usertrap :: "('x virtio_scheme, unit) K" where
  "usertrap = bnd (getk r_sstatus) (\<lambda>sstatus.
     if sstatus AND SSTATUS_SPP \<noteq> 0 then panic ''usertrap: not from user mode'' else
     thn (modk (\<lambda>s. s\<lparr>r_stvec := sym_kernelvec s\<rparr>)) (
     bnd cur (\<lambda>p.
     thn (bnd (getk r_sepc) (tf_set p TF_epc)) (
     bnd (bnd (getk r_scause) (\<lambda>scause.
       if scause = 8 then
         thn (usertrap_killed p) (
         thn (bnd (tf_get p TF_epc) (\<lambda>epc. tf_set p TF_epc (epc + 4))) (
         thn sintr_on (
         thn syscall (ret 0))))
       else
         bnd devintr (\<lambda>which_dev.
         if which_dev \<noteq> 0 then ret which_dev
         else
           bnd (getk (\<lambda>s. s)) (\<lambda>s.
           thn (printf (str (''usertrap(): unexpected scause %p pid=%d'' @ [CHR 0x0A]))
                  [APtr scause, AInt (p_pid (procs s p))]) (
           thn (printf (str (''            sepc=%p stval=%p'' @ [CHR 0x0A]))
                  [APtr (r_sepc s), APtr (r_stval s)]) (
           thn (modp p (p_killed_update (\<lambda>_. 1)))
               (ret 0))))))) (\<lambda>which_dev.
     thn (usertrap_killed p) (
     thn (whenk (which_dev = 2) (modp p (p_cputime_update (\<lambda>c. c + 1))))
         yield))))))"

definition usertrap_wake :: "('x kern_scheme, u64 \<times> u64) K" where
  "usertrap_wake = thn yield_wake usertrapret"

definition kerneltrap_wake :: "u64 \<Rightarrow> u64 \<Rightarrow> ('x kern_scheme, unit) K" where
  "kerneltrap_wake sepc sstatus =
     thn (modk (\<lambda>s. s\<lparr>r_sepc := sepc\<rparr>))
         (modk (\<lambda>s. s\<lparr>r_sstatus := sstatus\<rparr>))"

definition kerneltrap :: "('x virtio_scheme, unit) K" where
  "kerneltrap = bnd (getk (\<lambda>s. (r_sepc s, r_sstatus s, r_scause s))) (\<lambda>(sepc, sstatus, scause).
     if sstatus AND SSTATUS_SPP = 0 then panic ''kerneltrap: not from supervisor mode''
     else if sstatus AND SSTATUS_SIE \<noteq> 0 then panic ''kerneltrap: interrupts enabled''
     else
       bnd devintr (\<lambda>which_dev.
       if which_dev = 0 then
         thn (printf (str (''scause %p'' @ [CHR 0x0A])) [APtr scause]) (
         bnd (getk (\<lambda>s. (r_sepc s, r_stval s))) (\<lambda>(e, v).
         thn (printf (str (''sepc=%p stval=%p'' @ [CHR 0x0A])) [APtr e, APtr v])
             (panic ''kerneltrap'')))
       else
         bnd myproc (\<lambda>me.
         case me of
           None \<Rightarrow> kerneltrap_wake sepc sstatus
         | Some p \<Rightarrow>
             bnd (getp p p_state) (\<lambda>st.
             if which_dev = 2 \<and> st = RUNNING then
               thn (modp p (p_cputime_update (\<lambda>c. c + 1))) yield
             else kerneltrap_wake sepc sstatus))))"

section \<open>forkret\<close>

definition forkret :: "('x kern_scheme, u64 \<times> u64) K" where
  "forkret =
     thn (bnd cur (\<lambda>p. release (LkProc p))) (
     thn (bnd (getk first_forkret) (\<lambda>first.
          whenk first (
            thn (modk (\<lambda>s. s\<lparr>first_forkret := False\<rparr>))
                (fsinit ROOTDEV))))
     usertrapret)"

end
