(* ===== verification/Boot.thy ===== *)
theory Boot
  imports Trap
begin

text \<open>
  kernel/start.c and kernel/main.c, and \<^verbatim>\<open>kvminit\<close> and \<^verbatim>\<open>kvminithart\<close> of kernel/vm.c: from machine mode to
  the scheduler. The machine-mode registers are the record \<open>mregs\<close>; \<^verbatim>\<open>main\<close> is modelled up to its call
  of \<^verbatim>\<open>scheduler\<close>, whose turns are in theory \<^verbatim>\<open>Ptab\<close>.
\<close>

section \<open>start.c\<close>

record mregs =
  m_mstatus :: u64
  m_mepc :: u64
  m_satp :: u64
  m_medeleg :: u64
  m_mideleg :: u64
  m_sie :: u64
  m_pmpaddr0 :: u64
  m_pmpcfg0 :: u64
  m_mscratch :: u64
  m_mtvec :: u64
  m_mie :: u64
  m_mhartid :: u64
  m_tp :: u64
  m_mtime :: u64
  m_mtimecmp :: "u64 \<Rightarrow> u64"
  m_scratch :: "u64 \<Rightarrow> nat \<Rightarrow> u64"

definition MSTATUS_MPP_MASK :: u64 where
  "MSTATUS_MPP_MASK = push_bit 11 3"

definition MSTATUS_MPP_S :: u64 where
  "MSTATUS_MPP_S = push_bit 11 1"

definition MSTATUS_MIE :: u64 where
  "MSTATUS_MIE = push_bit 3 1"

definition MIE_MTIE :: u64 where
  "MIE_MTIE = push_bit 7 1"

definition CLINT_MTIMECMP :: "u64 \<Rightarrow> u64" where
  "CLINT_MTIMECMP hartid = 0x2000000 + 0x4000 + 8 * hartid"

text \<open>\<open>timervec\<close> and the array \<open>timer_scratch\<close> are at addresses of the linker's choice; a row of the
  array is five 64-bit words.\<close>

definition timerinit :: "u64 \<Rightarrow> u64 \<Rightarrow> mregs \<Rightarrow> mregs" where
  "timerinit timervec timer_scratch m =
     (let id = m_mhartid m; interval = 1000000;
          m = m\<lparr>m_mtimecmp := (m_mtimecmp m)(id := m_mtime m + interval)\<rparr>;
          m = m\<lparr>m_scratch := (m_scratch m)(id := (m_scratch m id)(3 := CLINT_MTIMECMP id, 4 := interval))\<rparr>;
          m = m\<lparr>m_mscratch := timer_scratch + 40 * id\<rparr>;
          m = m\<lparr>m_mtvec := timervec\<rparr>;
          m = m\<lparr>m_mstatus := m_mstatus m OR MSTATUS_MIE\<rparr>
      in m\<lparr>m_mie := m_mie m OR MIE_MTIE\<rparr>)"

definition start :: "u64 \<Rightarrow> u64 \<Rightarrow> u64 \<Rightarrow> mregs \<Rightarrow> mregs" where
  "start main timervec timer_scratch m =
     (let m = m\<lparr>m_mstatus := (m_mstatus m AND NOT MSTATUS_MPP_MASK) OR MSTATUS_MPP_S\<rparr>;
          m = m\<lparr>m_mepc := main\<rparr>;
          m = m\<lparr>m_satp := 0\<rparr>;
          m = m\<lparr>m_medeleg := 0xffff, m_mideleg := 0xffff\<rparr>;
          m = m\<lparr>m_sie := m_sie m OR push_bit 9 1 OR push_bit 5 1 OR push_bit 1 1\<rparr>;
          m = m\<lparr>m_pmpaddr0 := 0x3fffffffffffff, m_pmpcfg0 := 0xf\<rparr>;
          m = timerinit timervec timer_scratch m
      in m\<lparr>m_tp := m_mhartid m\<rparr>)"

section \<open>main.c\<close>

definition kvminit :: "('x kern_scheme, unit) K" where
  "kvminit = bnd (getk (\<lambda>s. (sym_etext s, sym_trampoline s))) (\<lambda>(etext, tramp).
     bnd (kvmmake etext tramp) (\<lambda>pt. modk (\<lambda>s. s\<lparr>kernel_pagetable := pt\<rparr>)))"

definition kvminithart :: "('x kern_scheme, unit) K" where
  "kvminithart = modk (\<lambda>s. s\<lparr>r_satp := MAKE_SATP (kernel_pagetable s)\<rparr>)"

definition main_first :: "('x virtio_scheme, unit) K" where
  "main_first =
     thn consoleinit (
     thn printfinit (
     thn (printf (str [CHR 0x0A]) []) (
     thn (printf (str (''xv6 kernel is booting'' @ [CHR 0x0A])) []) (
     thn (printf (str [CHR 0x0A]) []) (
     thn kinit (
     thn kvminit (
     thn kvminithart (
     thn procinit (
     thn trapinit (
     thn trapinithart (
     thn plicinit (
     thn plicinithart (
     thn binit (
     thn iinit (
     thn fileinit (
     thn virtio_disk_init
         userinit))))))))))))))))"

text \<open>The other harts, once the first has set \<^verbatim>\<open>started\<close>.\<close>

definition main_other :: "('x kern_scheme, unit) K" where
  "main_other = bnd (getk r_tp) (\<lambda>id.
     thn (printf (str (''hart %d starting'' @ [CHR 0x0A])) [AInt (ucast id)]) (
     thn kvminithart (
     thn trapinithart
         plicinithart)))"

end
