(* ===== verification/PageTable.thy ===== *)
theory PageTable
  imports Vm
begin

text \<open>
  What a page table means, and that the routines of kernel/vm.c maintain it. \<open>ptree l m pt T\<close> says
  that the page \<open>pt\<close> is the root of a page table with \<open>l\<close> more levels below it, made of exactly the
  pages \<open>T\<close>, no page used twice. \<open>ent l m pt va\<close> is the entry of the last level that translates
  \<open>va\<close>, 0 if the path to it does not exist. \<open>touches P s t\<close>: between \<open>s\<close> and \<open>t\<close> only memory in the
  pages \<open>P\<close> and the free list changed.
\<close>

section \<open>Entries\<close>

definition paged :: "u64 \<Rightarrow> bool" where
  "paged p \<longleftrightarrow> p mod PGSIZE = 0 \<and> p \<noteq> 0 \<and> p < PHYSTOP"

lemma page_ok_paged: "page_ok s p \<Longrightarrow> paged p"
  by (simp add: page_ok_def paged_def)

lemma PTE2PA_PA2PTE:
  assumes "p mod PGSIZE = 0" "f < 1024"
  shows "PTE2PA (PA2PTE p OR f) = p"
proof -
  have f: "drop_bit 10 f = 0"
    using assms(2) by (simp add: drop_bit_eq_div div_word_less)
  have "drop_bit 10 (push_bit 10 (drop_bit 12 p)) = drop_bit 12 p"
    by (rule bit_word_eqI) (auto simp: bit_simps dest: bit_imp_le_length)
  then have "PTE2PA (PA2PTE p OR f) = push_bit 12 (drop_bit 12 p)"
    by (simp add: PTE2PA_def PA2PTE_def f)
  also have "\<dots> = PGROUNDDOWN p"
    by (simp add: PGROUNDDOWN_def PGSIZE_def and_page_mask)
  also have "\<dots> = p"
    using assms(1) PGROUNDDOWN_unat [of p]
    by (simp add: page_aligned_unat dvd_div_mult_self word_unat_eq_iff [of "PGROUNDDOWN p"])
  finally show ?thesis .
qed

lemma PTE_V_nonzero [simp]: "PTE_V \<noteq> 0"
  by (simp add: PTE_V_def)

lemma PTE_V_or [simp]: "(x OR PTE_V) AND PTE_V \<noteq> 0"
proof -
  have "(x OR PTE_V) AND PTE_V = PTE_V" by (rule bit_word_eqI) (auto simp: bit_simps)
  then show ?thesis by (simp add: PTE_V_def)
qed

abbreviation px :: "nat \<Rightarrow> u64 \<Rightarrow> nat" where
  "px l va \<equiv> unat (PX l va)"

lemma px_less [simp]: "px l va < 512"
proof -
  have "PX l va \<le> 0x1FF" unfolding PX_def by (rule word_and_le1)
  then show ?thesis by (simp add: word_le_nat_alt)
qed

text \<open>The position of the entry \<open>i\<close> of a table.\<close>

abbreviation slot :: "u64 \<Rightarrow> nat \<Rightarrow> nat" where
  "slot pt i \<equiv> unat pt + 8 * i"

lemma unat_slot:
  assumes "paged pt"
  shows "unat (pt + 8 * PX l va) = slot pt (px l va)"
proof -
  have b: "unat pt < 0x88000000" using assms by (simp add: paged_def unat_less_mono)
  have "unat (8 * PX l va) = 8 * px l va"
    using px_less [of l va] by (simp add: unat_word_ariths del: px_less)
  moreover have "slot pt (px l va) < 2281701376 + 4096" using b px_less [of l va] by linarith
  ultimately show ?thesis by (subst unat_add_less) simp_all
qed

lemma slot_in_page: "i < 512 \<Longrightarrow> k < 8 \<Longrightarrow> in_page pt (slot pt i + k)"
  by (simp add: in_page_def)

lemma paged_disjoint: "paged p \<Longrightarrow> paged q \<Longrightarrow> p \<noteq> q \<Longrightarrow> in_page p x \<Longrightarrow> \<not> in_page q x"
  unfolding paged_def using aligned_disjoint [of p q x] by simp

section \<open>Trees\<close>

text \<open>An entry of an inner table has none of the permission bits.\<close>

abbreviation node :: "u64 \<Rightarrow> bool" where
  "node e \<equiv> e AND (PTE_R OR PTE_W OR PTE_X) = 0"

fun ptree :: "nat \<Rightarrow> bytes \<Rightarrow> u64 \<Rightarrow> u64 set \<Rightarrow> bool" where
  "ptree 0 m pt T \<longleftrightarrow> T = {pt} \<and> paged pt"
| "ptree (Suc l) m pt T \<longleftrightarrow> paged pt \<and> (\<exists>F. T = insert pt (\<Union>i<512. F i)
     \<and> (\<forall>i<512. pt \<notin> F i) \<and> (\<forall>i<512. \<forall>j<512. i \<noteq> j \<longrightarrow> F i \<inter> F j = {})
     \<and> (\<forall>i<512. if ld64 m (slot pt i) AND PTE_V = 0 then F i = {}
               else node (ld64 m (slot pt i)) \<and> ptree l m (PTE2PA (ld64 m (slot pt i))) (F i)))"

fun pt_walk :: "nat \<Rightarrow> bytes \<Rightarrow> u64 \<Rightarrow> u64 \<Rightarrow> u64 option" where
  "pt_walk 0 m pt va = Some (pt + 8 * PX 0 va)"
| "pt_walk (Suc l) m pt va =
     (let e = ld64 m (unat (pt + 8 * PX (Suc l) va)) in
      if e AND PTE_V = 0 then None else pt_walk l m (PTE2PA e) va)"

definition ent :: "nat \<Rightarrow> bytes \<Rightarrow> u64 \<Rightarrow> u64 \<Rightarrow> u64" where
  "ent l m pt va = (case pt_walk l m pt va of Some a \<Rightarrow> ld64 m (unat a) | None \<Rightarrow> 0)"

lemma pt_walk_Suc:
  "paged pt \<Longrightarrow> pt_walk (Suc l) m pt va =
     (let e = ld64 m (slot pt (px (Suc l) va)) in
      if e AND PTE_V = 0 then None else pt_walk l m (PTE2PA e) va)"
  by (simp add: unat_slot)

lemma ent_Suc:
  "paged pt \<Longrightarrow> ent (Suc l) m pt va =
     (let e = ld64 m (slot pt (px (Suc l) va)) in
      if e AND PTE_V = 0 then 0 else ent l m (PTE2PA e) va)"
  by (simp add: ent_def unat_slot Let_def)

lemma ent_0: "paged pt \<Longrightarrow> ent 0 m pt va = ld64 m (slot pt (px 0 va))"
  by (simp add: ent_def unat_slot)

declare pt_walk.simps(2) [simp del]

lemma ptree_root: "ptree l m pt T \<Longrightarrow> paged pt \<and> pt \<in> T"
  by (cases l) auto

lemma ptree_paged: "ptree l m pt T \<Longrightarrow> p \<in> T \<Longrightarrow> paged p"
proof (induction l arbitrary: pt T)
  case 0
  then show ?case by simp
next
  case (Suc l)
  from Suc.prems(1) obtain F where F: "T = insert pt (\<Union>i<512. F i)" "paged pt"
    "\<forall>i<512. if ld64 m (slot pt i) AND PTE_V = 0 then F i = {}
       else node (ld64 m (slot pt i)) \<and> ptree l m (PTE2PA (ld64 m (slot pt i))) (F i)" by auto
  show ?case
  proof (cases "p = pt")
    case True
    with F show ?thesis by simp
  next
    case False
    with Suc.prems(2) F(1) obtain i where "i < 512" "p \<in> F i" by auto
    with F(3) Suc.IH show ?thesis by (auto split: if_splits)
  qed
qed

lemma ld64_slot_cong:
  assumes "\<And>x. in_page pt x \<Longrightarrow> m' x = m x" "i < 512"
  shows "ld64 m' (slot pt i) = ld64 m (slot pt i)"
  by (rule ld64_cong) (use assms slot_in_page in blast)

lemma ptree_cong:
  assumes "ptree l m pt T" "\<And>p x. p \<in> T \<Longrightarrow> in_page p x \<Longrightarrow> m' x = m x"
  shows "ptree l m' pt T"
  using assms
proof (induction l arbitrary: pt T)
  case 0
  then show ?case by simp
next
  case (Suc l)
  from Suc.prems(1) obtain F where F: "T = insert pt (\<Union>i<512. F i)" "paged pt" "\<forall>i<512. pt \<notin> F i"
    "\<forall>i<512. \<forall>j<512. i \<noteq> j \<longrightarrow> F i \<inter> F j = {}"
    "\<forall>i<512. if ld64 m (slot pt i) AND PTE_V = 0 then F i = {}
       else node (ld64 m (slot pt i)) \<and> ptree l m (PTE2PA (ld64 m (slot pt i))) (F i)" by auto
  have e: "ld64 m' (slot pt i) = ld64 m (slot pt i)" if "i < 512" for i
    using Suc.prems(2) F(1) that by (intro ld64_slot_cong) auto
  have sub: "m' x = m x" if "i < 512" "p \<in> F i" "in_page p x" for i p x
    using Suc.prems(2) [of p x] F(1) that by auto
  have "if ld64 m (slot pt i) AND PTE_V = 0 then F i = {}
      else node (ld64 m (slot pt i)) \<and> ptree l m' (PTE2PA (ld64 m (slot pt i))) (F i)" if "i < 512" for i
    using F(5) Suc.IH [OF _ sub [OF that]] that by auto
  with F e show ?case by (auto intro!: exI [of _ F])
qed

lemma ent_cong:
  assumes "ptree l m pt T" "\<And>p x. p \<in> T \<Longrightarrow> in_page p x \<Longrightarrow> m' x = m x"
  shows "pt_walk l m' pt va = pt_walk l m pt va \<and> ent l m' pt va = ent l m pt va"
  using assms
proof (induction l arbitrary: pt T)
  case 0
  have "ld64 m' (slot pt (px 0 va)) = ld64 m (slot pt (px 0 va))"
    using 0 by (intro ld64_slot_cong) auto
  with 0 show ?case by (auto simp: ent_0)
next
  case (Suc l)
  let ?i = "px (Suc l) va"
  from Suc.prems(1) obtain F where F: "T = insert pt (\<Union>i<512. F i)" "paged pt"
    "\<forall>i<512. if ld64 m (slot pt i) AND PTE_V = 0 then F i = {}
       else node (ld64 m (slot pt i)) \<and> ptree l m (PTE2PA (ld64 m (slot pt i))) (F i)" by auto
  have e: "ld64 m' (slot pt ?i) = ld64 m (slot pt ?i)"
    using Suc.prems(2) F(1) by (intro ld64_slot_cong) auto
  show ?case
  proof (cases "ld64 m (slot pt ?i) AND PTE_V = 0")
    case True
    with e F show ?thesis by (simp add: ent_Suc pt_walk_Suc Let_def)
  next
    case False
    then have "ptree l m (PTE2PA (ld64 m (slot pt ?i))) (F ?i)" using F(3) px_less by auto
    then have "pt_walk l m' (PTE2PA (ld64 m (slot pt ?i))) va = pt_walk l m (PTE2PA (ld64 m (slot pt ?i))) va
        \<and> ent l m' (PTE2PA (ld64 m (slot pt ?i))) va = ent l m (PTE2PA (ld64 m (slot pt ?i))) va"
      by (rule Suc.IH) (use Suc.prems(2) F(1) px_less in blast)
    with e F False show ?thesis by (simp add: ent_Suc pt_walk_Suc Let_def)
  qed
qed

section \<open>What changes\<close>

definition touches :: "u64 set \<Rightarrow> 'x kmem_scheme \<Rightarrow> 'x kmem_scheme \<Rightarrow> bool" where
  "touches P s t \<longleftrightarrow> (\<exists>f m. t = s\<lparr>mem := m, freelist := f\<rparr>
     \<and> (\<forall>x. (\<forall>p \<in> P. \<not> in_page p x) \<longrightarrow> m x = mem s x))"

lemma touches_refl: "touches P s s"
  unfolding touches_def by (rule exI [of _ "freelist s"], rule exI [of _ "mem s"]) simp

lemma touches_same: "mem_same_outside p s t \<Longrightarrow> p \<in> P \<Longrightarrow> touches P s t"
  unfolding touches_def mem_same_outside_def by blast

lemma touches_trans: "touches P s t \<Longrightarrow> touches Q t u \<Longrightarrow> P \<union> Q \<subseteq> R \<Longrightarrow> touches R s u"
proof -
  assume st: "touches P s t" and tu: "touches Q t u" and R: "P \<union> Q \<subseteq> R"
  obtain f m where t: "t = s\<lparr>mem := m, freelist := f\<rparr>"
    "\<And>x. \<forall>p \<in> P. \<not> in_page p x \<Longrightarrow> m x = mem s x"
    using st unfolding touches_def by blast
  obtain g n where u: "u = t\<lparr>mem := n, freelist := g\<rparr>"
    "\<And>x. \<forall>p \<in> Q. \<not> in_page p x \<Longrightarrow> n x = mem t x"
    using tu unfolding touches_def by blast
  have "u = s\<lparr>mem := n, freelist := g\<rparr>" using t(1) u(1) by simp
  moreover have "n x = mem s x" if "\<forall>p \<in> R. \<not> in_page p x" for x
  proof -
    have "\<forall>p \<in> P. \<not> in_page p x" "\<forall>p \<in> Q. \<not> in_page p x" using that R by auto
    then show ?thesis using t(2) [of x] u(2) [of x] t(1) by simp
  qed
  ultimately show ?thesis unfolding touches_def by blast
qed

lemma touches_mono: "touches P s t \<Longrightarrow> P \<subseteq> R \<Longrightarrow> touches R s t"
  unfolding touches_def by blast

lemma touches_mem: "touches P s t \<Longrightarrow> (\<And>p. p \<in> P \<Longrightarrow> \<not> in_page p x) \<Longrightarrow> mem t x = mem s x"
  by (auto simp: touches_def)

lemma touches_fields: "touches P s t \<Longrightarrow> held t = held s \<and> kend t = kend s"
  by (auto simp: touches_def)

lemma touches_page_ok: "touches P s t \<Longrightarrow> page_ok t q = page_ok s q"
  by (auto simp: touches_def)

lemma touches_page:
  assumes "touches P s t" "paged q" "\<And>p. p \<in> P \<Longrightarrow> paged p" "q \<notin> P" "in_page q x"
  shows "mem t x = mem s x"
proof (rule touches_mem [OF assms(1)])
  fix p assume "p \<in> P"
  then show "\<not> in_page p x"
    using paged_disjoint [OF assms(2), of p x] assms(3) [of p] assms(4,5) by auto
qed

lemma touches_ptree:
  assumes "touches P s t" "ptree l (mem s) pt T" "\<And>p. p \<in> P \<Longrightarrow> paged p" "P \<inter> T = {}"
  shows "ptree l (mem t) pt T" "pt_walk l (mem t) pt va = pt_walk l (mem s) pt va"
    "ent l (mem t) pt va = ent l (mem s) pt va"
proof -
  have eq: "mem t x = mem s x" if "p \<in> T" "in_page p x" for p x
  proof (rule touches_page [OF assms(1)])
    show "paged p" using assms(2) that(1) by (rule ptree_paged)
    show "p \<notin> P" using assms(4) that(1) by blast
    show "paged q" if "q \<in> P" for q using assms(3) that .
    show "in_page p x" by (rule that(2))
  qed
  show "ptree l (mem t) pt T" by (rule ptree_cong [OF assms(2)]) (rule eq)
  have e: "pt_walk l (mem t) pt va = pt_walk l (mem s) pt va
      \<and> ent l (mem t) pt va = ent l (mem s) pt va"
    by (rule ent_cong [OF assms(2)]) (rule eq)
  show "pt_walk l (mem t) pt va = pt_walk l (mem s) pt va" using e by (rule conjunct1)
  show "ent l (mem t) pt va = ent l (mem s) pt va" using e by (rule conjunct2)
qed

lemma touches_ready:
  assumes "alloc_ready s ps" "touches P s t" "freelist t = freelist s"
    "\<And>p. p \<in> P \<Longrightarrow> paged p" "P \<inter> set ps = {}"
  shows "alloc_ready t ps"
proof -
  have fp: "flist (mem s) (freelist s) ps" "distinct ps" "\<forall>p \<in> set ps. page_ok s p"
    "LkKmem \<notin> set (held s)"
    using assms(1) by (auto simp: alloc_ready_def free_pages_def)
  have "flist (mem t) (freelist s) ps"
  proof (rule flist_cong [OF fp(1)])
    fix q x assume "q \<in> set ps" "in_page q x"
    then show "mem t x = mem s x"
      by (intro touches_page [of P s t q])
        (use assms fp page_ok_paged [of s q] in auto)
  qed
  with assms(2,3) fp touches_fields [OF assms(2)] touches_page_ok [OF assms(2)] show ?thesis
    by (simp add: alloc_ready_def free_pages_def)
qed

lemma stk_touches:
  assumes "paged p" "i < 512" "unat a = slot p i"
  shows "\<exists>t. stk a v s = Done () t \<and> touches {p} s t \<and> freelist t = freelist s
    \<and> ld64 (mem t) (slot p i) = v
    \<and> (\<forall>j<512. j \<noteq> i \<longrightarrow> ld64 (mem t) (slot p j) = ld64 (mem s) (slot p j))"
proof -
  let ?m = "st64 (mem s) (slot p i) v"
  have "?m x = mem s x" if "\<not> in_page p x" for x
    using that assms(2) by (intro st64_outside) (auto simp: in_page_def)
  moreover have "ld64 ?m (slot p j) = ld64 (mem s) (slot p j)" if "j \<noteq> i" for j
    using that by (intro ld64_st64_other) auto
  ultimately show ?thesis using assms(3)
    by (intro exI [of _ "s\<lparr>mem := ?m\<rparr>"])
      (auto simp: stk_def touches_def intro!: exI [of _ "freelist s"] exI [of _ ?m])
qed

section \<open>An empty table\<close>

lemma zero_slot: "(\<And>x. in_page p x \<Longrightarrow> m x = 0) \<Longrightarrow> i < 512 \<Longrightarrow> ld64 m (slot p i) = 0"
  by (rule ld64_zero) (use slot_in_page in blast)

lemma ptree_zero: "paged p \<Longrightarrow> (\<And>x. in_page p x \<Longrightarrow> m x = 0) \<Longrightarrow> ptree l m p {p}"
  by (cases l) (auto simp: zero_slot intro!: exI [of _ "\<lambda>_. {}"])

lemma ent_zero: "paged p \<Longrightarrow> (\<And>x. in_page p x \<Longrightarrow> m x = 0) \<Longrightarrow> ent l m p va = 0"
  by (cases l) (auto simp: ent_0 ent_Suc zero_slot)

lemma zero_page:
  assumes "alloc_ready s (p # ps)"
  shows "\<exists>t u. kalloc s = Done p t \<and> memset_k p 0 4096 t = Done () u \<and> alloc_ready u ps
    \<and> touches {p} s u \<and> (\<forall>x. in_page p x \<longrightarrow> mem u x = 0) \<and> paged p \<and> page_ok s p"
proof -
  obtain t where t: "kalloc s = Done p t" "alloc_ready t ps" "mem_same_outside p s t"
    using ka.alloc_some [OF assms] by blast
  have p: "page_ok s p" "p \<notin> set ps" using ka.avail_usable [OF assms] assms
    by (auto simp: alloc_ready_def free_pages_def)
  let ?u = "t\<lparr>mem := memset (mem t) (unat p) 0 4096\<rparr>"
  have "touches {p} t ?u"
    by (auto simp: touches_def memset_page_outside intro!: exI [of _ "freelist t"]
        exI [of _ "memset (mem t) (unat p) 0 4096"])
  then have "alloc_ready ?u ps" "touches {p} s ?u"
    using touches_ready [OF t(2), of "{p}" ?u] p page_ok_paged [of s p]
      touches_trans [OF touches_same [OF t(3)], of "{p}" "{p}" ?u] by auto
  moreover have "\<forall>x. in_page p x \<longrightarrow> mem ?u x = 0" by (simp add: memset_eq in_page_def)
  ultimately show ?thesis using t p page_ok_paged [of s p]
    by (intro exI [of _ t] exI [of _ ?u]) (simp add: memset_k_def)
qed

section \<open>walk\<close>

lemma walk_from_lookup:
  "walk_from l pt va False s = Done (case pt_walk l (mem s) pt va of Some a \<Rightarrow> a | None \<Rightarrow> 0) s"
proof (induction l arbitrary: pt)
  case 0
  then show ?case by simp
next
  case (Suc l)
  then show ?case
    by (simp add: pt_walk.simps(2) Let_def ldk_def kernel_simps)
qed

lemma Union_upd:
  assumes "i < (n::nat)"
  shows "(\<Union>j<n. (F(i := C)) j) = C \<union> (\<Union>j\<in>{..<n} - {i}. F j)"
    "(\<Union>j<n. F j) = F i \<union> (\<Union>j\<in>{..<n} - {i}. F j)"
  using assms by auto

text \<open>\<open>kids l m pt F\<close>: the sets \<open>F i\<close> are the pages of the subtrees of \<open>pt\<close>.\<close>

definition kids :: "nat \<Rightarrow> bytes \<Rightarrow> u64 \<Rightarrow> (nat \<Rightarrow> u64 set) \<Rightarrow> bool" where
  "kids l m pt F \<longleftrightarrow> paged pt \<and> (\<forall>i<512. pt \<notin> F i)
     \<and> (\<forall>i<512. \<forall>j<512. i \<noteq> j \<longrightarrow> F i \<inter> F j = {})
     \<and> (\<forall>i<512. if ld64 m (slot pt i) AND PTE_V = 0 then F i = {}
               else node (ld64 m (slot pt i)) \<and> ptree l m (PTE2PA (ld64 m (slot pt i))) (F i))"

lemma ptree_Suc:
  "ptree (Suc l) m pt T \<longleftrightarrow> (\<exists>F. T = insert pt (\<Union>i<512. F i) \<and> kids l m pt F)"
  unfolding kids_def by auto

declare ptree.simps(2) [simp del]

lemma kids_node: "kids l m pt F \<Longrightarrow> i < 512 \<Longrightarrow> ld64 m (slot pt i) AND PTE_V \<noteq> 0 \<Longrightarrow> node (ld64 m (slot pt i))"
  by (auto simp: kids_def)

lemma node_new: "node (PA2PTE p OR PTE_V)"
proof (rule bit_word_eqI)
  have "PTE_R OR PTE_W OR PTE_X = mask 4 AND NOT 1"
    by (simp add: PTE_R_def PTE_W_def PTE_X_def mask_eq_exp_minus_1)
  then show "bit ((PA2PTE p OR PTE_V) AND (PTE_R OR PTE_W OR PTE_X)) n \<longleftrightarrow> bit (0 :: u64) n" for n
    by (auto simp: PA2PTE_def PTE_V_def bit_simps)
qed

lemma kids_update:
  assumes k: "kids l (mem s) pt F" and i: "i < 512"
    and pt: "\<And>x. in_page pt x \<Longrightarrow> mem t x = mem s x"
    and v: "ld64 (mem s) (slot pt i) AND PTE_V \<noteq> 0"
    and c: "ptree l (mem t) (PTE2PA (ld64 (mem s) (slot pt i))) T'"
    and tch: "touches T' s t"
    and dis: "pt \<notin> T'" "\<And>j. j < 512 \<Longrightarrow> j \<noteq> i \<Longrightarrow> T' \<inter> F j = {}"
  shows "kids l (mem t) pt (F(i := T'))"
proof -
  have T': "paged p" if "p \<in> T'" for p using c that by (rule ptree_paged)
  have e: "ld64 (mem t) (slot pt j) = ld64 (mem s) (slot pt j)" if "j < 512" for j
    using pt that by (rule ld64_slot_cong)
  have "ptree l (mem t) (PTE2PA (ld64 (mem s) (slot pt j))) (F j)"
    if "j < 512" "j \<noteq> i" "ld64 (mem s) (slot pt j) AND PTE_V \<noteq> 0" for j
  proof -
    have "ptree l (mem s) (PTE2PA (ld64 (mem s) (slot pt j))) (F j)"
      using k that unfolding kids_def by auto
    then show ?thesis by (rule touches_ptree(1) [OF tch _ T' dis(2) [OF that(1,2)]])
  qed
  moreover have "F j = {}" if "j < 512" "ld64 (mem s) (slot pt j) AND PTE_V = 0" for j
    using k that unfolding kids_def by auto
  ultimately have "if ld64 (mem t) (slot pt j) AND PTE_V = 0 then (F(i := T')) j = {}
      else node (ld64 (mem t) (slot pt j)) \<and> ptree l (mem t) (PTE2PA (ld64 (mem t) (slot pt j))) ((F(i := T')) j)" if "j < 512" for j
    using e c v that kids_node [OF k that] by auto
  moreover have "(F(i := T')) j \<inter> (F(i := T')) j' = {}" if "j < 512" "j' < 512" "j \<noteq> j'" for j j'
    using k dis that unfolding kids_def by auto
  moreover have "pt \<notin> (F(i := T')) j" if "j < 512" for j
    using k dis(1) that unfolding kids_def by auto
  moreover have "paged pt" using k unfolding kids_def by blast
  ultimately show ?thesis unfolding kids_def by blast
qed

text \<open>The outcome of \<open>walk(..., alloc = 1)\<close> on a table with the pages \<open>T\<close> and the free pages
  \<open>ps\<close>: pages move from the free list into the table, no translation changes.\<close>

definition grown :: "nat \<Rightarrow> u64 \<Rightarrow> u64 set \<Rightarrow> u64 list \<Rightarrow> 'x kmem_scheme \<Rightarrow> u64 set \<Rightarrow> u64 list
    \<Rightarrow> 'x kmem_scheme \<Rightarrow> bool" where
  "grown l pt T ps s T' ps' t \<longleftrightarrow> ptree l (mem t) pt T' \<and> alloc_ready t ps' \<and> T \<subseteq> T'
     \<and> T' \<inter> set ps' = {} \<and> T' \<union> set ps' = T \<union> set ps \<and> touches T' s t
     \<and> (\<forall>va. ent l (mem t) pt va = ent l (mem s) pt va)"

lemma grown_refl: "ptree l (mem s) pt T \<Longrightarrow> alloc_ready s ps \<Longrightarrow> T \<inter> set ps = {}
    \<Longrightarrow> grown l pt T ps s T ps s"
  by (simp add: grown_def touches_refl)

lemma grown_trans:
  assumes "grown l pt T ps s T' ps' t" "grown l pt T' ps' t T'' ps'' u"
  shows "grown l pt T ps s T'' ps'' u"
  using assms touches_trans [of T' s t T'' u T''] unfolding grown_def by auto

text \<open>A subtree that grows lets the tree above it grow.\<close>

lemma grown_child:
  assumes T: "T = insert pt (\<Union>i<512. F i)" and k: "kids l (mem s) pt F" and i: "i < 512"
    and v: "ld64 (mem s) (slot pt i) AND PTE_V \<noteq> 0" and dis: "T \<inter> set ps = {}"
    and g: "grown l (PTE2PA (ld64 (mem s) (slot pt i))) (F i) ps s C ps' t"
  shows "grown (Suc l) pt T ps s (insert pt (\<Union>j<512. (F(i := C)) j)) ps' t"
proof -
  let ?c = "PTE2PA (ld64 (mem s) (slot pt i))" and ?T = "insert pt (\<Union>j<512. (F(i := C)) j)"
  have g': "ptree l (mem t) ?c C" "alloc_ready t ps'" "F i \<subseteq> C" "C \<inter> set ps' = {}"
    "C \<union> set ps' = F i \<union> set ps" "touches C s t"
    "\<And>va. ent l (mem t) ?c va = ent l (mem s) ?c va"
    using g unfolding grown_def by auto
  have pg: "paged p" if "p \<in> C" for p using g'(1) that by (rule ptree_paged)
  have k': "paged pt" "\<And>j. j < 512 \<Longrightarrow> pt \<notin> F j" "\<And>j. j < 512 \<Longrightarrow> j \<noteq> i \<Longrightarrow> F i \<inter> F j = {}"
    using k i unfolding kids_def by auto
  have ptC: "pt \<notin> C" using g'(5) k'(2) [OF i] dis T by auto
  have disC: "C \<inter> F j = {}" if "j < 512" "j \<noteq> i" for j
  proof -
    have "F j \<inter> set ps = {}" using dis T that by blast
    then show ?thesis using g'(5) k'(3) [OF that] by blast
  qed
  have ptm: "mem t x = mem s x" if "in_page pt x" for x
    using touches_page [OF g'(6) k'(1) pg ptC that] .
  have kk: "kids l (mem t) pt (F(i := C))"
    by (rule kids_update [OF k i ptm v g'(1,6) ptC disC])
  have e: "ld64 (mem t) (slot pt j) = ld64 (mem s) (slot pt j)" if "j < 512" for j
    using ptm that by (rule ld64_slot_cong)
  have "ent (Suc l) (mem t) pt va = ent (Suc l) (mem s) pt va" for va
  proof (cases "px (Suc l) va = i \<or> ld64 (mem s) (slot pt (px (Suc l) va)) AND PTE_V = 0")
    case True
    then show ?thesis using g'(7) e [OF px_less] k'(1) by (auto simp: ent_Suc Let_def)
  next
    case False
    let ?j = "px (Suc l) va"
    have "ptree l (mem s) (PTE2PA (ld64 (mem s) (slot pt ?j))) (F ?j)"
      using k False px_less unfolding kids_def by auto
    then have "ent l (mem t) (PTE2PA (ld64 (mem s) (slot pt ?j))) va
        = ent l (mem s) (PTE2PA (ld64 (mem s) (slot pt ?j))) va"
      by (rule touches_ptree(3) [OF g'(6) _ pg]) (use disC [OF px_less] False in auto)
    with False e [OF px_less] k'(1) show ?thesis by (simp add: ent_Suc Let_def)
  qed
  moreover have "?T \<union> set ps' = T \<union> set ps"
  proof -
    show ?thesis using T g'(5) Union_upd(1) [OF i, of F C] Union_upd(2) [OF i, of F] by auto
  qed
  moreover have "T \<subseteq> ?T" using T g'(3) i by auto
  moreover have "?T \<inter> set ps' = {}"
  proof -
    have "set ps' \<subseteq> F i \<union> set ps" using g'(5) by blast
    moreover have "F j \<inter> set ps' = {}" if "j < 512" "j \<noteq> i" for j
      using dis T that k'(3) [OF that] g'(5) by blast
    moreover have "pt \<notin> set ps'" using g'(5) k'(2) [OF i] dis T by auto
    ultimately show ?thesis using g'(4) by auto
  qed
  moreover have "touches ?T s t" by (rule touches_mono [OF g'(6)]) (use i in auto)
  ultimately show ?thesis using kk g'(2) unfolding grown_def ptree_Suc by blast
qed

text \<open>A new, empty table in a free slot.\<close>

lemma link_new:
  assumes T: "T = insert pt (\<Union>i<512. F i)" and k: "kids l (mem s) pt F" and i: "i = px (Suc l) va"
    and v: "ld64 (mem s) (slot pt i) AND PTE_V = 0"
    and r: "alloc_ready s (p # ps)" and dis: "T \<inter> set (p # ps) = {}"
  shows "\<exists>t1 t2 t. kalloc s = Done p t1 \<and> memset_k p 0 4096 t1 = Done () t2
    \<and> stk (pt + 8 * PX (Suc l) va) (PA2PTE p OR PTE_V) t2 = Done () t \<and> p \<noteq> 0
    \<and> PTE2PA (ld64 (mem t) (slot pt i)) = p \<and> ld64 (mem t) (slot pt i) AND PTE_V \<noteq> 0
    \<and> kids l (mem t) pt (F(i := {p})) \<and> grown (Suc l) pt T (p # ps) s (insert p T) ps t"
proof -
  have i5: "i < 512" using i by simp
  obtain t1 t2 where t2: "kalloc s = Done p t1" "memset_k p 0 4096 t1 = Done () t2" "alloc_ready t2 ps"
      "touches {p} s t2" "\<And>x. in_page p x \<Longrightarrow> mem t2 x = 0" "paged p"
    using zero_page [OF r] by blast
  have pt: "paged pt" "pt \<noteq> p" "pt \<notin> set ps" "p \<notin> set ps"
    using k dis T r by (auto simp: kids_def alloc_ready_def free_pages_def)
  obtain t where t: "stk (pt + 8 * PX (Suc l) va) (PA2PTE p OR PTE_V) t2 = Done () t"
      "touches {pt} t2 t" "freelist t = freelist t2" "ld64 (mem t) (slot pt i) = PA2PTE p OR PTE_V"
      "\<And>j. j < 512 \<Longrightarrow> j \<noteq> i \<Longrightarrow> ld64 (mem t) (slot pt j) = ld64 (mem t2) (slot pt j)"
    using stk_touches [OF pt(1) i5, of "pt + 8 * PX (Suc l) va" "PA2PTE p OR PTE_V" t2]
      unat_slot [OF pt(1), of "Suc l" va] i by blast
  have e: "ld64 (mem t) (slot pt j) = ld64 (mem s) (slot pt j)" if "j < 512" "j \<noteq> i" for j
  proof -
    have "ld64 (mem t2) (slot pt j) = ld64 (mem s) (slot pt j)"
      by (rule ld64_slot_cong [OF _ that(1)])
        (rule touches_page [OF t2(4) pt(1)], use pt t2(6) in auto)
    with t(5) [OF that] show ?thesis by simp
  qed
  have tch: "touches {p, pt} s t" by (rule touches_trans [OF t2(4) t(2)]) auto
  have pg: "paged q" if "q \<in> {p, pt}" for q using that t2(6) pt(1) by auto
  have z: "mem t x = 0" if "in_page p x" for x
  proof -
    have "mem t x = mem t2 x"
      by (rule touches_page [OF t(2) t2(6) _ _ that]) (use pt in auto)
    with t2(5) [OF that] show ?thesis by simp
  qed
  have pa: "PTE2PA (PA2PTE p OR PTE_V) = p"
    using t2(6) by (intro PTE2PA_PA2PTE) (auto simp: paged_def PTE_V_def)
  have kF: "F i = {}" "\<And>j. j < 512 \<Longrightarrow> pt \<notin> F j" "\<And>j. j < 512 \<Longrightarrow> p \<notin> F j"
    "\<And>j. j < 512 \<Longrightarrow> {p, pt} \<inter> F j = {}"
    "\<And>j j'. j < 512 \<Longrightarrow> j' < 512 \<Longrightarrow> j \<noteq> j' \<Longrightarrow> F j \<inter> F j' = {}"
    using k i5 v dis T unfolding kids_def by auto
  have sub: "ptree l (mem t) (PTE2PA (ld64 (mem s) (slot pt j))) (F j)"
      "ent l (mem t) (PTE2PA (ld64 (mem s) (slot pt j))) w = ent l (mem s) (PTE2PA (ld64 (mem s) (slot pt j))) w"
    if "j < 512" "ld64 (mem s) (slot pt j) AND PTE_V \<noteq> 0" for j w
  proof -
    have "ptree l (mem s) (PTE2PA (ld64 (mem s) (slot pt j))) (F j)"
      using k that unfolding kids_def by auto
    note touches_ptree [OF tch this pg kF(4) [OF that(1)]]
    then show "ptree l (mem t) (PTE2PA (ld64 (mem s) (slot pt j))) (F j)"
      "ent l (mem t) (PTE2PA (ld64 (mem s) (slot pt j))) w = ent l (mem s) (PTE2PA (ld64 (mem s) (slot pt j))) w"
      by blast+
  qed
  have new: "ptree l (mem t) p {p}" using t2(6) z by (rule ptree_zero)
  have emp: "F j = {}" if "j < 512" "ld64 (mem s) (slot pt j) AND PTE_V = 0" for j
    using k that unfolding kids_def by auto
  have "if ld64 (mem t) (slot pt j) AND PTE_V = 0 then (F(i := {p})) j = {}
      else node (ld64 (mem t) (slot pt j)) \<and> ptree l (mem t) (PTE2PA (ld64 (mem t) (slot pt j))) ((F(i := {p})) j)" if "j < 512" for j
    using that e [OF that] t(4) pa new sub(1) [OF that] emp [OF that] node_new [of p] kids_node [OF k that]
    by (cases "j = i") auto
  moreover have "(F(i := {p})) j \<inter> (F(i := {p})) j' = {}" if "j < 512" "j' < 512" "j \<noteq> j'" for j j'
    using kF that by auto
  moreover have "pt \<notin> (F(i := {p})) j" if "j < 512" for j using kF pt(2) that by auto
  ultimately have kk: "kids l (mem t) pt (F(i := {p}))" using pt(1) unfolding kids_def by blast
  have "ent (Suc l) (mem t) pt w = ent (Suc l) (mem s) pt w" for w
  proof (cases "px (Suc l) w = i")
    case True
    then show ?thesis using v t(4) pa pt(1) ent_zero [OF t2(6) z, where l = l and va = w]
      by (simp add: ent_Suc Let_def)
  next
    case False
    then show ?thesis using e [OF px_less False] sub(2) [OF px_less, of "Suc l" w w] pt(1)
      by (auto simp: ent_Suc Let_def)
  qed
  moreover have "ptree (Suc l) (mem t) pt (insert p T)"
  proof -
    have "insert p T = insert pt (\<Union>j<512. (F(i := {p})) j)"
      using T kF(1) Union_upd(1) [OF i5, of F "{p}"] Union_upd(2) [OF i5, of F] by auto
    with kk show ?thesis unfolding ptree_Suc by blast
  qed
  moreover have "alloc_ready t ps"
    by (rule touches_ready [OF t2(3) t(2,3)]) (use pt in auto)
  moreover have "touches (insert p T) s t" by (rule touches_mono [OF tch]) (use T in auto)
  moreover have "insert p T \<inter> set ps = {}" using dis pt(4) by auto
  ultimately have "grown (Suc l) pt T (p # ps) s (insert p T) ps t"
    unfolding grown_def by auto
  with t2 t kk pa show ?thesis by (auto simp: paged_def)
qed

lemma walk_from_alloc:
  fixes s :: "'x kmem_scheme"
  assumes "ptree l (mem s) pt T" "alloc_ready s ps" "T \<inter> set ps = {}"
  shows "\<exists>r t T' ps'. walk_from l pt va True s = Done r t \<and> grown l pt T ps s T' ps' t
    \<and> (if r = 0 then ps' = [] else pt_walk l (mem t) pt va = Some r)"
  using assms
proof (induction l arbitrary: pt T s ps)
  case 0
  have "pt + 8 * PX 0 va \<noteq> 0"
    using 0(1) unat_slot [of pt 0 va] by (auto simp: paged_def simp flip: unat_eq_zero)
  with 0 show ?case by (auto intro!: exI [of _ T] exI [of _ ps] grown_refl)
next
  case (Suc l)
  let ?i = "px (Suc l) va"
  have down: "\<exists>r t T' ps'. walk_from l (PTE2PA (ld64 (mem u) (slot pt ?i))) va True u = Done r t
      \<and> grown (Suc l) pt U qs u T' ps' t
      \<and> (if r = 0 then ps' = [] else pt_walk (Suc l) (mem t) pt va = Some r)"
    if U: "U = insert pt (\<Union>i<512. G i)" and k: "kids l (mem u) pt G"
      and v: "ld64 (mem u) (slot pt ?i) AND PTE_V \<noteq> 0" and r: "alloc_ready u qs"
      and d: "U \<inter> set qs = {}" for u :: "'x kmem_scheme" and U G qs
  proof -
    have c: "ptree l (mem u) (PTE2PA (ld64 (mem u) (slot pt ?i))) (G ?i)"
      using k v px_less [of "Suc l" va] unfolding kids_def by auto
    have "G ?i \<subseteq> U" using U px_less [of "Suc l" va] by blast
    then have "G ?i \<inter> set qs = {}" using d by blast
    from Suc.IH [OF c r this] obtain q t C ps' where
      w: "walk_from l (PTE2PA (ld64 (mem u) (slot pt ?i))) va True u = Done q t"
      and g: "grown l (PTE2PA (ld64 (mem u) (slot pt ?i))) (G ?i) qs u C ps' t"
      and q: "if q = 0 then ps' = [] else pt_walk l (mem t) (PTE2PA (ld64 (mem u) (slot pt ?i))) va = Some q"
      by blast
    from grown_child [OF U k px_less v d g] have g2:
      "grown (Suc l) pt U qs u (insert pt (\<Union>j<512. (G(?i := C)) j)) ps' t" .
    have pt: "paged pt" using k by (simp add: kids_def)
    have C: "touches C u t" "\<And>p. p \<in> C \<Longrightarrow> paged p" "pt \<notin> C"
    proof -
      show "touches C u t" using g by (simp add: grown_def)
      show "\<And>p. p \<in> C \<Longrightarrow> paged p" using g ptree_paged by (auto simp: grown_def)
      have "C \<subseteq> G ?i \<union> set qs" using g by (auto simp: grown_def)
      moreover have "pt \<notin> G ?i" "pt \<notin> set qs"
        using k d U px_less [of "Suc l" va] unfolding kids_def by auto
      ultimately show "pt \<notin> C" by blast
    qed
    have "ld64 (mem t) (slot pt ?i) = ld64 (mem u) (slot pt ?i)"
      by (rule ld64_slot_cong [OF _ px_less]) (rule touches_page [OF C(1) pt C(2,3)])
    with q v pt have "if q = 0 then ps' = [] else pt_walk (Suc l) (mem t) pt va = Some q"
      by (simp add: pt_walk_Suc Let_def)
    with w g2 show ?thesis by blast
  qed
  obtain F where F: "T = insert pt (\<Union>i<512. F i)" "kids l (mem s) pt F"
    using Suc.prems(1) unfolding ptree_Suc by blast
  then have pt: "paged pt" by (simp add: kids_def)
  show ?case
  proof (cases "ld64 (mem s) (slot pt ?i) AND PTE_V = 0")
    case False
    with down [OF F False Suc.prems(2,3)] pt show ?thesis
      by (simp add: ldk_def kernel_simps unat_slot)
  next
    case True
    show ?thesis
    proof (cases ps)
      case Nil
      then have "kalloc s = Done 0 s" using ka.alloc_none Suc.prems(2) by blast
      with True Nil Suc.prems pt show ?thesis
        by (auto simp: ldk_def kernel_simps unat_slot intro!: exI [of _ T] grown_refl)
    next
      case (Cons p qs)
      from link_new [OF F refl True Suc.prems(2,3) [unfolded Cons]] obtain t1 t2 t where
        t: "kalloc s = Done p t1" "memset_k p 0 4096 t1 = Done () t2"
          "stk (pt + 8 * PX (Suc l) va) (PA2PTE p OR PTE_V) t2 = Done () t" "p \<noteq> 0"
          "PTE2PA (ld64 (mem t) (slot pt ?i)) = p" "ld64 (mem t) (slot pt ?i) AND PTE_V \<noteq> 0"
          "kids l (mem t) pt (F(?i := {p}))" "grown (Suc l) pt T ps s (insert p T) qs t"
        unfolding Cons by blast
      have U: "insert p T = insert pt (\<Union>j<512. (F(?i := {p})) j)"
      proof -
        have "F ?i = {}" using F(2) True px_less [of "Suc l" va] unfolding kids_def by auto
        then show ?thesis using F(1) Union_upd(1) [OF px_less, where F = F and C = "{p}" and l1 = "Suc l" and va1 = va]
            Union_upd(2) [OF px_less, where F = F and l1 = "Suc l" and va1 = va] by auto
      qed
      have "alloc_ready t qs" "insert p T \<inter> set qs = {}" using t(8) by (simp_all add: grown_def)
      from down [OF U t(7,6) this] t(5) obtain r u T' ps' where
        w: "walk_from l p va True t = Done r u" "grown (Suc l) pt (insert p T) qs t T' ps' u"
        "if r = 0 then ps' = [] else pt_walk (Suc l) (mem u) pt va = Some r" by auto
      have "walk_from (Suc l) pt va True s = Done r u" using w(1) t(1-4) True pt
        by (simp add: ldk_def kernel_simps unat_slot)
      with w(3) grown_trans [OF t(8) w(2)] show ?thesis by blast
    qed
  qed
qed

section \<open>Setting an entry\<close>

definition same_page :: "nat \<Rightarrow> u64 \<Rightarrow> u64 \<Rightarrow> bool" where
  "same_page l va va' \<longleftrightarrow> (\<forall>k \<le> l. px k va = px k va')"

lemma same_page_Suc: "same_page (Suc l) va va' \<longleftrightarrow> px (Suc l) va = px (Suc l) va' \<and> same_page l va va'"
  by (auto simp: same_page_def le_Suc_eq)

lemma store_leaf:
  assumes "ptree l m pt T" "pt_walk l m pt va = Some a"
  shows "\<exists>q \<in> T. (\<exists>i<512. unat a = slot q i) \<and> ptree l (st64 m (unat a) v) pt T
    \<and> (\<forall>va'. pt_walk l (st64 m (unat a) v) pt va' = pt_walk l m pt va'
        \<and> ent l (st64 m (unat a) v) pt va' = (if same_page l va va' then v else ent l m pt va'))"
  using assms
proof (induction l arbitrary: pt T)
  case 0
  then have pt: "T = {pt}" "paged pt" "a = pt + 8 * PX 0 va" by auto
  have "ent 0 (st64 m (unat a) v) pt va' = (if same_page 0 va va' then v else ent 0 m pt va')" for va'
    using pt by (auto simp: ent_0 same_page_def unat_slot intro!: ld64_st64_other)
  with pt show ?case
    by (auto simp: unat_slot intro!: exI [of _ "px 0 va"])
next
  case (Suc l)
  let ?i = "px (Suc l) va" and ?m = "st64 m (unat a) v"
  let ?c = "\<lambda>j. PTE2PA (ld64 m (slot pt j))"
  obtain F where F: "T = insert pt (\<Union>i<512. F i)" "kids l m pt F"
    using Suc.prems(1) unfolding ptree_Suc by blast
  then have pt: "paged pt" "\<And>j. j < 512 \<Longrightarrow> pt \<notin> F j"
    "\<And>j j'. j < 512 \<Longrightarrow> j' < 512 \<Longrightarrow> j \<noteq> j' \<Longrightarrow> F j \<inter> F j' = {}"
    "\<And>j. j < 512 \<Longrightarrow> ld64 m (slot pt j) AND PTE_V \<noteq> 0 \<Longrightarrow> ptree l m (?c j) (F j)"
    "\<And>j. j < 512 \<Longrightarrow> ld64 m (slot pt j) AND PTE_V = 0 \<Longrightarrow> F j = {}"
    by (auto simp: kids_def)
  have v: "ld64 m (slot pt ?i) AND PTE_V \<noteq> 0" and w: "pt_walk l m (?c ?i) va = Some a"
    using Suc.prems(2) pt(1) by (auto simp: pt_walk_Suc Let_def split: if_splits)
  obtain q n where q: "q \<in> F ?i" "n < 512" "unat a = slot q n" "ptree l ?m (?c ?i) (F ?i)"
    "\<And>va'. pt_walk l ?m (?c ?i) va' = pt_walk l m (?c ?i) va'"
    "\<And>va'. ent l ?m (?c ?i) va' = (if same_page l va va' then v else ent l m (?c ?i) va')"
    using Suc.IH [OF pt(4) [OF px_less v] w] by blast
  have "paged q" using pt(4) [OF px_less v] q(1) by (rule ptree_paged)
  have out: "?m x = m x" if "in_page p x" "paged p" "p \<noteq> q" for p x
  proof -
    have "\<not> in_page q x" using that \<open>paged q\<close> paged_disjoint by blast
    with q(2,3) show ?thesis by (intro st64_outside) (auto simp: in_page_def)
  qed
  have e: "ld64 ?m (slot pt j) = ld64 m (slot pt j)" if "j < 512" for j
    using out [of pt] pt(1) pt(2) [OF px_less] q(1) that by (intro ld64_slot_cong) auto
  have sub: "?m x = m x" if "j < 512" "j \<noteq> ?i" "ld64 m (slot pt j) AND PTE_V \<noteq> 0" "p \<in> F j" "in_page p x" for j p x
  proof (rule out [OF that(5)])
    show "paged p" using pt(4) [OF that(1,3)] that(4) by (rule ptree_paged)
    show "p \<noteq> q" using pt(3) [OF that(1) px_less that(2)] that(4) q(1) by blast
  qed
  have tr: "ptree l ?m (?c j) (F j)" if "j < 512" "ld64 m (slot pt j) AND PTE_V \<noteq> 0" for j
  proof (cases "j = ?i")
    case True
    with q(4) show ?thesis by simp
  next
    case False
    show ?thesis by (rule ptree_cong [OF pt(4) [OF that]]) (rule sub [OF that(1) False that(2)])
  qed
  have "if ld64 ?m (slot pt j) AND PTE_V = 0 then F j = {} else node (ld64 ?m (slot pt j)) \<and> ptree l ?m (PTE2PA (ld64 ?m (slot pt j))) (F j)"
    if "j < 512" for j
    using e [OF that] tr [OF that] pt(5) [OF that] kids_node [OF F(2) that] by simp
  then have kk: "kids l ?m pt F" using pt(1-3) unfolding kids_def by blast
  have "pt_walk (Suc l) ?m pt va' = pt_walk (Suc l) m pt va' \<and> ent (Suc l) ?m pt va'
      = (if same_page (Suc l) va va' then v else ent (Suc l) m pt va')" for va'
  proof (cases "px (Suc l) va' = ?i")
    case True
    with e [OF px_less] v pt(1) q(5,6) [of va'] show ?thesis
      by (simp add: ent_Suc pt_walk_Suc Let_def same_page_Suc)
  next
    case False
    let ?j = "px (Suc l) va'"
    show ?thesis
    proof (cases "ld64 m (slot pt ?j) AND PTE_V = 0")
      case True
      with False e [OF px_less] pt(1) show ?thesis
        by (simp add: ent_Suc pt_walk_Suc Let_def same_page_Suc)
    next
      case v': False
      have "pt_walk l ?m (?c ?j) va' = pt_walk l m (?c ?j) va' \<and> ent l ?m (?c ?j) va' = ent l m (?c ?j) va'"
        by (rule ent_cong [OF pt(4) [OF px_less v']]) (rule sub [OF px_less False v'])
      with False v' e [OF px_less] pt(1) show ?thesis
        by (simp add: ent_Suc pt_walk_Suc Let_def same_page_Suc)
    qed
  qed
  moreover have "q \<in> T" using F(1) q(1) px_less by blast
  ultimately show ?case using q(2,3) F(1) kk unfolding ptree_Suc by blast
qed

lemma stk_leaf:
  assumes "ptree l (mem s) pt T" "pt_walk l (mem s) pt va = Some a" "alloc_ready s ps" "T \<inter> set ps = {}"
  shows "\<exists>t. stk a v s = Done () t \<and> ptree l (mem t) pt T \<and> alloc_ready t ps \<and> touches T s t
    \<and> (\<forall>va'. pt_walk l (mem t) pt va' = pt_walk l (mem s) pt va'
        \<and> ent l (mem t) pt va' = (if same_page l va va' then v else ent l (mem s) pt va'))"
proof -
  let ?t = "s\<lparr>mem := st64 (mem s) (unat a) v\<rparr>"
  obtain q i where q: "q \<in> T" "i < 512" "unat a = slot q i" and p: "ptree l (mem ?t) pt T"
    "\<forall>va'. pt_walk l (mem ?t) pt va' = pt_walk l (mem s) pt va'
        \<and> ent l (mem ?t) pt va' = (if same_page l va va' then v else ent l (mem s) pt va')"
    using store_leaf [OF assms(1,2), of v] by auto
  have T: "paged p" if "p \<in> T" for p using assms(1) that by (rule ptree_paged)
  have "st64 (mem s) (unat a) v x = mem s x" if "\<not> in_page q x" for x
    using that q by (intro st64_outside) (auto simp: in_page_def)
  then have tch: "touches T s ?t"
    using q(1) unfolding touches_def
    by (intro exI [of _ "freelist s"] exI [of _ "st64 (mem s) (unat a) v"]) auto
  moreover have "alloc_ready ?t ps" by (rule touches_ready [OF assms(3) tch _ T assms(4)]) simp
  ultimately show ?thesis using p by (intro exI [of _ ?t]) (simp add: stk_def)
qed

section \<open>Virtual pages\<close>

abbreviation vpn :: "u64 \<Rightarrow> nat" where
  "vpn va \<equiv> unat va div 4096"

lemma MAXVA_unat [simp]: "unat MAXVA = 2 ^ 38"
  by (simp add: MAXVA_def)

lemma px_eq: "px l va = unat va div 2 ^ (12 + 9 * l) mod 512"
proof -
  have m: "(0x1FF :: u64) = mask 9" by (simp add: mask_eq_exp_minus_1)
  have "PX l va = take_bit 9 (drop_bit (12 + 9 * l) va)"
    unfolding PX_def m by (simp only: take_bit_eq_mask)
  moreover have "take_bit 64 (unat va) = unat va"
    using unsigned_less [of va, where ?'a = nat] by (intro take_bit_nat_eq_self) simp
  ultimately have "px l va = take_bit 9 (drop_bit (12 + 9 * l) (unat va))"
    by (simp add: unsigned_take_bit_eq unsigned_drop_bit_eq)
  then show ?thesis by (simp add: take_bit_eq_mod drop_bit_eq_div)
qed

lemma same_page_vpn':
  assumes "unat va < 2 ^ 39" "unat va' < 2 ^ 39"
  shows "same_page 2 va va' \<longleftrightarrow> vpn va = vpn va'"
proof -
  have split: "vpn w = px 0 w + 512 * px 1 w + 262144 * px 2 w" if "unat w < 2 ^ 39" for w
  proof -
    have "vpn w div 512 div 512 < 512" using that by (simp add: div_less_iff_less_mult flip: div_mult2_eq)
    moreover have "px 0 w = vpn w mod 512" "px 1 w = vpn w div 512 mod 512"
      "px 2 w = vpn w div 512 div 512 mod 512"
      unfolding px_eq by (simp_all add: div_mult2_eq [symmetric])
    moreover have "x = x mod 512 + 512 * (x div 512 mod 512) + 262144 * (x div 512 div 512)" for x :: nat
      using mod_mult_div_eq [of x 512] mod_mult_div_eq [of "x div 512" 512] by linarith
    ultimately show ?thesis using mod_less [of "vpn w div 512 div 512" 512] by metis
  qed
  show ?thesis
  proof
    assume "same_page 2 va va'"
    then have "px 0 va = px 0 va'" "px 1 va = px 1 va'" "px 2 va = px 2 va'"
      by (simp_all add: same_page_def)
    then show "vpn va = vpn va'" using split assms by simp
  next
    assume v: "vpn va = vpn va'"
    have "px l w = vpn w div 2 ^ (9 * l) mod 512" for l w
      unfolding px_eq by (simp add: div_mult2_eq power_add)
    with v show "same_page 2 va va'" by (simp add: same_page_def)
  qed
qed

lemma same_page_vpn: "va < MAXVA \<Longrightarrow> va' < MAXVA \<Longrightarrow> same_page 2 va va' \<longleftrightarrow> vpn va = vpn va'"
  by (rule same_page_vpn') (simp_all add: unat_less_mono)

section \<open>mappages\<close>

definition pt_ok :: "'x kmem_scheme \<Rightarrow> u64 \<Rightarrow> u64 set \<Rightarrow> u64 list \<Rightarrow> bool" where
  "pt_ok s pt T ps \<longleftrightarrow> ptree 2 (mem s) pt T \<and> alloc_ready s ps \<and> T \<inter> set ps = {}"

text \<open>What translates \<open>va\<close> in a user or kernel page table.\<close>

definition pte_of :: "'x kmem_scheme \<Rightarrow> u64 \<Rightarrow> u64 \<Rightarrow> u64" where
  "pte_of s pt va = ent 2 (mem s) pt va"

text \<open>\<open>k\<close> pages from \<open>a\<close> on now translate to the physical pages from \<open>pa\<close> on.\<close>

definition mapped :: "u64 \<Rightarrow> u64 \<Rightarrow> u64 \<Rightarrow> nat \<Rightarrow> (u64 \<Rightarrow> u64) \<Rightarrow> u64 \<Rightarrow> u64" where
  "mapped a pa perm k f va =
     (if vpn a \<le> vpn va \<and> vpn va < vpn a + k
      then PA2PTE (pa + of_nat (vpn va - vpn a) * PGSIZE) OR perm OR PTE_V else f va)"

definition moved :: "u64 \<Rightarrow> u64 set \<Rightarrow> u64 list \<Rightarrow> 'x kmem_scheme \<Rightarrow> u64 set \<Rightarrow> u64 list
    \<Rightarrow> 'x kmem_scheme \<Rightarrow> bool" where
  "moved pt T ps s T' ps' t \<longleftrightarrow> pt_ok t pt T' ps' \<and> T \<subseteq> T' \<and> T' \<union> set ps' = T \<union> set ps \<and> touches T' s t"

lemma moved_trans:
  "moved pt T ps s T' ps' t \<Longrightarrow> moved pt T' ps' t T'' ps'' u \<Longrightarrow> moved pt T ps s T'' ps'' u"
  unfolding moved_def using touches_trans [of T' s t T'' u T''] by auto

lemma pte_of_walk: "pt_walk 2 (mem t) pt va = Some a \<Longrightarrow> ld64 (mem t) (unat a) = pte_of t pt va"
  by (simp add: pte_of_def ent_def)

lemma walk_alloc:
  assumes "pt_ok s pt T ps" "va < MAXVA"
  shows "\<exists>r t T' ps'. walk pt va True s = Done r t \<and> moved pt T ps s T' ps' t
    \<and> (\<forall>w. pte_of t pt w = pte_of s pt w)
    \<and> (if r = 0 then ps' = [] else pt_walk 2 (mem t) pt va = Some r)"
proof -
  obtain r t T' ps' where "walk_from 2 pt va True s = Done r t" "grown 2 pt T ps s T' ps' t"
    "if r = 0 then ps' = [] else pt_walk 2 (mem t) pt va = Some r"
    using walk_from_alloc [of 2 s pt T ps va] assms(1) unfolding pt_ok_def by blast
  moreover from this(2) have "moved pt T ps s T' ps' t" "\<forall>w. pte_of t pt w = pte_of s pt w"
    by (auto simp: grown_def moved_def pt_ok_def pte_of_def)
  ultimately show ?thesis using assms(2)
    by (intro exI [of _ r] exI [of _ t] exI [of _ T'] exI [of _ ps']) (simp add: walk_def)
qed

lemma set_leaf:
  assumes "pt_ok s pt T ps" "pt_walk 2 (mem s) pt va = Some a" "va < MAXVA"
  shows "\<exists>t. stk a v s = Done () t \<and> moved pt T ps s T ps t
    \<and> (\<forall>w < MAXVA. pte_of t pt w = (if vpn w = vpn va then v else pte_of s pt w))"
proof -
  obtain t where "stk a v s = Done () t" "ptree 2 (mem t) pt T" "alloc_ready t ps" "touches T s t"
    "\<forall>w. ent 2 (mem t) pt w = (if same_page 2 va w then v else ent 2 (mem s) pt w)"
    using stk_leaf [of 2 s pt T va a ps v] assms(1,2) unfolding pt_ok_def by blast
  with assms show ?thesis
    by (intro exI [of _ t]) (auto simp: moved_def pt_ok_def pte_of_def same_page_vpn)
qed

lemma vpn_next:
  assumes "4096 dvd unat a" "unat a + 4096 \<le> 2 ^ 38"
  shows "unat (a + PGSIZE) = unat a + 4096" "vpn (a + PGSIZE) = Suc (vpn a)"
    "4096 dvd unat (a + PGSIZE)"
proof -
  show u: "unat (a + PGSIZE) = unat a + 4096" using assms(2) by (subst unat_add_less) simp_all
  show "vpn (a + PGSIZE) = Suc (vpn a)" "4096 dvd unat (a + PGSIZE)" using assms(1) u by simp_all
qed

lemma mappages_loop_ok:
  assumes "pt_ok s pt T ps" "4096 dvd unat a" "unat a + 4096 * Suc n \<le> 2 ^ 38"
    "\<forall>w < MAXVA. vpn a \<le> vpn w \<and> vpn w \<le> vpn a + n \<longrightarrow> pte_of s pt w AND PTE_V = 0"
  shows "\<exists>r t T' ps' k. mappages_loop pt perm a pa n s = Done r t \<and> moved pt T ps s T' ps' t
    \<and> (\<forall>w < MAXVA. pte_of t pt w = mapped a pa perm k (pte_of s pt) w)
    \<and> (r = 0 \<and> k = Suc n \<or> r = - 1 \<and> k \<le> n \<and> ps' = [])"
  using assms
proof (induction n arbitrary: s T ps a pa)
  case 0
  have a: "a < MAXVA" using 0(3) by (simp add: unat_less_mono)
  obtain r t T' ps' where w: "walk pt a True s = Done r t" "moved pt T ps s T' ps' t"
    "\<forall>w. pte_of t pt w = pte_of s pt w" "if r = 0 then ps' = [] else pt_walk 2 (mem t) pt a = Some r"
    using walk_alloc [OF 0(1) a] by blast
  show ?case
  proof (cases "r = 0")
    case True
    with w show ?thesis
      by (intro exI [of _ "- 1"] exI [of _ t] exI [of _ T'] exI [of _ ps'] exI [of _ 0])
        (auto simp: kernel_simps mapped_def)
  next
    case False
    then have pw: "pt_walk 2 (mem t) pt a = Some r" using w(4) by simp
    have "ld64 (mem t) (unat r) AND PTE_V = 0"
      using 0(4) a w(3) pte_of_walk [OF pw] by simp
    moreover obtain u where u: "stk r (PA2PTE pa OR perm OR PTE_V) t = Done () u" "moved pt T' ps' t T' ps' u"
      "\<forall>x < MAXVA. pte_of u pt x = (if vpn x = vpn a then PA2PTE pa OR perm OR PTE_V else pte_of t pt x)"
      using set_leaf [OF _ pw a] w(2) unfolding moved_def by blast
    ultimately have "mappages_loop pt perm a pa 0 s = Done 0 u"
      using w(1) False by (simp add: kernel_simps ldk_def)
    moreover have "\<forall>x < MAXVA. pte_of u pt x = mapped a pa perm (Suc 0) (pte_of s pt) x"
      using u(3) w(3) by (auto simp: mapped_def)
    ultimately show ?thesis using moved_trans [OF w(2) u(2)] by blast
  qed
next
  case (Suc n)
  have a: "a < MAXVA" using Suc.prems(3) by (simp add: unat_less_mono)
  obtain r t T' ps' where w: "walk pt a True s = Done r t" "moved pt T ps s T' ps' t"
    "\<forall>w. pte_of t pt w = pte_of s pt w" "if r = 0 then ps' = [] else pt_walk 2 (mem t) pt a = Some r"
    using walk_alloc [OF Suc.prems(1) a] by blast
  show ?case
  proof (cases "r = 0")
    case True
    with w show ?thesis
      by (intro exI [of _ "- 1"] exI [of _ t] exI [of _ T'] exI [of _ ps'] exI [of _ 0])
        (auto simp: kernel_simps mapped_def)
  next
    case False
    then have pw: "pt_walk 2 (mem t) pt a = Some r" using w(4) by simp
    have v: "ld64 (mem t) (unat r) AND PTE_V = 0"
      using Suc.prems(4) a w(3) pte_of_walk [OF pw] by simp
    obtain u where u: "stk r (PA2PTE pa OR perm OR PTE_V) t = Done () u" "moved pt T' ps' t T' ps' u"
      "\<forall>x < MAXVA. pte_of u pt x = (if vpn x = vpn a then PA2PTE pa OR perm OR PTE_V else pte_of t pt x)"
      using set_leaf [OF _ pw a] w(2) unfolding moved_def by blast
    note nx = vpn_next [OF Suc.prems(2)]
    have b: "unat a + 4096 \<le> 2 ^ 38" using Suc.prems(3) by simp
    have ok: "pt_ok u pt T' ps'" using u(2) by (simp add: moved_def)
    have "unat (a + PGSIZE) + 4096 * Suc n \<le> 2 ^ 38" using Suc.prems(3) nx(1) [OF b] by simp
    moreover have "\<forall>x < MAXVA. vpn (a + PGSIZE) \<le> vpn x \<and> vpn x \<le> vpn (a + PGSIZE) + n
        \<longrightarrow> pte_of u pt x AND PTE_V = 0"
      using Suc.prems(4) u(3) w(3) nx(2) [OF b] by auto
    ultimately obtain q z T'' ps'' k where z: "mappages_loop pt perm (a + PGSIZE) (pa + PGSIZE) n u = Done q z"
      "moved pt T' ps' u T'' ps'' z"
      "\<forall>x < MAXVA. pte_of z pt x = mapped (a + PGSIZE) (pa + PGSIZE) perm k (pte_of u pt) x"
      "q = 0 \<and> k = Suc n \<or> q = - 1 \<and> k \<le> n \<and> ps'' = []"
      using Suc.IH [OF ok nx(3) [OF b]] by blast
    have "mappages_loop pt perm a pa (Suc n) s = Done q z"
      using w(1) False u(1) v z(1) by (subst mappages_loop.simps) (simp add: kernel_simps ldk_def del: mappages_loop.simps)
    moreover have "pte_of z pt x = mapped a pa perm (Suc k) (pte_of s pt) x" if "x < MAXVA" for x
      using z(3) u(3) w(3) nx(2) [OF b] that
      by (auto simp: mapped_def of_nat_diff algebra_simps)
    moreover have "moved pt T ps s T'' ps'' z" using moved_trans moved_trans w(2) u(2) z(2) by blast
    ultimately show ?thesis using z(4)
      by (intro exI [of _ q] exI [of _ z] exI [of _ T''] exI [of _ ps''] exI [of _ "Suc k"]) auto
  qed
qed

declare mappages_loop.simps [simp del]

section \<open>walkaddr\<close>

lemma pt_walk_nonzero: "ptree l m pt T \<Longrightarrow> pt_walk l m pt va = Some a \<Longrightarrow> a \<noteq> 0"
proof -
  assume a: "ptree l m pt T" "pt_walk l m pt va = Some a"
  then obtain q i where q: "q \<in> T" "unat a = slot q i" using store_leaf by blast
  have "paged q" using a(1) q(1) by (rule ptree_paged)
  with q(2) show ?thesis by (auto simp: paged_def simp flip: unat_eq_zero)
qed

definition uacc :: "'x kmem_scheme \<Rightarrow> u64 \<Rightarrow> u64 \<Rightarrow> bool" where
  "uacc s pt va \<longleftrightarrow> va < MAXVA \<and> pte_of s pt va AND PTE_V \<noteq> 0 \<and> pte_of s pt va AND PTE_U \<noteq> 0
     \<and> PTE2PA (pte_of s pt va) \<noteq> 0"

definition upa :: "'x kmem_scheme \<Rightarrow> u64 \<Rightarrow> u64 \<Rightarrow> u64" where
  "upa s pt va = PTE2PA (pte_of s pt va)"

lemma walkaddr_app:
  assumes "ptree 2 (mem s) pt T"
  shows "walkaddr pt va s = Done (if uacc s pt va then upa s pt va else 0) s"
proof (cases "va < MAXVA")
  case False
  then show ?thesis by (auto simp: walkaddr_def uacc_def)
next
  case True
  show ?thesis
  proof (cases "pt_walk 2 (mem s) pt va")
    case None
    with True show ?thesis
      by (simp add: walkaddr_def walk_def walk_from_lookup kernel_simps uacc_def pte_of_def ent_def not_le)
  next
    case (Some a)
    with True pt_walk_nonzero [OF assms Some] show ?thesis
      by (simp add: walkaddr_def walk_def walk_from_lookup kernel_simps uacc_def upa_def ldk_def
          pte_of_walk [OF Some] not_le)
  qed
qed

lemma pte_of_vpn: "vpn a = vpn b \<Longrightarrow> pte_of s pt a = pte_of s pt b"
proof -
  assume v: "vpn a = vpn b"
  have "px l w = vpn w div 2 ^ (9 * l) mod 512" for l w
    unfolding px_eq by (simp add: div_mult2_eq power_add)
  with v have "PX l a = PX l b" for l by (simp add: word_unat_eq_iff)
  then have "pt_walk l m pt a = pt_walk l m pt b" for l m pt
    by (induction l arbitrary: pt) (simp_all add: pt_walk.simps(2) Let_def)
  then show ?thesis by (simp add: pte_of_def ent_def)
qed

section \<open>Copying to and from user memory\<close>

definition uphys :: "'x kmem_scheme \<Rightarrow> u64 \<Rightarrow> u64 \<Rightarrow> nat" where
  "uphys s pt va = unat (upa s pt va) + unat va mod 4096"

text \<open>User memory is sane: the pages a user can access are pages of memory, none of them is part of
  the page table, and no two virtual pages share one.\<close>

definition umem_ok :: "'x kmem_scheme \<Rightarrow> u64 \<Rightarrow> u64 set \<Rightarrow> bool" where
  "umem_ok s pt T \<longleftrightarrow> ptree 2 (mem s) pt T
     \<and> (\<forall>w. uacc s pt w \<longrightarrow> paged (upa s pt w) \<and> upa s pt w \<notin> T)
     \<and> (\<forall>w w'. uacc s pt w \<and> uacc s pt w' \<and> upa s pt w = upa s pt w' \<longrightarrow> vpn w = vpn w')"

lemma uacc_vpn:
  assumes "vpn a = vpn b" "a < MAXVA" "b < MAXVA"
  shows "uacc s pt a = uacc s pt b" "upa s pt a = upa s pt b"
  using assms pte_of_vpn [of a b s pt] by (auto simp: uacc_def upa_def)

lemma PGROUNDDOWN_vpn: "vpn (PGROUNDDOWN va) = vpn va" "unat (PGROUNDDOWN va) = 4096 * vpn va"
  "unat (va - PGROUNDDOWN va) = unat va mod 4096" "va < MAXVA \<longleftrightarrow> PGROUNDDOWN va < MAXVA"
proof -
  show a: "vpn (PGROUNDDOWN va) = vpn va" "unat (PGROUNDDOWN va) = 4096 * vpn va"
    by (simp_all add: PGROUNDDOWN_unat)
  show "unat (va - PGROUNDDOWN va) = unat va mod 4096"
    using a(2) unat_sub [of "PGROUNDDOWN va" va]
    by (simp add: unat_le_mono mult.commute minus_mult_div_eq_mod)
  have "unat va < 274877906944 \<longleftrightarrow> vpn va < 67108864"
    by (simp add: div_less_iff_less_mult)
  then show "va < MAXVA \<longleftrightarrow> PGROUNDDOWN va < MAXVA"
    using a(2) by (simp add: unat_less_mono)
qed

lemma page_room_eq: "page_room va = 4096 - unat va mod 4096"
proof -
  have "unat (PGSIZE - (va - PGROUNDDOWN va)) = 4096 - unat va mod 4096"
    using unat_sub [of "va - PGROUNDDOWN va" PGSIZE] PGROUNDDOWN_vpn(3) [of va]
    by (simp add: unat_le_mono less_imp_le)
  then show ?thesis by (simp add: page_room_def)
qed

text \<open>Inside one page.\<close>

lemma in_page_addr:
  assumes "va < MAXVA" "i < page_room va"
  shows "unat (va + of_nat i) = unat va + i" "vpn (va + of_nat i) = vpn va"
    "unat (va + of_nat i) mod 4096 = unat va mod 4096 + i" "va + of_nat i < MAXVA"
proof -
  have v: "unat va < 2 ^ 38" using assms(1) by (simp add: unat_less_mono)
  have i: "unat va mod 4096 + i < 4096" using assms(2) by (simp add: page_room_eq)
  have m: "unat va = 4096 * vpn va + unat va mod 4096" by simp
  then have s: "unat va + i = 4096 * vpn va + (unat va mod 4096 + i)" by simp
  have d: "(4096 * q + r) div 4096 = q" "(4096 * q + r) mod 4096 = r" if "r < 4096" for q r :: nat
    using that by simp_all
  show u: "unat (va + of_nat i) = unat va + i"
    using v i by (simp add: unat_word_ariths unat_of_nat)
  show "vpn (va + of_nat i) = vpn va" "unat (va + of_nat i) mod 4096 = unat va mod 4096 + i"
    unfolding u s by (rule d [OF i])+
  then show "va + of_nat i < MAXVA"
    using assms(1) PGROUNDDOWN_vpn(2,4) by (metis unat_less_mono)
qed

lemma uacc_page:
  assumes "i < page_room va" "va < MAXVA"
  shows "uacc s pt (va + of_nat i) = uacc s pt va" "upa s pt (va + of_nat i) = upa s pt va"
    "uphys s pt (va + of_nat i) = uphys s pt va + i"
  using uacc_vpn [OF in_page_addr(2) [OF assms(2,1)] in_page_addr(4) [OF assms(2,1)] assms(2), of s pt]
    in_page_addr(3) [OF assms(2,1)] by (simp_all add: uphys_def)

lemma next_page_addr:
  assumes "va < MAXVA"
  shows "PGROUNDDOWN va + PGSIZE = va + of_nat (page_room va)"
proof -
  have v: "unat va < 2 ^ 38" using assms by (simp add: unat_less_mono)
  have r: "page_room va \<le> 4096" by (simp add: page_room_eq)
  then have o: "unat (of_nat (page_room va) :: u64) = page_room va" by (simp add: unat_of_nat)
  have "unat (PGROUNDDOWN va + PGSIZE) = 4096 * vpn va + 4096"
    using PGROUNDDOWN_vpn(2) [of va] v by (subst unat_add_less) simp_all
  moreover have "unat (va + of_nat (page_room va)) = unat va + page_room va"
    using v r o by (subst unat_add_less) simp_all
  moreover have "unat va + page_room va = 4096 * vpn va + 4096"
    unfolding page_room_eq using mult_div_mod_eq [of 4096 "unat va"] mod_less_divisor [of 4096 "unat va"]
    by linarith
  ultimately show ?thesis by (simp add: word_unat_eq_iff)
qed

lemma page_start:
  assumes "ptree 2 (mem s) pt T"
  shows "walkaddr pt (PGROUNDDOWN va) s = Done (if uacc s pt va then upa s pt va else 0) s"
proof -
  have "uacc s pt (PGROUNDDOWN va) = uacc s pt va" "upa s pt (PGROUNDDOWN va) = upa s pt va"
    using pte_of_vpn [OF PGROUNDDOWN_vpn(1), of s pt va] PGROUNDDOWN_vpn(4) [of va]
    by (auto simp: uacc_def upa_def)
  then show ?thesis by (simp add: walkaddr_app [OF assms])
qed

lemma unat_upa_off:
  assumes "paged (upa s pt va)"
  shows "unat (upa s pt va + (va - PGROUNDDOWN va)) = uphys s pt va"
proof -
  have "unat (upa s pt va) < 0x88000000" using assms by (simp add: paged_def unat_less_mono)
  moreover have "unat (va - PGROUNDDOWN va) < 4096" by (simp add: PGROUNDDOWN_vpn(3))
  ultimately show ?thesis
    by (subst unat_add_less) (simp_all add: uphys_def PGROUNDDOWN_vpn(3))
qed

lemma copyin_ok:
  assumes "umem_ok s pt T"
  shows "\<exists>r k. copyin pt va n s = Done (r, map (\<lambda>i. mem s (uphys s pt (va + of_nat i))) [0..<k]) s
    \<and> (\<forall>i<k. uacc s pt (va + of_nat i))
    \<and> (if r = 0 then k = n else r = - 1 \<and> k < n \<and> \<not> uacc s pt (va + of_nat k))"
proof (induction n arbitrary: va rule: less_induct)
  case (less n)
  have pt: "ptree 2 (mem s) pt T" using assms by (simp add: umem_ok_def)
  show ?case
  proof (cases "n = 0")
    case True
    then show ?thesis by (subst copyin.simps) (auto intro!: exI [of _ 0])
  next
    case n: False
    show ?thesis
    proof (cases "uacc s pt va")
      case False
      with n show ?thesis
        by (subst copyin.simps) (auto simp: Let_def kernel_simps page_start [OF pt] intro!: exI [of _ 0])
    next
      case True
      let ?m = "min (page_room va) n" and ?f = "\<lambda>i. mem s (uphys s pt (va + of_nat i))"
      have va: "va < MAXVA" and pg: "paged (upa s pt va)" "upa s pt va \<noteq> 0"
        using True assms by (auto simp: uacc_def umem_ok_def upa_def)
      have m: "n - ?m < n" using n page_room_pos [of va] by simp
      have pre: "get_bytes (mem s) (uphys s pt va) ?m = map ?f [0..<?m]"
        by (rule nth_equalityI) (auto simp: uacc_page(3) va)
      let ?va' = "PGROUNDDOWN va + PGSIZE"
      obtain r k where k: "copyin pt ?va' (n - ?m) s
            = Done (r, map (\<lambda>i. mem s (uphys s pt (?va' + of_nat i))) [0..<k]) s"
          "\<forall>i<k. uacc s pt (?va' + of_nat i)"
          "if r = 0 then k = n - ?m else r = - 1 \<and> k < n - ?m \<and> \<not> uacc s pt (?va' + of_nat k)"
        using less.IH [OF m] by blast
      have nx: "?va' + of_nat i = va + of_nat (?m + i)" if "n \<noteq> ?m" for i
      proof -
        have "?m = page_room va" using that by simp
        then show ?thesis using next_page_addr [OF va] by (simp add: add.assoc)
      qed
      have k0: "k = 0" if "n = ?m" using k(3) that by (auto split: if_splits)
      have ap: "map ?f [0..<?m] @ map (\<lambda>i. mem s (uphys s pt (?va' + of_nat i))) [0..<k] = map ?f [0..<?m + k]"
      proof (cases "n = ?m")
        case False
        then show ?thesis using nx [OF False]
          by (intro nth_equalityI) (auto simp: nth_append)
      qed (simp add: k0)
      have "copyin pt va n s = Done (r, map ?f [0..<?m + k]) s"
        using n True pg k(1) pre ap
        by (subst copyin.simps)
          (simp add: Let_def kernel_simps page_start [OF pt] unat_upa_off)
      moreover have "uacc s pt (va + of_nat i)" if "i < ?m + k" for i
      proof (cases "i < ?m")
        case True
        with \<open>uacc s pt va\<close> va show ?thesis by (simp add: uacc_page(1))
      next
        case False
        then have nm: "n \<noteq> ?m" using k0 that by auto
        have "i - ?m < k" using False that by linarith
        then have "uacc s pt (?va' + of_nat (i - ?m))" using k(2) by blast
        moreover have "?m + (i - ?m) = i" using False by linarith
        ultimately show ?thesis using nx [OF nm, of "i - ?m"] by (simp only:)
      qed
      moreover have "if r = 0 then ?m + k = n else r = - 1 \<and> ?m + k < n \<and> \<not> uacc s pt (va + of_nat (?m + k))"
      proof (cases "n = ?m")
        case True
        then have "n - ?m = 0" by linarith
        with k(3) k0 True show ?thesis by (simp split: if_splits)
      next
        case False
        have le: "?m \<le> n" by simp
        show ?thesis
        proof (cases "r = 0")
          case True
          with k(3) le show ?thesis by simp
        next
          case r: False
          then have "r = - 1" "k < n - ?m" "\<not> uacc s pt (?va' + of_nat k)" using k(3) by simp_all
          moreover from this(2) have "?m + k < n" by linarith
          ultimately show ?thesis using r nx [OF False, of k] by (simp only: if_False simp_thms)
        qed
      qed
      ultimately show ?thesis by (intro exI [of _ r] exI [of _ "?m + k"]) blast
    qed
  qed
qed

lemma uphys_inj:
  assumes "umem_ok s pt T" "uacc s pt w" "uacc s pt w'" "uphys s pt w = uphys s pt w'"
  shows "w = w'"
proof -
  have pg: "paged (upa s pt w)" "paged (upa s pt w')" using assms(1-3) by (auto simp: umem_ok_def)
  have "in_page (upa s pt w) (uphys s pt w)" "in_page (upa s pt w') (uphys s pt w)"
    using assms(4) by (auto simp: in_page_def uphys_def)
  then have up: "upa s pt w = upa s pt w'" using paged_disjoint [OF pg] by blast
  have "vpn w = vpn w'" using assms(1-3) up unfolding umem_ok_def by blast
  moreover have "unat w mod 4096 = unat w' mod 4096" using assms(4) up by (simp add: uphys_def)
  ultimately have "unat w = unat w'"
    using mult_div_mod_eq [of 4096 "unat w"] mult_div_mod_eq [of 4096 "unat w'"] by linarith
  then show ?thesis by (simp add: word_unat_eq_iff)
qed

lemma write_user:
  assumes u: "umem_ok s pt T" "uacc s pt va" "length bs \<le> page_room va"
  shows "umem_ok (s\<lparr>mem := put_bytes (mem s) (uphys s pt va) bs\<rparr>) pt T"
    "pte_of (s\<lparr>mem := put_bytes (mem s) (uphys s pt va) bs\<rparr>) pt w = pte_of s pt w"
proof -
  let ?t = "s\<lparr>mem := put_bytes (mem s) (uphys s pt va) bs\<rparr>"
  have pg: "paged (upa s pt va)" "upa s pt va \<notin> T" and tr: "ptree 2 (mem s) pt T"
    using u by (auto simp: umem_ok_def)
  have "mem ?t x = mem s x" if "\<not> in_page (upa s pt va) x" for x
    using that u(3) by (auto simp: in_page_def uphys_def page_room_eq put_bytes_def)
  then have "touches {upa s pt va} s ?t"
    unfolding touches_def
    by (intro exI [of _ "freelist s"] exI [of _ "mem ?t"]) auto
  note tt = touches_ptree [OF this tr]
  have e: "pte_of ?t pt w = pte_of s pt w" for w
    unfolding pte_of_def by (rule tt(3)) (use pg in auto)
  then show "pte_of ?t pt w = pte_of s pt w" .
  have "uacc ?t pt w = uacc s pt w" "upa ?t pt w = upa s pt w" for w
    using e [of w] by (simp_all add: uacc_def upa_def)
  moreover have "ptree 2 (mem ?t) pt T" by (rule tt(1)) (use pg in auto)
  ultimately show "umem_ok ?t pt T" using u(1) by (simp add: umem_ok_def)
qed

lemma same_ptes:
  assumes "\<And>w. pte_of t pt w = pte_of s pt w"
  shows "uacc t pt = uacc s pt" "upa t pt = upa s pt" "uphys t pt = uphys s pt"
  using assms by (auto simp: fun_eq_iff uacc_def upa_def uphys_def)

text \<open>What \<open>copyout\<close> does: the first \<open>k\<close> bytes arrive, nothing else changes, and \<open>k\<close> is all
  unless the next address is not the user's.\<close>

definition copied :: "u64 \<Rightarrow> u64 \<Rightarrow> byte list \<Rightarrow> nat \<Rightarrow> 'x kmem_scheme \<Rightarrow> 'x kmem_scheme \<Rightarrow> bool" where
  "copied pt va bs k s t \<longleftrightarrow> (\<exists>m. t = s\<lparr>mem := m\<rparr>) \<and> (\<forall>w. pte_of t pt w = pte_of s pt w)
     \<and> (\<forall>i<k. uacc s pt (va + of_nat i) \<and> mem t (uphys s pt (va + of_nat i)) = bs ! i)
     \<and> (\<forall>x. (\<forall>i<k. x \<noteq> uphys s pt (va + of_nat i)) \<longrightarrow> mem t x = mem s x)"

lemma copied_append:
  assumes u: "umem_ok s pt T" and n: "length (as @ bs) < 2 ^ 64" "k \<le> length bs"
    and a: "copied pt va as (length as) s t"
    and b: "copied pt (va + of_nat (length as)) bs k t v"
  shows "copied pt va (as @ bs) (length as + k) s v"
proof -
  let ?m = "length as"
  have pt: "\<And>w. pte_of t pt w = pte_of s pt w" using a by (simp add: copied_def)
  note same = same_ptes [OF pt]
  have ad: "va + of_nat ?m + of_nat j = va + of_nat (?m + j)" for j by simp
  have acc: "uacc s pt (va + of_nat i)" if "i < ?m + k" for i
  proof (cases "i < ?m")
    case True
    with a show ?thesis by (simp add: copied_def)
  next
    case False
    then have "uacc t pt (va + of_nat ?m + of_nat (i - ?m))" using b that by (simp add: copied_def del: of_nat_diff)
    with False show ?thesis unfolding ad same by simp
  qed
  have neq: "uphys s pt (va + of_nat i) \<noteq> uphys s pt (va + of_nat j)" if "i < j" "j < ?m + k" for i j
  proof
    assume "uphys s pt (va + of_nat i) = uphys s pt (va + of_nat j)"
    moreover have "uacc s pt (va + of_nat i)" "uacc s pt (va + of_nat j)" using acc that by simp_all
    ultimately have "va + of_nat i = va + of_nat j" using uphys_inj [OF u] by blast
    then have "unat (of_nat i :: u64) = unat (of_nat j :: u64)" by simp
    with that n show False by (simp add: unat_of_nat)
  qed
  have "mem v (uphys s pt (va + of_nat i)) = (as @ bs) ! i" if i: "i < ?m + k" for i
  proof (cases "i < ?m")
    case True
    have "uphys s pt (va + of_nat i) \<noteq> uphys t pt (va + of_nat ?m + of_nat j)" if "j < k" for j
      using neq [of i "?m + j"] True that unfolding ad same by simp
    then have "mem v (uphys s pt (va + of_nat i)) = mem t (uphys s pt (va + of_nat i))"
      using b by (simp add: copied_def)
    with a True show ?thesis by (simp add: copied_def nth_append)
  next
    case False
    then have "mem v (uphys t pt (va + of_nat ?m + of_nat (i - ?m))) = bs ! (i - ?m)"
      using b i by (simp add: copied_def del: of_nat_diff)
    with False show ?thesis unfolding ad same by (simp add: nth_append)
  qed
  moreover have "mem v x = mem s x" if x: "\<forall>i < ?m + k. x \<noteq> uphys s pt (va + of_nat i)" for x
  proof -
    have "x \<noteq> uphys t pt (va + of_nat ?m + of_nat i)" if "i < k" for i
      using x [rule_format, of "?m + i"] that unfolding ad same by simp
    then have "mem v x = mem t x" using b by (simp add: copied_def del: of_nat_add)
    also have "\<dots> = mem s x" using a x by (simp add: copied_def)
    finally show ?thesis .
  qed
  moreover have "\<exists>m. v = s\<lparr>mem := m\<rparr>" using a b by (auto simp: copied_def)
  moreover have "\<forall>w. pte_of v pt w = pte_of s pt w" using a b by (simp add: copied_def)
  ultimately show ?thesis using acc unfolding copied_def by blast
qed

lemma copyout_page:
  assumes u: "umem_ok s pt T" "uacc s pt va" "length bs \<le> page_room va"
  shows "copied pt va bs (length bs) s (s\<lparr>mem := put_bytes (mem s) (uphys s pt va) bs\<rparr>)"
proof -
  let ?t = "s\<lparr>mem := put_bytes (mem s) (uphys s pt va) bs\<rparr>"
  have va: "va < MAXVA" using u(2) by (simp add: uacc_def)
  have ph: "uacc s pt (va + of_nat i)" "uphys s pt (va + of_nat i) = uphys s pt va + i"
    if "i < length bs" for i
    using uacc_page [OF _ va, of i s pt] that u(2,3) by simp_all
  have "mem ?t x = mem s x" if "\<forall>i<length bs. x \<noteq> uphys s pt (va + of_nat i)" for x
  proof -
    have "x < uphys s pt va \<or> uphys s pt va + length bs \<le> x"
    proof (rule ccontr)
      assume "\<not> ?thesis"
      then have "x - uphys s pt va < length bs" "uphys s pt va + (x - uphys s pt va) = x" by auto
      with that ph(2) show False by metis
    qed
    then show ?thesis by (simp add: put_bytes_outside)
  qed
  then show ?thesis
    using ph write_user(2) [OF u] unfolding copied_def by (auto simp: put_bytes_inside)
qed

lemma copied_umem:
  assumes "umem_ok s pt T" "copied pt va bs k s t"
  shows "umem_ok t pt T"
proof -
  have m: "\<And>w. pte_of t pt w = pte_of s pt w" using assms(2) by (simp add: copied_def)
  have pg: "paged p" if "p \<in> T" for p using assms(1) that ptree_paged by (auto simp: umem_ok_def)
  have tr: "ptree 2 (mem s) pt T" using assms(1) by (simp add: umem_ok_def)
  have "mem t x = mem s x" if "p \<in> T" "in_page p x" for p x
  proof -
    have "x \<noteq> uphys s pt (va + of_nat i)" if "i < k" for i
    proof
      assume x: "x = uphys s pt (va + of_nat i)"
      have a: "paged (upa s pt (va + of_nat i))" "upa s pt (va + of_nat i) \<notin> T"
        using assms that by (simp_all add: umem_ok_def copied_def)
      have "in_page (upa s pt (va + of_nat i)) x" by (simp add: x in_page_def uphys_def)
      then have "upa s pt (va + of_nat i) = p"
        using paged_disjoint [OF a(1) pg [OF \<open>p \<in> T\<close>]] \<open>in_page p x\<close> by blast
      with a(2) \<open>p \<in> T\<close> show False by blast
    qed
    with assms(2) show ?thesis by (simp add: copied_def)
  qed
  then have "ptree 2 (mem t) pt T" by (rule ptree_cong [OF tr])
  with assms(1) same_ptes [OF m] show ?thesis unfolding umem_ok_def by simp
qed

lemma copyout_ok:
  assumes "umem_ok s pt T" "length bs < 2 ^ 64"
  shows "\<exists>r t k. copyout pt va bs s = Done r t \<and> copied pt va bs k s t
    \<and> (if r = 0 then k = length bs else r = - 1 \<and> k < length bs \<and> \<not> uacc s pt (va + of_nat k))"
  using assms
proof (induction "length bs" arbitrary: va bs s rule: less_induct)
  case less
  have tr: "ptree 2 (mem s) pt T" using less.prems by (simp add: umem_ok_def)
  have c0: "copied pt va xs 0 s s" for xs
    using exI [of "\<lambda>m. s = s\<lparr>mem := m\<rparr>" "mem s"] by (simp add: copied_def)
  show ?case
  proof (cases "bs = []")
    case True
    with c0 show ?thesis by (subst copyout.simps) auto
  next
    case n: False
    show ?thesis
    proof (cases "uacc s pt va")
      case False
      with n c0 [of bs] show ?thesis
        by (subst copyout.simps)
          (auto simp: Let_def kernel_simps page_start [OF tr] intro!: exI [of _ 0])
    next
      case True
      let ?m = "min (page_room va) (length bs)"
      let ?t = "s\<lparr>mem := put_bytes (mem s) (uphys s pt va) (take ?m bs)\<rparr>"
      let ?va' = "PGROUNDDOWN va + PGSIZE"
      have va: "va < MAXVA" and pg: "paged (upa s pt va)" "upa s pt va \<noteq> 0"
        using True less.prems(1) by (auto simp: uacc_def umem_ok_def upa_def)
      have c: "copied pt va (take ?m bs) (length (take ?m bs)) s ?t"
        using less.prems(1) True by (rule copyout_page) simp
      have ut: "umem_ok ?t pt T" using less.prems(1) c by (rule copied_umem)
      have m: "length (drop ?m bs) < length bs" "length (drop ?m bs) < 2 ^ 64"
        using n page_room_pos [of va] less.prems(2) by auto
      obtain r v k where v: "copyout pt ?va' (drop ?m bs) ?t = Done r v" "copied pt ?va' (drop ?m bs) k ?t v"
          "if r = 0 then k = length (drop ?m bs)
           else r = - 1 \<and> k < length (drop ?m bs) \<and> \<not> uacc ?t pt (?va' + of_nat k)"
        using less.hyps [OF m(1) ut m(2), of ?va'] by blast
      have run: "copyout pt va bs s = Done r v"
        using n True pg v(1)
        by (subst copyout.simps)
          (simp add: Let_def kernel_simps page_start [OF tr] putmem_def unat_upa_off)
      have same: "uacc ?t pt = uacc s pt" using c by (intro same_ptes) (simp add: copied_def)
      show ?thesis
      proof (cases "length bs \<le> page_room va")
        case all: True
        then have "drop ?m bs = []" "take ?m bs = bs" by simp_all
        with v have "r = 0" "v = ?t" by (simp_all add: copyout.simps split: if_splits)
        with c \<open>take ?m bs = bs\<close> have "copied pt va bs (length bs) s v" by simp
        with run \<open>r = 0\<close> show ?thesis by auto
      next
        case more: False
        then have nx: "?va' = va + of_nat (length (take ?m bs))" using next_page_addr [OF va] by simp
        have kl: "k \<le> length (drop ?m bs)" using v(3) by (auto split: if_splits)
        have "copied pt va (take ?m bs @ drop ?m bs) (length (take ?m bs) + k) s v"
          by (rule copied_append [OF less.prems(1) _ kl c v(2) [unfolded nx]]) (use less.prems(2) in simp)
        then have cc: "copied pt va bs (?m + k) s v" by simp
        have "?va' + of_nat k = va + of_nat (?m + k)" using more nx by simp
        then have "if r = 0 then ?m + k = length bs
            else r = - 1 \<and> ?m + k < length bs \<and> \<not> uacc s pt (va + of_nat (?m + k))"
          using v(3) same more by (auto simp del: of_nat_add split: if_splits)
        with run cc show ?thesis by blast
      qed
    qed
  qed
qed

section \<open>An example address space\<close>

text \<open>A page table at 0x80001000 with its two lower levels in the next two pages; it maps the user page
  0 to the physical page 0x80004000, readable and writable. Two more pages are free.\<close>

definition demo_mem :: bytes where
  "demo_mem = st64 (st64 (st64 (st64 (\<lambda>_. 0) 0x80001000 (PA2PTE 0x80002000 OR PTE_V))
     0x80002000 (PA2PTE 0x80003000 OR PTE_V))
     0x80003000 (PA2PTE 0x80004000 OR 23)) 0x80005000 0x80006000"

lemma zero_ld64: "ld64 (\<lambda>_. 0) a = 0"
  by (rule ld64_zero) simp

lemma demo_ld64:
  "i < 512 \<Longrightarrow> ld64 demo_mem (0x80001000 + 8 * i) = (if i = 0 then PA2PTE 0x80002000 OR PTE_V else 0)"
  "i < 512 \<Longrightarrow> ld64 demo_mem (0x80002000 + 8 * i) = (if i = 0 then PA2PTE 0x80003000 OR PTE_V else 0)"
  "i < 512 \<Longrightarrow> ld64 demo_mem (0x80003000 + 8 * i) = (if i = 0 then PA2PTE 0x80004000 OR 23 else 0)"
  "ld64 demo_mem 0x80005000 = 0x80006000" "ld64 demo_mem 0x80006000 = 0"
  by (auto simp: demo_mem_def ld64_st64_other zero_ld64)

lemmas demo_ld64_0 = demo_ld64(1) [of 0, simplified] demo_ld64(2) [of 0, simplified]
  demo_ld64(3) [of 0, simplified]

lemma demo_paged: "paged 0x80001000" "paged 0x80002000" "paged 0x80003000" "paged 0x80004000"
  by (simp_all add: paged_def PGSIZE_def unat_less_mono)

lemma demo_pa: "PTE2PA (PA2PTE 0x80002000 OR PTE_V) = 0x80002000"
  "PTE2PA (PA2PTE 0x80003000 OR PTE_V) = 0x80003000" "PTE2PA (PA2PTE 0x80004000 OR 23) = 0x80004000"
  by (rule PTE2PA_PA2PTE; simp add: PGSIZE_def PTE_V_def)+

lemma demo_tree: "ptree 2 demo_mem 0x80001000 {0x80001000, 0x80002000, 0x80003000}"
proof -
  have "kids 0 demo_mem 0x80002000 (\<lambda>i. if i = 0 then {0x80003000} else {})"
    unfolding kids_def using demo_paged by (auto simp: demo_ld64 demo_pa node_new)
  then have one: "ptree (Suc 0) demo_mem 0x80002000 {0x80002000, 0x80003000}"
    unfolding ptree_Suc by (intro exI [of _ "\<lambda>i. if i = 0 then {0x80003000} else {}"]) auto
  have "kids (Suc 0) demo_mem 0x80001000 (\<lambda>i. if i = 0 then {0x80002000, 0x80003000} else {})"
    unfolding kids_def using demo_paged one by (auto simp: demo_ld64 demo_pa node_new)
  then have "ptree (Suc (Suc 0)) demo_mem 0x80001000 {0x80001000, 0x80002000, 0x80003000}"
    unfolding ptree_Suc [of "Suc 0"]
    by (intro exI [of _ "\<lambda>i. if i = 0 then {0x80002000, 0x80003000} else {}"]) auto
  then show ?thesis unfolding numeral_2_eq_2 .
qed

lemma demo_pte:
  assumes "mem s = demo_mem"
  shows "pte_of s 0x80001000 w = (if same_page 2 0 w then PA2PTE 0x80004000 OR 23 else 0)"
proof -
  have z: "px l 0 = 0" for l by (simp add: px_eq)
  have "pte_of s 0x80001000 w = ent (Suc (Suc 0)) demo_mem 0x80001000 w"
    using assms unfolding pte_of_def numeral_2_eq_2 by simp
  also have "\<dots> = (if px (Suc (Suc 0)) w = 0 \<and> px (Suc 0) w = 0 \<and> px 0 w = 0
      then PA2PTE 0x80004000 OR 23 else 0)"
    using demo_paged by (simp add: ent_Suc ent_0 demo_ld64 demo_ld64_0 demo_pa Let_def)
  also have "(px (Suc (Suc 0)) w = 0 \<and> px (Suc 0) w = 0 \<and> px 0 w = 0) = same_page 2 0 w"
    unfolding numeral_2_eq_2 by (auto simp: same_page_def z le_Suc_eq)
  finally show ?thesis .
qed

lemma demo_pte_bits: "(PA2PTE 0x80004000 OR 23) AND PTE_V \<noteq> 0" "(PA2PTE 0x80004000 OR 23) AND PTE_U \<noteq> 0"
  by (simp_all add: PA2PTE_def PTE_V_def PTE_U_def)

lemma demo_uacc:
  assumes "mem s = demo_mem"
  shows "uacc s 0x80001000 w \<longleftrightarrow> w < PGSIZE"
    "w < PGSIZE \<Longrightarrow> upa s 0x80001000 w = 0x80004000"
proof -
  have v: "same_page 2 0 w \<longleftrightarrow> w < PGSIZE" if "w < MAXVA"
    using same_page_vpn [of 0 w] that by (simp add: unat_less_mono div_eq_0_iff)
  have "w < MAXVA" if "w < PGSIZE" using that by (simp add: unat_less_mono)
  with v demo_pte_bits show "uacc s 0x80001000 w \<longleftrightarrow> w < PGSIZE"
    "w < PGSIZE \<Longrightarrow> upa s 0x80001000 w = 0x80004000"
    by (auto simp: uacc_def upa_def demo_pte [OF assms] demo_pa)
qed

lemma demo_umem: "mem s = demo_mem \<Longrightarrow> umem_ok s 0x80001000 {0x80001000, 0x80002000, 0x80003000}"
  using demo_tree demo_paged
  by (auto simp: umem_ok_def demo_uacc unat_less_mono)

definition demo_vm :: kmem where
  "demo_vm = \<lparr>held = [], mem = demo_mem, freelist = 0x80005000, kend = 0x80001000\<rparr>"

lemma demo_pt_ok: "pt_ok demo_vm 0x80001000 {0x80001000, 0x80002000, 0x80003000} [0x80005000, 0x80006000]"
  using demo_tree
  by (simp add: pt_ok_def demo_vm_def alloc_ready_def free_pages_def page_ok_def demo_ld64 PGSIZE_def
      unat_less_mono)

section \<open>Properties\<close>

lemma walk_lookup:
  assumes "ptree 2 (mem s) pt T" "w < MAXVA"
  shows "\<exists>a. walk pt w False s = Done a s \<and> pte_of s pt w = (if a = 0 then 0 else ld64 (mem s) (unat a))"
proof (cases "pt_walk 2 (mem s) pt w")
  case None
  with assms(2) show ?thesis by (simp add: walk_def walk_from_lookup pte_of_def ent_def)
next
  case (Some a)
  with assms(2) pt_walk_nonzero [OF assms(1) Some] pte_of_walk [OF Some] show ?thesis
    by (simp add: walk_def walk_from_lookup)
qed

lemma mappages_count:
  assumes "sz \<noteq> 0" "unat va + unat sz \<le> 2 ^ 38"
  shows "unat (va + sz - 1) = unat va + unat sz - 1"
    "unat ((PGROUNDDOWN (va + sz - 1) - PGROUNDDOWN va) div PGSIZE) = vpn (va + sz - 1) - vpn va"
proof -
  have "unat (va + sz) = unat va + unat sz" using assms(2) by (intro unat_add_less) simp
  moreover have "0 < unat sz" using assms(1) by (simp add: unat_gt_0)
  moreover have "(1 :: u64) \<le> va + sz" using calculation by (simp add: word_le_nat_alt)
  ultimately show u: "unat (va + sz - 1) = unat va + unat sz - 1"
    using unat_sub [of 1 "va + sz"] by simp
  let ?l = "va + sz - 1"
  have "vpn va \<le> vpn ?l" using u \<open>0 < unat sz\<close> by (simp add: div_le_mono)
  then have "unat (PGROUNDDOWN ?l - PGROUNDDOWN va) = 4096 * (vpn ?l - vpn va)"
    using unat_sub [of "PGROUNDDOWN va" "PGROUNDDOWN ?l"]
    by (simp add: unat_le_mono PGROUNDDOWN_vpn(2) diff_mult_distrib2 del: mult_le_cancel1)
  then show "unat ((PGROUNDDOWN ?l - PGROUNDDOWN va) div PGSIZE) = vpn ?l - vpn va"
    by (simp add: unat_div_distrib)
qed

text \<open>C20: \<open>mappages\<close> on a well-formed page table with an unmapped range below MAXVA does not panic. If it
  returns 0, the pages of the range translate to the physical pages from \<open>pa\<close> on with the given
  permissions and no other translation changed; if it returns -1, memory was exhausted. In both cases
  the result is a well-formed table that \<open>walk\<close> reads, made of the old table pages and pages taken from
  the free list, and no other memory changed.\<close>

theorem mappages_translates:
  assumes "pt_ok s pt T ps" "sz \<noteq> 0" "unat va + unat sz \<le> 2 ^ 38"
    "\<forall>w < MAXVA. vpn va \<le> vpn w \<and> vpn w \<le> vpn (va + sz - 1) \<longrightarrow> pte_of s pt w AND PTE_V = 0"
  shows "\<exists>r t T' ps'. mappages pt va sz pa perm s = Done r t \<and> moved pt T ps s T' ps' t
    \<and> (r = 0 \<and> (\<forall>w < MAXVA. pte_of t pt w
           = mapped va pa perm (Suc (vpn (va + sz - 1) - vpn va)) (pte_of s pt) w)
       \<or> r = - 1 \<and> ps' = [])
    \<and> (\<forall>w < MAXVA. \<exists>a. walk pt w False t = Done a t
           \<and> pte_of t pt w = (if a = 0 then 0 else ld64 (mem t) (unat a)))"
proof -
  let ?a = "PGROUNDDOWN va" and ?l = "va + sz - 1" and ?n = "vpn (va + sz - 1) - vpn va"
  note l = mappages_count [OF assms(2,3)]
  have "unat va \<le> unat ?l" using l(1) assms(2) unat_gt_0 [of sz] by linarith
  then have le: "vpn va \<le> vpn ?l" by (rule div_le_mono)
  have l38: "unat ?l < 2 ^ 38" using l(1) assms(2,3) unat_gt_0 [of sz] by linarith
  have "4096 * vpn ?l + 4096 \<le> 2 ^ 38"
  proof -
    have "vpn ?l < 67108864" using l38 by (simp add: div_less_iff_less_mult)
    then show ?thesis by simp
  qed
  then have b: "unat ?a + 4096 * Suc ?n \<le> 2 ^ 38" using le by (simp add: PGROUNDDOWN_vpn(2) diff_mult_distrib2)
  have d: "4096 dvd unat ?a" by (simp add: PGROUNDDOWN_vpn(2))
  have f: "\<forall>w < MAXVA. vpn ?a \<le> vpn w \<and> vpn w \<le> vpn ?a + ?n \<longrightarrow> pte_of s pt w AND PTE_V = 0"
    using assms(4) le by (simp add: PGROUNDDOWN_vpn(1))
  obtain r t T' ps' k where t: "mappages_loop pt perm ?a pa ?n s = Done r t" "moved pt T ps s T' ps' t"
    "\<forall>w < MAXVA. pte_of t pt w = mapped ?a pa perm k (pte_of s pt) w"
    "r = 0 \<and> k = Suc ?n \<or> r = - 1 \<and> k \<le> ?n \<and> ps' = []"
    using mappages_loop_ok [OF assms(1) d b f] by blast
  have "mappages pt va sz pa perm s = Done r t"
    using assms(2) t(1) l(2) by (simp add: mappages_def Let_def)
  moreover have "mapped ?a pa perm k (pte_of s pt) = mapped va pa perm k (pte_of s pt)"
    by (simp add: mapped_def fun_eq_iff PGROUNDDOWN_vpn(1))
  moreover have "ptree 2 (mem t) pt T'" using t(2) by (simp add: moved_def pt_ok_def)
  ultimately show ?thesis using t(2-4) walk_lookup by metis
qed

lemma mappages_translates_witness:
  "\<exists>r t T' ps'. mappages 0x80001000 0x3000 0x1000 0x80006000 6 demo_vm = Done r t
    \<and> moved 0x80001000 {0x80001000, 0x80002000, 0x80003000} [0x80005000, 0x80006000] demo_vm T' ps' t"
proof -
  have "pte_of demo_vm 0x80001000 w AND PTE_V = 0" if "w < MAXVA" "3 \<le> vpn w" for w
    using that demo_pte [of demo_vm w] same_page_vpn [of 0 w] by (auto simp: demo_vm_def unat_less_mono)
  then show ?thesis
    using mappages_translates [OF demo_pt_ok, of "0x1000" "0x3000" "0x80006000" 6]
    by auto
qed

text \<open>C19: \<open>copyout\<close> followed by \<open>copyin\<close> at the same user address returns the bytes that were written,
  wherever the range lies in user memory and however it crosses page boundaries.\<close>

theorem copyout_copyin_roundtrip:
  assumes "umem_ok s pt T" "length bs < 2 ^ 64" "\<forall>i < length bs. uacc s pt (va + of_nat i)"
  shows "\<exists>t. copyout pt va bs s = Done 0 t \<and> copyin pt va (length bs) t = Done (0, bs) t"
proof -
  obtain r t k where t: "copyout pt va bs s = Done r t" "copied pt va bs k s t"
    "if r = 0 then k = length bs else r = - 1 \<and> k < length bs \<and> \<not> uacc s pt (va + of_nat k)"
    using copyout_ok [OF assms(1,2)] by blast
  then have r: "r = 0" "k = length bs" using assms(3) by (auto split: if_splits)
  note same = same_ptes [of t pt s]
  have pt: "\<And>w. pte_of t pt w = pte_of s pt w" using t(2) by (simp add: copied_def)
  obtain q j where q: "copyin pt va (length bs) t
        = Done (q, map (\<lambda>i. mem t (uphys t pt (va + of_nat i))) [0..<j]) t"
      "if q = 0 then j = length bs else q = - 1 \<and> j < length bs \<and> \<not> uacc t pt (va + of_nat j)"
    using copyin_ok [OF copied_umem [OF assms(1) t(2)]] by blast
  then have "q = 0" "j = length bs" using assms(3) same(1) [OF pt] by (auto split: if_splits)
  moreover have "map (\<lambda>i. mem t (uphys t pt (va + of_nat i))) [0..<length bs] = bs"
    using t(2) r same(3) [OF pt] by (intro nth_equalityI) (simp_all add: copied_def)
  ultimately show ?thesis using t(1) q(1) r by auto
qed

lemma copyout_copyin_roundtrip_witness:
  "\<exists>t. copyout 0x80001000 0xFFE [7, 8] demo_vm = Done 0 t
     \<and> copyin 0x80001000 0xFFE 2 t = Done (0, [7, 8]) t"
proof -
  have m: "mem demo_vm = demo_mem" by (simp add: demo_vm_def)
  have l: "length [7, 8 :: byte] = 2" by simp
  have "\<forall>i < 2. uacc demo_vm 0x80001000 (0xFFE + of_nat i)"
    by (auto simp: demo_uacc [OF m] PGSIZE_def less_2_cases_iff)
  then show ?thesis
    using copyout_copyin_roundtrip [OF demo_umem [OF m], of "[7, 8]" "0xFFE"] unfolding l by simp
qed

text \<open>C21: \<open>copyout\<close> and \<open>copyin\<close> touch only memory that the page table gives to the user: whatever the
  address and length, they copy the longest prefix of the range that is user-accessible, byte for byte,
  change nothing else, and return 0 exactly when the whole range is accessible, -1 otherwise.\<close>

theorem copy_confined_to_user_memory:
  assumes "umem_ok s pt T" "length bs < 2 ^ 64"
  shows "(\<exists>r t k. copyout pt va bs s = Done r t \<and> copied pt va bs k s t
      \<and> (if r = 0 then k = length bs else r = - 1 \<and> k < length bs \<and> \<not> uacc s pt (va + of_nat k)))
    \<and> (\<exists>r k. copyin pt va n s = Done (r, map (\<lambda>i. mem s (uphys s pt (va + of_nat i))) [0..<k]) s
      \<and> (\<forall>i<k. uacc s pt (va + of_nat i))
      \<and> (if r = 0 then k = n else r = - 1 \<and> k < n \<and> \<not> uacc s pt (va + of_nat k)))"
  using copyout_ok [OF assms] copyin_ok [OF assms(1)] by blast

lemma copy_confined_to_user_memory_witness:
  "\<exists>t. copyout 0x80001000 0x1000 [7] demo_vm = Done (- 1) t"
proof -
  have "\<not> uacc demo_vm 0x80001000 0x1000" by (simp add: demo_vm_def demo_uacc PGSIZE_def)
  with copy_confined_to_user_memory [OF demo_umem, of demo_vm "[7]" "0x1000" 0] show ?thesis
    by (auto simp: demo_vm_def copied_def split: if_splits)
qed

end
