(* ===== verification/Demo.thy ===== *)
theory Demo
  imports Boot PageTable
begin

text \<open>
  A concrete kernel state. \<open>bss\<close> is the state with every static object zero, as the loader leaves the
  kernel's \<^verbatim>\<open>.bss\<close>; \<open>demo\<close> is a running system on top of it: the page table and the free pages of theory
  \<^verbatim>\<open>PageTable\<close>'s example, and one process (slot 0, pid 1) running on the hart with that page table.
  The examples of the other theories start from \<open>demo\<close>.
\<close>

definition no_proc :: proc where
  "no_proc = \<lparr>p_state = UNUSED, p_chan = None, p_killed = 0, p_xstate = 0, p_pid = 0, p_cputime = 0,
     p_priority = 0, p_readytime = 0, p_parent = None, p_kstack = 0, p_sz = 0, p_pagetable = 0, p_trapframe = 0,
     p_context = \<lparr>ctx_ra = 0, ctx_sp = 0, ctx_s = replicate 12 0\<rparr>, p_ofile = replicate 16 None, p_cwd = None,
     p_name = replicate 16 0\<rparr>"

definition no_buf :: buf where
  "no_buf = \<lparr>b_valid = 0, b_dev = 0, b_blockno = 0, b_refcnt = 0, b_prev = 0, b_next = 0, b_data = (\<lambda>_. 0)\<rparr>"

definition no_inode :: inode where
  "no_inode = \<lparr>i_dev = 0, i_inum = 0, i_ref = 0, i_valid = False, i_type = 0, i_major = 0, i_minor = 0,
     i_nlink = 0, i_size = 0, i_addrs = (\<lambda>_. 0)\<rparr>"

definition no_file :: kfile where
  "no_file = \<lparr>f_type = FD_NONE, f_ref = 0, f_readable = False, f_writable = False, f_pipe = 0, f_ip = 0,
     f_off = 0, f_major = 0\<rparr>"

definition no_pipe :: pipe where
  "no_pipe = \<lparr>pi_data = (\<lambda>_. 0), pi_nread = 0, pi_nwrite = 0, pi_readopen = False, pi_writeopen = False\<rparr>"

definition bss :: virtio where
  "bss = \<lparr>held = [], mem = (\<lambda>_. 0), freelist = 0, kend = 0x80001000,
     procs = (\<lambda>_. no_proc), curproc = None, initproc = None, nextpid = 1, ticks = 0,
     slocks = (\<lambda>_. \<lparr>sl_locked = 0, sl_name = [], sl_pid = 0\<rparr>),
     bufs = (\<lambda>_. no_buf), disk = (\<lambda>_ _. 0), dwrites = [],
     lg_start = 0, lg_size = 0, lg_outstanding = 0, lg_committing = False, lg_dev = 0, lh_n = 0,
     lh_block = (\<lambda>_. 0),
     fs_sb = \<lparr>sb_magic = 0, sb_size = 0, sb_nblocks = 0, sb_ninodes = 0, sb_nlog = 0, sb_logstart = 0,
       sb_inodestart = 0, sb_bmapstart = 0\<rparr>,
     inodes = (\<lambda>_. no_inode),
     uart_tx_buf = (\<lambda>_. 0), uart_tx_w = 0, uart_tx_r = 0, uart_out = [], uart_room = 0, uart_in = [],
     uart_regs = (\<lambda>_. 0), panicked = False, pr_locking = False,
     cons_buf = (\<lambda>_. 0), cons_r = 0, cons_w = 0, cons_e = 0, devsw_read = (\<lambda>_. False),
     devsw_write = (\<lambda>_. False),
     ftable = (\<lambda>_. no_file), pipes = (\<lambda>_. no_pipe), kjunk = (\<lambda>_. 0),
     kernel_pagetable = 0, sym_trampoline = 0x80000000, sym_uservec = 0x80000000, sym_userret = 0x80000090,
     sym_kernelvec = 0x80000200, sym_usertrap = 0x80000300, sym_forkret = 0x80000400, sym_etext = 0x80001000,
     first_forkret = True, r_sstatus = 0, r_sepc = 0, r_scause = 0, r_stval = 0, r_stvec = 0, r_satp = 0,
     r_sip = 0, r_tp = 0, plic_pending = [], plic_regs = [],
     vd_desc = (\<lambda>_. \<lparr>vq_addr = DNull, vq_len = 0, vq_flags = 0, vq_next = 0\<rparr>), vd_avail_idx = 0,
     vd_avail = (\<lambda>_. 0), vd_used_ring_idx = 0, vd_used = (\<lambda>_. \<lparr>ue_id = 0, ue_len = 0\<rparr>),
     vd_free = (\<lambda>_. False), vd_used_idx = 0, vd_info_b = (\<lambda>_. None), vd_info_status = (\<lambda>_. 0),
     vd_ops = (\<lambda>_. \<lparr>vr_type = 0, vr_reserved = 0, vr_sector = 0\<rparr>), vd_mmio = (\<lambda>_. 0),
     b_disk = (\<lambda>_. False), sym_disk_pages = 0x80001000\<rparr>"

definition demo_proc :: proc where
  "demo_proc = no_proc\<lparr>p_state := RUNNING, p_pid := 1, p_priority := 10, p_sz := 0x1000,
     p_pagetable := 0x80001000\<rparr>"

definition demo :: virtio where
  "demo = bss\<lparr>mem := demo_mem, freelist := 0x80005000, procs := (procs bss)(0 := demo_proc),
     curproc := Some 0, nextpid := 2\<rparr>"

lemma demo_simps [simp]:
  "held demo = []" "mem demo = demo_mem" "freelist demo = 0x80005000" "kend demo = 0x80001000"
  "procs demo p = (if p = 0 then demo_proc else no_proc)" "curproc demo = Some 0" "nextpid demo = 2"
  "pipes demo a = no_pipe" "ftable demo i = no_file" "inodes demo i = no_inode" "bufs demo i = no_buf"
  "initproc demo = None" "ticks demo = 0"
  by (simp_all add: demo_def bss_def)

lemma demo_proc_simps [simp]:
  "p_state demo_proc = RUNNING" "p_pid demo_proc = 1" "p_pagetable demo_proc = 0x80001000" "p_killed demo_proc = 0"
  "p_sz demo_proc = 0x1000" "p_state no_proc = UNUSED" "p_killed no_proc = 0" "p_pid no_proc = 0"
  by (simp_all add: demo_proc_def no_proc_def)

lemma demo_umem_ok: "umem_ok demo 0x80001000 {0x80001000, 0x80002000, 0x80003000}"
  by (rule demo_umem) simp

declare mappages_loop.simps [simp del]

end
