(* ===== verification/Ring.thy ===== *)
theory Ring
  imports Prelude
begin

text \<open>
  Ring buffers with counters that wrap. A pipe (kernel/pipe.c), the console's input buffer
  (kernel/console.c) and the UART's output buffer (kernel/uart.c) keep a read and a write counter of a
  fixed width that are only ever incremented, and use them modulo the size of the buffer. That is a
  queue as long as the size divides the period of the counters. The locale \<open>byte_queue\<close> is the contract,
  interpreted for each of the three buffers in its own theory.
\<close>

definition ring_len :: "'w::len word \<Rightarrow> 'w word \<Rightarrow> nat" where
  "ring_len r w = unat (w - r)"

definition ring_items :: "nat \<Rightarrow> (nat \<Rightarrow> 'a) \<Rightarrow> 'w::len word \<Rightarrow> 'w word \<Rightarrow> 'a list" where
  "ring_items N d r w = map (\<lambda>k. d (unat (r + of_nat k) mod N)) [0..<ring_len r w]"

lemma ring_items_length [simp]: "length (ring_items N d r w) = ring_len r w"
  by (simp add: ring_items_def)

lemma ring_items_empty [simp]: "ring_items N d r r = []"
  by (simp add: ring_items_def ring_len_def)

lemma ring_len_zero: "ring_len r w = 0 \<longleftrightarrow> r = w"
  by (auto simp: ring_len_def unat_eq_zero)

lemma ring_len_eq: "n < 2 ^ LENGTH('w) \<Longrightarrow> ring_len (r :: 'w::len word) w = n \<longleftrightarrow> w = r + of_nat n"
proof -
  assume n: "n < 2 ^ LENGTH('w)"
  then have "unat (of_nat n :: 'w word) = n" by (simp add: unat_of_nat)
  then have "unat (w - r) = n \<longleftrightarrow> w - r = of_nat n" by (metis word_unat_eq_iff)
  then show ?thesis by (auto simp: ring_len_def algebra_simps)
qed

lemma ring_len_put:
  fixes r w :: "'w::len word"
  assumes "ring_len r w < N" "N < 2 ^ LENGTH('w)"
  shows "ring_len r (w + 1) = Suc (ring_len r w)"
proof -
  have "unat (w - r) + 1 < 2 ^ LENGTH('w)" using assms by (simp add: ring_len_def)
  then have "unat ((w - r) + 1) = unat (w - r) + 1" by (simp add: unat_word_ariths)
  then show ?thesis by (simp add: ring_len_def algebra_simps)
qed

lemma ring_len_get:
  fixes r w :: "'w::len word"
  assumes "r \<noteq> w"
  shows "ring_len r w = Suc (ring_len (r + 1) w)"
proof -
  have "unat ((w - r) - 1) = unat (w - r) - 1"
    using assms by (intro unat_minus_one) auto
  moreover have "unat (w - r) \<noteq> 0" using assms by (simp add: unat_eq_zero)
  ultimately show ?thesis by (simp add: ring_len_def algebra_simps)
qed

lemma ring_index:
  fixes r :: "'w::len word"
  assumes "N dvd 2 ^ LENGTH('w)"
  shows "unat (r + of_nat k) mod N = (unat r + k) mod N"
  using assms by (simp add: unat_word_ariths unat_of_nat mod_mod_cancel mod_simps)

lemma ring_put:
  fixes r w :: "'w::len word"
  assumes "N dvd 2 ^ LENGTH('w)" "N < 2 ^ LENGTH('w)" "ring_len r w < N"
  shows "ring_items N (d(unat w mod N := c)) r (w + 1) = ring_items N d r w @ [c]"
proof (rule nth_equalityI)
  let ?n = "ring_len r w"
  show "length (ring_items N (d(unat w mod N := c)) r (w + 1)) = length (ring_items N d r w @ [c])"
    using assms by (simp add: ring_len_put)
  have w: "w = r + of_nat ?n" by (simp add: ring_len_def)
  fix i assume "i < length (ring_items N (d(unat w mod N := c)) r (w + 1))"
  then have i: "i \<le> ?n" using assms by (simp add: ring_len_put)
  have "unat w mod N = (unat r + ?n) mod N"
    using ring_index [OF assms(1), of r ?n] w by simp
  moreover have "(unat r + i) mod N \<noteq> (unat r + ?n) mod N" if "i < ?n"
  proof
    assume "(unat r + i) mod N = (unat r + ?n) mod N"
    then have "N dvd ?n - i"
      using mod_eq_dvd_iff_nat [of "unat r + i" "unat r + ?n" N] that by (auto simp: eq_commute)
    with that assms(3) show False by (simp add: dvd_imp_le less_diff_conv not_le nat_dvd_not_less)
  qed
  ultimately show "ring_items N (d(unat w mod N := c)) r (w + 1) ! i = (ring_items N d r w @ [c]) ! i"
    using i assms by (auto simp: ring_items_def nth_append ring_len_put ring_index le_less
        simp del: upt_Suc)
qed

lemma ring_get:
  fixes r w :: "'w::len word"
  assumes "r \<noteq> w"
  shows "ring_items N d r w = d (unat r mod N) # ring_items N d (r + 1) w"
proof (rule nth_equalityI)
  show "length (ring_items N d r w) = length (d (unat r mod N) # ring_items N d (r + 1) w)"
    using ring_len_get [OF assms] by simp
  fix i assume "i < length (ring_items N d r w)"
  then show "ring_items N d r w ! i = (d (unat r mod N) # ring_items N d (r + 1) w) ! i"
    using ring_len_get [OF assms] by (cases i) (auto simp: ring_items_def algebra_simps simp del: upt_Suc)
qed

section \<open>The queue as an interface\<close>

locale byte_queue =
  fixes items :: "'q \<Rightarrow> byte list"
    and put :: "byte \<Rightarrow> 'q \<Rightarrow> 'q"
    and get :: "'q \<Rightarrow> byte \<times> 'q"
    and full :: "'q \<Rightarrow> bool"
    and empty :: "'q \<Rightarrow> bool"
    and cap :: nat
  assumes put_items: "length (items q) \<le> cap \<Longrightarrow> \<not> full q \<Longrightarrow> items (put c q) = items q @ [c]"
    and get_items: "\<not> empty q \<Longrightarrow> items q = fst (get q) # items (snd (get q))"
    and full_iff: "length (items q) \<le> cap \<Longrightarrow> full q \<longleftrightarrow> length (items q) = cap"
    and empty_iff: "empty q \<longleftrightarrow> items q = []"
begin

text \<open>A run of the queue: each element is \<open>Some c\<close> to add \<open>c\<close>, \<open>None\<close> to take one. The users of the buffer
  add only when it is not full and take only when it is not empty. The result is the bytes taken.\<close>

fun play :: "byte option list \<Rightarrow> 'q \<Rightarrow> byte list \<times> 'q" where
  "play [] q = ([], q)"
| "play (Some c # ops) q = play ops (if full q then q else put c q)"
| "play (None # ops) q =
     (if empty q then play ops q
      else (case play ops (snd (get q)) of (out, q') \<Rightarrow> (fst (get q) # out, q')))"

fun accepted :: "byte option list \<Rightarrow> 'q \<Rightarrow> byte list" where
  "accepted [] q = []"
| "accepted (Some c # ops) q = (if full q then accepted ops q else c # accepted ops (put c q))"
| "accepted (None # ops) q = accepted ops (if empty q then q else snd (get q))"

lemma put_cap: "length (items q) \<le> cap \<Longrightarrow> \<not> full q \<Longrightarrow> length (items (put c q)) \<le> cap"
  using put_items [of q c] full_iff [of q] by simp

lemma get_cap: "length (items q) \<le> cap \<Longrightarrow> \<not> empty q \<Longrightarrow> length (items (snd (get q))) \<le> cap"
  using arg_cong [OF get_items [of q], of length] by simp

lemma fifo:
  "length (items q) \<le> cap \<Longrightarrow> play ops q = (out, q') \<Longrightarrow>
   items q @ accepted ops q = out @ items q' \<and> length (items q') \<le> cap"
proof (induction ops q arbitrary: out q' rule: play.induct)
  case (1 q)
  then show ?case by simp
next
  case (2 c ops q)
  show ?case
  proof (cases "full q")
    case True
    with 2 show ?thesis by simp
  next
    case False
    then have "items (put c q) @ accepted ops (put c q) = out @ items q' \<and> length (items q') \<le> cap"
      using 2(1) [of out q'] 2(2,3) put_cap [OF 2(2) False, of c] by simp
    with False put_items [OF 2(2) False, of c] show ?thesis by simp
  qed
next
  case (3 ops q)
  show ?case
  proof (cases "empty q")
    case True
    with 3 show ?thesis by simp
  next
    case False
    obtain o1 q1 where o: "play ops (snd (get q)) = (o1, q1)" by (cases "play ops (snd (get q))")
    with 3(4) False have "out = fst (get q) # o1" "q' = q1" by auto
    moreover have "items (snd (get q)) @ accepted ops (snd (get q)) = o1 @ items q1
        \<and> length (items q1) \<le> cap"
      using 3(2) [OF False get_cap [OF 3(3) False] o] .
    ultimately show ?thesis using get_items [OF False] False by simp
  qed
qed

end

end
