(* ===== verification/Pipe_Queue.thy ===== *)
theory Pipe_Queue
  imports Demo Ring
begin

text \<open>
  A pipe is a queue of bytes: \<open>pipewrite\<close> appends what the writer's memory holds, \<open>piperead\<close> delivers
  from the front, across the wrap-around of the 32-bit counters. The ring of kernel/pipe.c is an
  instance of \<open>byte_queue\<close>.
\<close>

definition pipe_items :: "pipe \<Rightarrow> byte list" where
  "pipe_items q = ring_items PIPESIZE (pi_data q) (pi_nread q) (pi_nwrite q)"

definition pipe_put :: "byte \<Rightarrow> pipe \<Rightarrow> pipe" where
  "pipe_put c q = q\<lparr>pi_data := (pi_data q)(unat (pi_nwrite q) mod PIPESIZE := c), pi_nwrite := pi_nwrite q + 1\<rparr>"

definition pipe_get :: "pipe \<Rightarrow> byte \<times> pipe" where
  "pipe_get q = (pi_data q (unat (pi_nread q) mod PIPESIZE), q\<lparr>pi_nread := pi_nread q + 1\<rparr>)"

definition pipe_full :: "pipe \<Rightarrow> bool" where
  "pipe_full q \<longleftrightarrow> pi_nwrite q = pi_nread q + of_nat PIPESIZE"

definition pipe_empty :: "pipe \<Rightarrow> bool" where
  "pipe_empty q \<longleftrightarrow> pi_nread q = pi_nwrite q"

lemma pipe_size: "PIPESIZE dvd 2 ^ LENGTH(32)" "PIPESIZE < 2 ^ LENGTH(32)"
  by (simp_all add: PIPESIZE_def)

interpretation pq: byte_queue pipe_items pipe_put pipe_get pipe_full pipe_empty PIPESIZE
proof unfold_locales
  fix q c
  have f: "pipe_full q \<longleftrightarrow> length (pipe_items q) = PIPESIZE"
    using ring_len_eq [OF pipe_size(2), of "pi_nread q" "pi_nwrite q"]
    by (auto simp: pipe_full_def pipe_items_def)
  then show "length (pipe_items q) \<le> PIPESIZE \<Longrightarrow> pipe_full q \<longleftrightarrow> length (pipe_items q) = PIPESIZE" .
  show "length (pipe_items q) \<le> PIPESIZE \<Longrightarrow> \<not> pipe_full q \<Longrightarrow> pipe_items (pipe_put c q) = pipe_items q @ [c]"
    using ring_put [OF pipe_size, of "pi_nread q" "pi_nwrite q" "pi_data q" c] f
    by (simp add: pipe_items_def pipe_put_def)
  show "\<not> pipe_empty q \<Longrightarrow> pipe_items q = fst (pipe_get q) # pipe_items (snd (pipe_get q))"
    using ring_get [of "pi_nread q" "pi_nwrite q" PIPESIZE "pi_data q"]
    by (simp add: pipe_items_def pipe_get_def pipe_empty_def)
  show "pipe_empty q \<longleftrightarrow> pipe_items q = []"
    using ring_len_zero [of "pi_nread q" "pi_nwrite q"]
    by (simp add: pipe_items_def pipe_empty_def flip: length_0_conv)
qed

section \<open>One byte\<close>

lemma copyin1:
  assumes "umem_ok s pt T"
  shows "copyin pt a 1 s = (if uacc s pt a then Done (0, [mem s (uphys s pt a)]) s else Done (- 1, []) s)"
proof -
  obtain r k where c: "copyin pt a 1 s = Done (r, map (\<lambda>i. mem s (uphys s pt (a + of_nat i))) [0..<k]) s"
    "\<forall>i<k. uacc s pt (a + of_nat i)"
    "if r = 0 then k = 1 else r = - 1 \<and> k < 1 \<and> \<not> uacc s pt (a + of_nat k)"
    using copyin_ok [OF assms] by blast
  show ?thesis
  proof (cases "r = 0")
    case True
    with c(3) have k: "k = 1" by simp
    have "uacc s pt (a + of_nat 0)" using c(2) k by blast
    with c(1) k True show ?thesis by simp
  next
    case False
    then have k: "r = - 1" "k = 0" using c(3) by simp_all
    with c(3) have "\<not> uacc s pt a" by simp
    with c(1) k show ?thesis by simp
  qed
qed

text \<open>\<open>put1 s pt a c\<close>: the state after storing a byte at a user address.\<close>

definition put1 :: "u64 \<Rightarrow> u64 \<Rightarrow> byte \<Rightarrow> 'x kmem_scheme \<Rightarrow> 'x kmem_scheme" where
  "put1 pt a c s = s\<lparr>mem := (mem s)(uphys s pt a := c)\<rparr>"

lemma put_bytes_1: "put_bytes m a [c] = m(a := c)"
  by (simp add: put_bytes_Cons)

lemma put1_ok:
  assumes "umem_ok s pt T" "uacc s pt a"
  shows "umem_ok (put1 pt a c s) pt T" "pte_of (put1 pt a c s) pt w = pte_of s pt w"
  using write_user [OF assms, of "[c]"] page_room_pos [of a] by (simp_all add: put1_def put_bytes_1)

lemma copyout1:
  assumes "umem_ok s pt T"
  shows "copyout pt a [c] s = (if uacc s pt a then Done 0 (put1 pt a c s) else Done (- 1) s)"
proof -
  have tr: "ptree 2 (mem s) pt T" using assms by (simp add: umem_ok_def)
  show ?thesis
  proof (cases "uacc s pt a")
    case True
    then have "paged (upa s pt a)" "upa s pt a \<noteq> 0" using assms by (auto simp: umem_ok_def paged_def)
    moreover have "min (page_room a) 1 = 1" using page_room_pos [of a] by simp
    ultimately show ?thesis using True
      by (subst copyout.simps)
        (simp add: Let_def kernel_simps page_start [OF tr] putmem_def unat_upa_off put1_def put_bytes_1
          copyout.simps [of _ _ "[]"])
  next
    case False
    then show ?thesis by (subst copyout.simps) (simp add: Let_def kernel_simps page_start [OF tr])
  qed
qed

lemma modpi_app [simp, kernel_simps]: "modpi pi f s = Done () (s\<lparr>pipes := (pipes s)(pi := f (pipes s pi))\<rparr>)"
  by (simp add: modpi_def)

lemma getpi_app [simp, kernel_simps]: "getpi pi f s = Done (f (pipes s pi)) s"
  by (simp add: getpi_def)

text \<open>The parts of the state that the page-table predicates look at.\<close>

lemma umem_cong:
  assumes "mem t = mem s"
  shows "umem_ok t pt T = umem_ok s pt T" "uacc t pt = uacc s pt" "upa t pt = upa s pt"
    "uphys t pt = uphys s pt"
proof -
  have p: "pte_of t pt w = pte_of s pt w" for w using assms by (simp add: pte_of_def)
  show u: "uacc t pt = uacc s pt" "upa t pt = upa s pt" "uphys t pt = uphys s pt"
    using same_ptes [of t pt s] p by auto
  then show "umem_ok t pt T = umem_ok s pt T" using assms by (simp add: umem_ok_def)
qed

section \<open>pipewrite\<close>

abbreviation user_byte :: "'x kmem_scheme \<Rightarrow> u64 \<Rightarrow> u64 \<Rightarrow> nat \<Rightarrow> byte" where
  "user_byte s pt addr i \<equiv> mem s (uphys s pt (addr + of_nat i))"


lemma pipe_put_ends [simp]:
  "pi_readopen (pipe_put c q) = pi_readopen q" "pi_writeopen (pipe_put c q) = pi_writeopen q"
  by (simp_all add: pipe_put_def)

lemma pipewrite_loop_step:
  assumes "curproc s = Some p" "umem_ok s (p_pagetable (procs s p)) T" "p_killed (procs s p) = 0"
    "pi_readopen (pipes s pi)"
  shows "pipewrite_loop pi addr i (Suc left) s =
    (if pipe_full (pipes s pi) then thn (wakeup (Some (ChNread pi))) (sleep (ChNwrite pi) (LkPipe pi)) s
     else if uacc s (p_pagetable (procs s p)) (addr + of_nat i) then
       pipewrite_loop pi addr (Suc i) left
         (s\<lparr>pipes := (pipes s)(pi := pipe_put (user_byte s (p_pagetable (procs s p)) addr i) (pipes s pi))\<rparr>)
     else pipewrite_done pi i s)"
  using assms copyin1 [OF assms(2), of "addr + of_nat i"]
  by (simp add: pipewrite_loop.simps(2) kernel_simps pipe_full_def pipe_put_def)

declare pipewrite_loop.simps(2) [simp del]

lemma pipewrite_loop_ok:
  assumes "curproc s = Some p" "umem_ok s pt T" "pt = p_pagetable (procs s p)" "p_killed (procs s p) = 0"
    "pi_readopen (pipes s pi)" "length (pipe_items (pipes s pi)) \<le> PIPESIZE"
  shows "\<exists>k \<le> left. (\<exists>q. pipe_items q = pipe_items (pipes s pi) @ map (user_byte s pt addr) [i..<i + k]
    \<and> length (pipe_items q) \<le> PIPESIZE \<and> (\<forall>j<k. uacc s pt (addr + of_nat (i + j)))
    \<and> ((k = left \<or> \<not> uacc s pt (addr + of_nat (i + k)))
        \<and> pipewrite_loop pi addr i left s = pipewrite_done pi (i + k) (s\<lparr>pipes := (pipes s)(pi := q)\<rparr>)
      \<or> k < left \<and> pipe_full q \<and> pipewrite_loop pi addr i left s
         = thn (wakeup (Some (ChNread pi))) (sleep (ChNwrite pi) (LkPipe pi)) (s\<lparr>pipes := (pipes s)(pi := q)\<rparr>)))"
  using assms
proof (induction left arbitrary: i s)
  case 0
  then show ?case by (intro exI [of _ 0] conjI exI [of _ "pipes s pi"]) simp_all
next
  case (Suc left)
  note step = pipewrite_loop_step [OF Suc.prems(1) Suc.prems(2) [unfolded Suc.prems(3)] Suc.prems(4,5),
      of addr i left, folded Suc.prems(3)]
  show ?case
  proof (cases "pipe_full (pipes s pi) \<or> \<not> uacc s pt (addr + of_nat i)")
    case True
    then show ?thesis using step Suc.prems(6)
      by (intro exI [of _ 0] conjI exI [of _ "pipes s pi"]) auto
  next
    case False
    let ?c = "user_byte s pt addr i"
    let ?s = "s\<lparr>pipes := (pipes s)(pi := pipe_put ?c (pipes s pi))\<rparr>"
    note u = umem_cong [of ?s s, where pt = pt, simplified]
    have run: "pipewrite_loop pi addr i (Suc left) s = pipewrite_loop pi addr (Suc i) left ?s"
      using step False by simp
    have it: "pipe_items (pipe_put ?c (pipes s pi)) = pipe_items (pipes s pi) @ [?c]"
      using pq.put_items [OF Suc.prems(6)] False by blast
    have "length (pipe_items (pipes ?s pi)) \<le> PIPESIZE"
      using pq.put_cap [OF Suc.prems(6)] False by simp
    moreover have "curproc ?s = Some p" "umem_ok ?s pt T" "pt = p_pagetable (procs ?s p)"
      "p_killed (procs ?s p) = 0" "pi_readopen (pipes ?s pi)"
      using Suc.prems u(1) by simp_all
    ultimately obtain k q where q: "k \<le> left"
      "pipe_items q = pipe_items (pipes ?s pi) @ map (user_byte ?s pt addr) [Suc i..<Suc i + k]"
      "length (pipe_items q) \<le> PIPESIZE" "\<forall>j<k. uacc ?s pt (addr + of_nat (Suc i + j))"
      "(k = left \<or> \<not> uacc ?s pt (addr + of_nat (Suc i + k)))
        \<and> pipewrite_loop pi addr (Suc i) left ?s = pipewrite_done pi (Suc i + k) (?s\<lparr>pipes := (pipes ?s)(pi := q)\<rparr>)
       \<or> k < left \<and> pipe_full q \<and> pipewrite_loop pi addr (Suc i) left ?s
         = thn (wakeup (Some (ChNread pi))) (sleep (ChNwrite pi) (LkPipe pi)) (?s\<lparr>pipes := (pipes ?s)(pi := q)\<rparr>)"
      using Suc.IH [of ?s "Suc i"] by blast
    have e: "?s\<lparr>pipes := (pipes ?s)(pi := q)\<rparr> = s\<lparr>pipes := (pipes s)(pi := q)\<rparr>"
      "user_byte ?s pt addr = user_byte s pt addr" "uacc ?s pt = uacc s pt"
      using u by (simp_all add: fun_eq_iff)
    have "pipe_items q = pipe_items (pipes s pi) @ map (user_byte s pt addr) [i..<i + Suc k]"
    proof -
      have up: "[i..<i + Suc k] = i # [Suc i..<Suc i + k]" by (simp add: upt_conv_Cons del: upt_Suc)
      show ?thesis unfolding up using q(2) it unfolding e(2) by (simp del: upt_Suc)
    qed
    moreover have "\<forall>j<Suc k. uacc s pt (addr + of_nat (i + j))"
      using q(4) False unfolding e(3) less_Suc_eq_0_disj by (auto simp: ac_simps)
    moreover have "i + Suc k = Suc i + k" "(Suc k = Suc left) = (k = left)" "(Suc k < Suc left) = (k < left)"
      by simp_all
    ultimately show ?thesis
      using q(1,3,5) unfolding e run
      by (intro exI [of _ "Suc k"] conjI exI [of _ q]) (simp, assumption, assumption, assumption, (simp only:))
  qed
qed

section \<open>piperead\<close>

lemma copied_cong:
  assumes "mem s' = mem s" "copied pt va bs k s (s\<lparr>mem := m\<rparr>)"
  shows "copied pt va bs k s' (s'\<lparr>mem := m\<rparr>)"
proof -
  have "pte_of s' pt = pte_of s pt" "pte_of (s'\<lparr>mem := m\<rparr>) pt = pte_of (s\<lparr>mem := m\<rparr>) pt"
    using assms(1) by (intro ext, simp add: pte_of_def)+
  with assms umem_cong [OF assms(1), of pt] show ?thesis by (auto simp: copied_def)
qed

lemma copied_nil: "copied pt va [] 0 s (s\<lparr>mem := mem s\<rparr>)"
  unfolding copied_def by (auto intro: exI [of _ "mem s"])

lemma piperead_copy_step:
  assumes "curproc s = Some p" "umem_ok s pt T" "pt = p_pagetable (procs s p)"
  shows "piperead_copy pi addr i (Suc left) s =
    (if pipe_empty (pipes s pi) then piperead_done pi i s
     else let (c, q) = pipe_get (pipes s pi); s1 = s\<lparr>pipes := (pipes s)(pi := q)\<rparr> in
       if uacc s pt (addr + of_nat i) then
         piperead_copy pi addr (Suc i) left (put1 pt (addr + of_nat i) c s1)
       else piperead_done pi i s1)"
proof -
  let ?s1 = "s\<lparr>pipes := (pipes s)(pi := snd (pipe_get (pipes s pi)))\<rparr>"
  note u = umem_cong [of ?s1 s, where pt = pt, simplified]
  have "umem_ok ?s1 pt T" using assms(2) u by simp
  note c = copyout1 [OF this, of "addr + of_nat i" "fst (pipe_get (pipes s pi))", unfolded u]
  have r: "pi_nread_update (\<lambda>r. r + 1) P = P\<lparr>pi_nread := pi_nread P + 1\<rparr>" for P :: pipe
    by (cases P) simp
  show ?thesis
    using assms c by (simp add: kernel_simps pipe_empty_def pipe_get_def Let_def r)
qed

declare piperead_copy.simps(2) [simp del]

text \<open>The copy loop delivers the front of the queue. When the destination faults, the byte that was to go
  there has already left the queue (\<open>lost\<close>).\<close>

lemma piperead_copy_ok:
  assumes "curproc s = Some p" "umem_ok s pt T" "pt = p_pagetable (procs s p)" "i + left < 2 ^ 64"
  shows "\<exists>out lost q m. pipe_items (pipes s pi) = out @ lost @ pipe_items q \<and> length out \<le> left
    \<and> copied pt (addr + of_nat i) out (length out) s (s\<lparr>mem := m\<rparr>)
    \<and> (if lost = [] then length out = left \<or> pipe_items q = []
       else length lost = 1 \<and> length out < left \<and> \<not> uacc s pt (addr + of_nat (i + length out)))
    \<and> piperead_copy pi addr i left s
        = piperead_done pi (i + length out) (s\<lparr>mem := m, pipes := (pipes s)(pi := q)\<rparr>)"
  using assms
proof (induction left arbitrary: i s)
  case 0
  have "copied pt (addr + of_nat i) [] 0 s (s\<lparr>mem := mem s\<rparr>)" by (rule copied_nil)
  then show ?case
    by (intro exI [of _ "[]"] exI [of _ "pipes s pi"] exI [of _ "mem s"]) simp
next
  case (Suc left)
  note step = piperead_copy_step [OF Suc.prems(1-3), of pi addr i left]
  have c0: "copied pt (addr + of_nat i) [] 0 s (s\<lparr>mem := mem s\<rparr>)" by (rule copied_nil)
  show ?case
  proof (cases "pipe_empty (pipes s pi)")
    case True
    then have "pipe_items (pipes s pi) = []" using pq.empty_iff by blast
    with c0 step True show ?thesis
      by (intro exI [of _ "[]"] exI [of _ "pipes s pi"] exI [of _ "mem s"]) simp
  next
    case ne: False
    obtain c q where g: "pipe_get (pipes s pi) = (c, q)" by (cases "pipe_get (pipes s pi)")
    have it: "pipe_items (pipes s pi) = c # pipe_items q" using pq.get_items [OF ne] g by simp
    let ?s1 = "s\<lparr>pipes := (pipes s)(pi := q)\<rparr>"
    note u = umem_cong [of ?s1 s, where pt = pt, simplified]
    show ?thesis
    proof (cases "uacc s pt (addr + of_nat i)")
      case False
      with c0 step ne g it show ?thesis
        by - (rule exI [of _ "[]"], rule exI [of _ "[c]"], rule exI [of _ q], rule exI [of _ "mem s"],
          simp add: Let_def fun_upd_def)
    next
      case True
      let ?a = "addr + of_nat i" and ?s2 = "put1 pt (addr + of_nat i) c ?s1"
      have c1: "copied pt ?a [c] 1 s (put1 pt ?a c s)"
        using copyout_page [OF Suc.prems(2) True, of "[c]"] page_room_pos [of ?a]
        by (simp add: put1_def put_bytes_1)
      have m2: "mem ?s2 = mem (put1 pt ?a c s)" by (simp add: put1_def u)
      have "umem_ok ?s2 pt T" using umem_cong(1) [OF m2] copied_umem [OF Suc.prems(2) c1] by blast
      moreover have "curproc ?s2 = Some p" "pt = p_pagetable (procs ?s2 p)" "Suc i + left < 2 ^ 64"
        using Suc.prems by (simp_all add: put1_def)
      ultimately obtain out lost q' m where o: "pipe_items (pipes ?s2 pi) = out @ lost @ pipe_items q'"
        "length out \<le> left" "copied pt (addr + of_nat (Suc i)) out (length out) ?s2 (?s2\<lparr>mem := m\<rparr>)"
        "if lost = [] then length out = left \<or> pipe_items q' = []
         else length lost = 1 \<and> length out < left \<and> \<not> uacc ?s2 pt (addr + of_nat (Suc i + length out))"
        "piperead_copy pi addr (Suc i) left ?s2
          = piperead_done pi (Suc i + length out) (?s2\<lparr>mem := m, pipes := (pipes ?s2)(pi := q')\<rparr>)"
        using Suc.IH [of ?s2 "Suc i"] by blast
      have st: "?s2\<lparr>mem := m, pipes := (pipes ?s2)(pi := q')\<rparr> = s\<lparr>mem := m, pipes := (pipes s)(pi := q')\<rparr>"
        "pipes ?s2 pi = q" by (simp_all add: put1_def)
      have "copied pt (?a + of_nat (length [c])) out (length out) (put1 pt ?a c s) (put1 pt ?a c s\<lparr>mem := m\<rparr>)"
        using copied_cong [OF m2 [symmetric] o(3)] by (simp add: ac_simps)
      then have "copied pt ?a ([c] @ out) (length [c] + length out) s (put1 pt ?a c s\<lparr>mem := m\<rparr>)"
        using c1 Suc.prems(4) o(2) by (intro copied_append [OF Suc.prems(2)]) simp_all
      then have cc: "copied pt ?a (c # out) (length (c # out)) s (s\<lparr>mem := m\<rparr>)" by (simp add: put1_def)
      have "uacc ?s2 pt = uacc s pt"
        using umem_cong(2) [OF m2] same_ptes(1) [of "put1 pt ?a c s" pt s] put1_ok(2) [OF Suc.prems(2) True]
        by simp
      then have "if lost = [] then length (c # out) = Suc left \<or> pipe_items q' = []
         else length lost = 1 \<and> length (c # out) < Suc left \<and> \<not> uacc s pt (addr + of_nat (i + length (c # out)))"
        using o(4) by (auto simp: ac_simps split: if_splits)
      moreover have "piperead_copy pi addr i (Suc left) s
          = piperead_done pi (i + length (c # out)) (s\<lparr>mem := m, pipes := (pipes s)(pi := q')\<rparr>)"
        using step ne g True o(5) unfolding st by (simp add: Let_def)
      moreover have "pipe_items (pipes s pi) = (c # out) @ lost @ pipe_items q'"
        using it o(1) unfolding st by simp
      moreover have "length (c # out) \<le> Suc left" using o(2) by simp
      ultimately show ?thesis using cc by blast
    qed
  qed
qed

section \<open>The system calls on a pipe\<close>

text \<open>The queue and the processes after the call; \<open>piped s pi q ch\<close> has woken the sleepers on \<open>ch\<close>.\<close>

abbreviation piped :: "'x files_scheme \<Rightarrow> u64 \<Rightarrow> pipe \<Rightarrow> chan \<Rightarrow> 'x files_scheme" where
  "piped s pi q ch \<equiv> s\<lparr>pipes := (pipes s)(pi := q), procs := woken (Some ch) s\<rparr>"

lemma pipe_wake:
  fixes s :: "'x files_scheme"
  shows "wakeup ch (s\<lparr>held := [LkPipe pi], pipes := P\<rparr>)
    = Done () (s\<lparr>held := [LkPipe pi], pipes := P, procs := woken ch s\<rparr>)"
proof -
  have "woken ch (s\<lparr>held := [LkPipe pi], pipes := P\<rparr>) = woken ch s"
    by (intro ext) (simp add: woken_def sleeping_on_def)
  then show ?thesis by (simp add: wakeup_app can_wake_def no_plock_def)
qed

lemma pipe_done:
  fixes s :: "'x files_scheme"
  assumes "held s = []"
  shows "pipewrite_done pi k (s\<lparr>held := [LkPipe pi], pipes := P\<rparr>)
      = Done (int k) (s\<lparr>pipes := P, procs := woken (Some (ChNread pi)) s\<rparr>)"
    "piperead_done pi k (s\<lparr>held := [LkPipe pi], pipes := P\<rparr>)
      = Done (int k) (s\<lparr>pipes := P, procs := woken (Some (ChNwrite pi)) s\<rparr>)"
  using assms by (simp_all add: pipewrite_done_def piperead_done_def kernel_simps pipe_wake)

text \<open>C24: \<open>pipewrite\<close> by a live process on a pipe with an open read end appends, in order, the first \<open>k\<close>
  bytes of the user buffer to the queue of the pipe and keeps what was queued before. Either it returns
  \<open>k\<close>, having written all of the buffer or up to the first byte that is not accessible user memory, and
  the sleeping readers are runnable; or the queue is full and the process goes to sleep until a reader makes room,
  with the pipe's lock released. It never panics, and the queue never exceeds 512 bytes, whatever the
  32-bit counters are.\<close>

theorem pipewrite_appends:
  assumes "curproc s = Some p" "pt = p_pagetable (procs s p)" "umem_ok s pt T" "held s = []"
    "p_killed (procs s p) = 0" "pi_readopen (pipes s pi)" "length (pipe_items (pipes s pi)) \<le> PIPESIZE"
  shows "\<exists>k \<le> nat n. \<exists>q.
    pipe_items q = pipe_items (pipes s pi) @ map (\<lambda>i. mem s (uphys s pt (addr + of_nat i))) [0..<k]
    \<and> length (pipe_items q) \<le> PIPESIZE \<and> (\<forall>j<k. uacc s pt (addr + of_nat j))
    \<and> ((k = nat n \<or> \<not> uacc s pt (addr + of_nat k))
         \<and> pipewrite pi addr n s = Done (int k) (piped s pi q (ChNread pi))
       \<or> k < nat n \<and> length (pipe_items q) = PIPESIZE
         \<and> pipewrite pi addr n s = Swtch (piped s pi q (ChNread pi) \<lparr>held := [LkProc p],
             procs := (woken (Some (ChNread pi)) s)(p :=
               (procs s p)\<lparr>p_chan := Some (ChNwrite pi), p_state := SLEEPING\<rparr>)\<rparr>))"
proof -
  let ?l = "s\<lparr>held := [LkPipe pi]\<rparr>"
  note u = umem_cong [of ?l s, where pt = pt, simplified]
  have a: "pipewrite pi addr n s = pipewrite_loop pi addr 0 (nat n) ?l"
    using assms(4) by (simp add: pipewrite_def kernel_simps)
  have w: "woken ch s p = procs s p" for ch using assms(1) by (simp add: woken_def sleeping_on_def)
  obtain k q where k: "k \<le> nat n" "pipe_items q = pipe_items (pipes s pi) @ map (user_byte s pt addr) [0..<k]"
    "length (pipe_items q) \<le> PIPESIZE" "\<forall>j<k. uacc s pt (addr + of_nat j)"
    "(k = nat n \<or> \<not> uacc s pt (addr + of_nat k))
        \<and> pipewrite_loop pi addr 0 (nat n) ?l = pipewrite_done pi k (?l\<lparr>pipes := (pipes s)(pi := q)\<rparr>)
      \<or> k < nat n \<and> pipe_full q \<and> pipewrite_loop pi addr 0 (nat n) ?l
         = thn (wakeup (Some (ChNread pi))) (sleep (ChNwrite pi) (LkPipe pi)) (?l\<lparr>pipes := (pipes s)(pi := q)\<rparr>)"
    using pipewrite_loop_ok [of ?l p pt T pi "nat n" addr 0, unfolded u add_0, simplified] assms by blast
  from k(5) show ?thesis
  proof (elim disjE conjE)
    assume "pipewrite_loop pi addr 0 (nat n) ?l = pipewrite_done pi k (?l\<lparr>pipes := (pipes s)(pi := q)\<rparr>)"
      "k = nat n"
    with k(1-4) a pipe_done(1) [OF assms(4), of pi k "(pipes s)(pi := q)"] show ?thesis by metis
  next
    assume "pipewrite_loop pi addr 0 (nat n) ?l = pipewrite_done pi k (?l\<lparr>pipes := (pipes s)(pi := q)\<rparr>)"
      "\<not> uacc s pt (addr + of_nat k)"
    with k(1-4) a pipe_done(1) [OF assms(4), of pi k "(pipes s)(pi := q)"] show ?thesis by metis
  next
    assume f: "k < nat n" "pipe_full q" "pipewrite_loop pi addr 0 (nat n) ?l
      = thn (wakeup (Some (ChNread pi))) (sleep (ChNwrite pi) (LkPipe pi)) (?l\<lparr>pipes := (pipes s)(pi := q)\<rparr>)"
    have "length (pipe_items q) = PIPESIZE" using pq.full_iff f(2) k(3) by simp
    moreover have "pipewrite pi addr n s = Swtch (piped s pi q (ChNread pi) \<lparr>held := [LkProc p],
             procs := (woken (Some (ChNread pi)) s)(p :=
               (procs s p)\<lparr>p_chan := Some (ChNwrite pi), p_state := SLEEPING\<rparr>)\<rparr>)"
      unfolding a f(3) using assms(1,4) w by (simp add: kernel_simps pipe_wake sleep_app)
    ultimately show ?thesis using k(1-4) f(1) by blast
  qed
qed

definition demo_pipe :: virtio where
  "demo_pipe = demo\<lparr>pipes := \<lambda>_. no_pipe\<lparr>pi_data := of_nat, pi_nwrite := 3, pi_readopen := True\<rparr>\<rparr>"

lemma demo_pipe_simps:
  "mem demo_pipe = demo_mem" "curproc demo_pipe = Some 0" "held demo_pipe = []"
  "0x80001000 = p_pagetable (procs demo_pipe 0)" "p_killed (procs demo_pipe 0) = 0"
  "pi_readopen (pipes demo_pipe a)" "pipe_items (pipes demo_pipe a) = [0, 1, 2]"
  "length (pipe_items (pipes demo_pipe a)) \<le> PIPESIZE"
  by (simp_all add: demo_pipe_def no_pipe_def pipe_items_def ring_items_def ring_len_def PIPESIZE_def upt_rec)

theorem pipewrite_appends_witness:
  "\<exists>q. length (pipe_items q) = 5
     \<and> pipewrite 0x80006000 0xFFE 5 demo_pipe = Done 2 (piped demo_pipe 0x80006000 q (ChNread 0x80006000))"
proof -
  note m = demo_pipe_simps and a = demo_uacc(1) [OF demo_pipe_simps(1)]
  obtain k q where k: "k \<le> nat 5"
    "pipe_items q = [0, 1, 2] @ map (\<lambda>i. mem demo_pipe (uphys demo_pipe 0x80001000 (0xFFE + of_nat i))) [0..<k]"
    "\<forall>j<k. uacc demo_pipe 0x80001000 (0xFFE + of_nat j)"
    "(k = nat 5 \<or> \<not> uacc demo_pipe 0x80001000 (0xFFE + of_nat k)) \<and> pipewrite 0x80006000 0xFFE 5 demo_pipe
        = Done (int k) (piped demo_pipe 0x80006000 q (ChNread 0x80006000))
     \<or> length (pipe_items q) = PIPESIZE"
    using pipewrite_appends [OF m(2,4) demo_umem [OF m(1)] m(3,5,6,8), of 5 "0x80006000" "0xFFE"]
    unfolding m(7) by blast
  have l: "length (pipe_items q) = 3 + k" using k(2) by simp
  have f: "\<not> uacc demo_pipe 0x80001000 (0xFFE + of_nat 2)" "uacc demo_pipe 0x80001000 (0xFFE + of_nat 0)"
    "uacc demo_pipe 0x80001000 (0xFFE + of_nat 1)" unfolding a by (simp_all add: PGSIZE_def)
  have "\<not> 2 < k" using f(1) k(3) by blast
  moreover have "k \<noteq> i" if "uacc demo_pipe 0x80001000 (0xFFE + of_nat i)" "i < 2" for i
    using that k(1,4) l by (auto simp: PIPESIZE_def)
  from this [OF f(2)] this [OF f(3)] have "k \<noteq> 0" "k \<noteq> 1" by simp_all
  ultimately have "k = 2" by linarith
  with k(4) l show ?thesis by (intro exI [of _ q]) (simp add: PIPESIZE_def)
qed

text \<open>C25: \<open>piperead\<close> delivers, in order, the bytes at the front of the pipe's queue to the user buffer, as many as asked
  for or as there are, writes nothing else, and returns their number with the sleeping writers runnable. On
  an empty pipe that can still be written it goes to sleep (or returns -1 if the process was killed) and
  changes nothing else; on an empty pipe whose write end is closed it returns 0. When a destination byte is
  not accessible user memory the call stops there, and the one byte that was to go to it is out of the queue and not
  delivered (\<open>lost\<close>).\<close>

theorem piperead_takes:
  assumes "curproc s = Some p" "pt = p_pagetable (procs s p)" "umem_ok s pt T" "held s = []" "n < 2 ^ 31"
  shows "if pipe_items (pipes s pi) = [] \<and> pi_writeopen (pipes s pi) then
      piperead pi addr n s = (if p_killed (procs s p) \<noteq> 0 then Done (- 1) s
        else Swtch (s\<lparr>held := [LkProc p],
          procs := (procs s)(p := (procs s p)\<lparr>p_chan := Some (ChNread pi), p_state := SLEEPING\<rparr>)\<rparr>))
    else \<exists>out lost q m. pipe_items (pipes s pi) = out @ lost @ pipe_items q \<and> length out \<le> nat n
      \<and> copied pt addr out (length out) s (s\<lparr>mem := m\<rparr>)
      \<and> (if lost = [] then length out = nat n \<or> pipe_items q = []
         else length lost = 1 \<and> length out < nat n \<and> \<not> uacc s pt (addr + of_nat (length out)))
      \<and> piperead pi addr n s = Done (int (length out)) (piped (s\<lparr>mem := m\<rparr>) pi q (ChNwrite pi))"
proof -
  let ?l = "s\<lparr>held := [LkPipe pi]\<rparr>"
  note u = umem_cong [of ?l s, where pt = pt, simplified]
  have e: "pipe_items (pipes s pi) = [] \<longleftrightarrow> pi_nread (pipes s pi) = pi_nwrite (pipes s pi)"
    using pq.empty_iff [of "pipes s pi"] by (simp add: pipe_empty_def)
  show ?thesis
  proof (cases "pipe_items (pipes s pi) = [] \<and> pi_writeopen (pipes s pi)")
    case True
    with e assms(1,4) show ?thesis by (simp add: piperead_def piperead_loop_def kernel_simps sleep_app)
  next
    case False
    then have a: "piperead pi addr n s = piperead_copy pi addr 0 (nat n) ?l"
      using e assms(4) by (auto simp: piperead_def piperead_loop_def kernel_simps)
    have n: "nat n < 18446744073709551616" using assms(5) by simp
    obtain out lost q m where o: "pipe_items (pipes s pi) = out @ lost @ pipe_items q" "length out \<le> nat n"
      "copied pt addr out (length out) ?l (?l\<lparr>mem := m\<rparr>)"
      "if lost = [] then length out = nat n \<or> pipe_items q = []
       else length lost = 1 \<and> length out < nat n \<and> \<not> uacc s pt (addr + of_nat (length out))"
      "piperead_copy pi addr 0 (nat n) ?l
        = piperead_done pi (length out) (?l\<lparr>mem := m, pipes := (pipes s)(pi := q)\<rparr>)"
      using piperead_copy_ok [of ?l p pt T 0 "nat n" pi addr, unfolded u add_0, simplified, OF _ _ _ n]
        assms by blast
    have "copied pt addr out (length out) s (s\<lparr>mem := m\<rparr>)" using copied_cong [of s, OF _ o(3)] by simp
    moreover have "piperead pi addr n s = Done (int (length out)) (piped (s\<lparr>mem := m\<rparr>) pi q (ChNwrite pi))"
    proof -
      have c: "?l\<lparr>mem := m, pipes := P\<rparr> = s\<lparr>mem := m, held := [LkPipe pi], pipes := P\<rparr>" for P by simp
      show ?thesis using pipe_done(2) [of "s\<lparr>mem := m\<rparr>" pi "length out" "(pipes s)(pi := q)"] assms(4)
        unfolding a o(5) c by simp
    qed
    ultimately show ?thesis unfolding if_not_P [OF False] using o(1,2,4) by blast
  qed
qed

theorem piperead_takes_witness:
  "\<exists>q m. piperead 0x80006000 0xFFE 5 demo_pipe
      = Done 2 (piped (demo_pipe\<lparr>mem := m\<rparr>) 0x80006000 q (ChNwrite 0x80006000)) \<and> pipe_items q = []"
proof -
  note m = demo_pipe_simps and a = demo_uacc(1) [OF demo_pipe_simps(1)]
  have lt: "(5 :: int) < 2 ^ 31" by simp
  obtain out lost q mm where o: "[0, 1, 2] = out @ lost @ pipe_items q" "length out \<le> nat 5"
    "copied 0x80001000 0xFFE out (length out) demo_pipe (demo_pipe\<lparr>mem := mm\<rparr>)"
    "if lost = [] then length out = nat 5 \<or> pipe_items q = []
     else length lost = 1 \<and> length out < nat 5 \<and> \<not> uacc demo_pipe 0x80001000 (0xFFE + of_nat (length out))"
    "piperead 0x80006000 0xFFE 5 demo_pipe
       = Done (int (length out)) (piped (demo_pipe\<lparr>mem := mm\<rparr>) 0x80006000 q (ChNwrite 0x80006000))"
    using piperead_takes [OF m(2,4) demo_umem [OF m(1)] m(3) lt, of "0x80006000" "0xFFE"]
    unfolding m(7) by (simp only: list.distinct simp_thms if_False) blast
  have f: "\<not> uacc demo_pipe 0x80001000 (0xFFE + of_nat 2)" "uacc demo_pipe 0x80001000 (0xFFE + of_nat 0)"
    "uacc demo_pipe 0x80001000 (0xFFE + of_nat 1)" unfolding a by (simp_all add: PGSIZE_def)
  from o(1) have l: "length out + length lost + length (pipe_items q) = 3"
    by (metis append_assoc length_append list.size(3,4) numeral_3_eq_3 One_nat_def add.right_neutral add_Suc_right)
  have "\<not> 2 < length out" using o(3) f(1) unfolding copied_def by blast
  moreover have "length out \<noteq> 0" "length out \<noteq> 1" using o(4) f(2,3) l by (auto split: if_splits)
  ultimately have e: "length out = 2" by linarith
  with l o(4) have "pipe_items q = []" by (auto split: if_splits)
  with o(5) e show ?thesis by auto
qed

end
