(* ===== verification/Address_Space.thy ===== *)
theory Address_Space
  imports Demo
begin

text \<open>
  Whole address spaces: taking one down (\<open>uvmunmap\<close>, \<open>freewalk\<close>, \<open>uvmfree\<close>) returns exactly its pages to
  the allocator, and copying one (\<open>uvmcopy\<close>) gives the child the parent's memory in pages of its own.
\<close>

section \<open>freewalk\<close>

text \<open>Every choice of indices is the path of some address.\<close>

lemma px_path:
  assumes "f 0 < 512" "f 1 < 512" "f 2 < 512"
  shows "\<exists>va. unat va < 2 ^ 39 \<and> (\<forall>k \<le> 2. px k va = f k)"
proof -
  let ?v = "f 0 + 512 * (f 1 + 512 * f 2)"
  let ?n = "4096 * ?v" and ?va = "of_nat (4096 * (f 0 + 512 * (f 1 + 512 * f 2))) :: u64"
  have "?n < 2 ^ 39" using assms by simp
  then have u: "unat ?va = ?n" by (simp only: unat_of_nat) simp
  have p: "px k ?va = ?v div 2 ^ (9 * k) mod 512" for k
    unfolding px_eq u by (simp add: power_add div_mult2_eq)
  have "?v div 512 = f 1 + 512 * f 2" using assms(1) by simp
  moreover from this have "?v div 2 ^ (9 * 2) = f 2"
    using assms(2) div_mult2_eq [of ?v 512 512] by simp
  moreover have "?v mod 512 = f 0" using assms(1) by (simp only: mod_mult_self2) simp
  ultimately have "px 0 ?va = f 0" "px 1 ?va = f 1" "px 2 ?va = f 2"
    unfolding p using assms by simp_all
  then show ?thesis using \<open>?n < 2 ^ 39\<close> u by (intro exI [of _ ?va]) (auto simp: le_Suc_eq numeral_2_eq_2)
qed

lemma unat_slot_nat: "paged pt \<Longrightarrow> i < 512 \<Longrightarrow> unat (pt + 8 * of_nat i) = slot pt i"
proof -
  assume a: "paged pt" "i < 512"
  have "unat pt < 0x88000000" using a(1) by (simp add: paged_def unat_less_mono)
  moreover have "unat (8 * of_nat i :: u64) = 8 * i"
    using a(2) unat_of_nat [of "8 * i", where ?'a = 64] by simp
  ultimately show ?thesis using a(2) by (subst unat_add_less) simp_all
qed

text \<open>The addresses whose path above level \<open>l\<close> is \<open>g\<close>.\<close>

definition below :: "nat \<Rightarrow> (nat \<Rightarrow> nat) \<Rightarrow> u64 \<Rightarrow> bool" where
  "below l g va \<longleftrightarrow> unat va < 2 ^ 39 \<and> (\<forall>k. l < k \<and> k \<le> 2 \<longrightarrow> px k va = g k)"

definition freewalk1 :: "nat \<Rightarrow> u64 \<Rightarrow> nat \<Rightarrow> ('x kmem_scheme, unit) K" where
  "freewalk1 l pt i = (let slot = pt + 8 * of_nat i in
     bnd (ldk slot) (\<lambda>pte.
     if pte AND PTE_V \<noteq> 0 \<and> pte AND (PTE_R OR PTE_W OR PTE_X) = 0 then
       thn (freewalk_from l (PTE2PA pte)) (stk slot 0)
     else if pte AND PTE_V \<noteq> 0 then panic ''freewalk: leaf''
     else ret ()))"

lemma freewalk_from_eq: "freewalk_from (Suc l) pt = thn (eachk (freewalk1 l pt) [0..<512]) (kfree pt)"
  by (simp add: freewalk1_def [abs_def] Let_def)

declare freewalk_from.simps(2) [simp del]

lemma freewalk_none:
  assumes "paged pt" "i < 512" "ld64 (mem s) (slot pt i) AND PTE_V = 0"
  shows "freewalk1 l pt i s = Done () s"
  using assms by (simp add: freewalk1_def ldk_def kernel_simps Let_def unat_slot_nat)

lemma freewalk_child:
  assumes "paged pt" "i < 512" "ld64 (mem s) (slot pt i) AND PTE_V \<noteq> 0" "node (ld64 (mem s) (slot pt i))"
    "freewalk_from l (PTE2PA (ld64 (mem s) (slot pt i))) s = Done () t"
    "alloc_ready t qs" "pt \<notin> set qs"
  shows "\<exists>u. freewalk1 l pt i s = Done () u \<and> touches {pt} t u \<and> alloc_ready u qs
    \<and> (\<forall>j<512. j \<noteq> i \<longrightarrow> ld64 (mem u) (slot pt j) = ld64 (mem t) (slot pt j))"
proof -
  obtain u where u: "stk (pt + 8 * of_nat i) 0 t = Done () u" "touches {pt} t u" "freelist u = freelist t"
    "\<forall>j<512. j \<noteq> i \<longrightarrow> ld64 (mem u) (slot pt j) = ld64 (mem t) (slot pt j)"
    using stk_touches [OF assms(1,2) unat_slot_nat [OF assms(1,2)], of 0 t] by blast
  have "alloc_ready u qs" by (rule touches_ready [OF assms(6) u(2,3)]) (use assms(1,7) in auto)
  with u assms show ?thesis
    by (intro exI [of _ u]) (simp add: freewalk1_def ldk_def kernel_simps Let_def unat_slot_nat)
qed

text \<open>\<open>freed l pt T ps s t\<close>: from \<open>s\<close> to \<open>t\<close> the pages \<open>T\<close> have gone to the free list.\<close>

definition freed :: "u64 set \<Rightarrow> u64 list \<Rightarrow> 'x kmem_scheme \<Rightarrow> 'x kmem_scheme \<Rightarrow> bool" where
  "freed T ps s t \<longleftrightarrow> (\<exists>qs. alloc_ready t (qs @ ps) \<and> set qs = T) \<and> touches T s t"

lemma freewalk_ok:
  assumes "ptree l (mem s) pt T" "l \<le> 2" "alloc_ready s ps" "T \<inter> set ps = {}" "\<forall>p \<in> T. page_ok s p"
    "\<forall>k \<le> 2. g k < 512" "\<forall>va. below l g va \<longrightarrow> ent l (mem s) pt va AND PTE_V = 0"
  shows "\<exists>t. freewalk_from (Suc l) pt s = Done () t \<and> freed T ps s t"
  using assms
proof (induction l arbitrary: s pt T ps g)
  case 0
  have pt: "T = {pt}" "paged pt" using "0.prems"(1) by auto
  have "ld64 (mem s) (slot pt i) AND PTE_V = 0" if i: "i < 512" for i
  proof -
    obtain va where va: "unat va < 2 ^ 39" "\<forall>k \<le> 2. px k va = (g(0 := i)) k"
      using px_path [of "g(0 := i)"] "0.prems"(6) i by auto
    then have "below 0 g va" by (auto simp: below_def)
    with "0.prems"(7) va(2) pt(2) show ?thesis by (auto simp: ent_0)
  qed
  then have e: "eachk (freewalk1 0 pt) [0..<n] s = Done () s" if "n \<le> 512" for n
    using that by (induction n) (simp_all add: kernel_simps eachk_append freewalk_none [OF pt(2)])
  obtain t where "kfree pt s = Done () t" "alloc_ready t (pt # ps)" "mem_same_outside pt s t"
    using ka.free_ok [OF "0.prems"(3), of pt] "0.prems"(4,5) pt(1) by auto
  with e [of 512] pt(1) show ?case
    by (intro exI [of _ t]) (auto simp: freewalk_from_eq kernel_simps freed_def intro!: exI [of _ "[pt]"] touches_same)
next
  case (Suc l)
  note IH = Suc.IH and P = Suc.prems
  obtain F where F: "T = insert pt (\<Union>i<512. F i)" "kids l (mem s) pt F"
    using Suc.prems(1) unfolding ptree_Suc by blast
  then have pt: "paged pt" "\<And>j. j < 512 \<Longrightarrow> pt \<notin> F j"
    "\<And>j j'. j < 512 \<Longrightarrow> j' < 512 \<Longrightarrow> j \<noteq> j' \<Longrightarrow> F j \<inter> F j' = {}"
    "\<And>j. j < 512 \<Longrightarrow> ld64 (mem s) (slot pt j) AND PTE_V \<noteq> 0
        \<Longrightarrow> ptree l (mem s) (PTE2PA (ld64 (mem s) (slot pt j))) (F j)"
    "\<And>j. j < 512 \<Longrightarrow> ld64 (mem s) (slot pt j) AND PTE_V = 0 \<Longrightarrow> F j = {}"
    unfolding kids_def by auto
  have pg: "paged p" if "p \<in> T" for p using Suc.prems(1) that by (rule ptree_paged)
  let ?U = "\<lambda>n. \<Union>j<n. F j"
  have loop: "\<exists>t. eachk (freewalk1 (Suc l) pt) [0..<n] s = Done () t \<and> (\<exists>qs. alloc_ready t (qs @ ps) \<and> set qs = ?U n)
      \<and> touches (insert pt (?U n)) s t \<and> (\<forall>j<512. n \<le> j \<longrightarrow> ld64 (mem t) (slot pt j) = ld64 (mem s) (slot pt j))"
    if "n \<le> 512" for n
    using that
  proof (induction n)
    case 0
    then show ?case using Suc.prems(3) touches_refl
      by (intro exI [of _ s]) (auto simp: kernel_simps intro!: exI [of _ "[]"])
  next
    case (Suc n)
    then obtain t qs where t: "eachk (freewalk1 (Suc l) pt) [0..<n] s = Done () t" "alloc_ready t (qs @ ps)"
      "set qs = ?U n" "touches (insert pt (?U n)) s t"
      "\<And>j. j < 512 \<Longrightarrow> n \<le> j \<Longrightarrow> ld64 (mem t) (slot pt j) = ld64 (mem s) (slot pt j)" by auto
    have n: "n < 512" using Suc.prems by simp
    have U: "?U (Suc n) = ?U n \<union> F n" by (auto simp: less_Suc_eq)
    let ?e = "ld64 (mem s) (slot pt n)"
    show ?case
    proof (cases "?e AND PTE_V = 0")
      case True
      then have "F n = {}" using pt(5) n by blast
      moreover have "freewalk1 (Suc l) pt n t = Done () t"
        using freewalk_none [OF pt(1) n, of t] t(5) [OF n] True by simp
      ultimately show ?thesis using t unfolding U
        by (intro exI [of _ t]) (auto simp: kernel_simps eachk_append)
    next
      case False
      let ?c = "PTE2PA ?e"
      have "F j \<inter> F n = {}" if "j < n" for j using pt(3) [of j n] that n by simp
      then have disj: "insert pt (?U n) \<inter> F n = {}" using pt(2) [OF n] by blast
      have sub: "insert pt (?U n) \<subseteq> T" "F n \<subseteq> T" using F(1) n by auto
      have pgU: "paged p" if "p \<in> insert pt (?U n)" for p using pg sub(1) that by blast
      note tr = touches_ptree [OF t(4) pt(4) [OF n False] pgU disj]
      have ok: "\<forall>p \<in> F n. page_ok t p" using P(5) sub(2) touches_page_ok [OF t(4)] by blast
      have g: "\<forall>k \<le> 2. (g(Suc l := n)) k < 512" using P(6) n by simp
      have none: "\<forall>va. below l (g(Suc l := n)) va \<longrightarrow> ent l (mem t) ?c va AND PTE_V = 0"
      proof (intro allI impI)
        fix va assume b: "below l (g(Suc l := n)) va"
        then have x: "px (Suc l) va = n" "below (Suc l) g va" using P(2) by (auto simp: below_def)
        have "ent (Suc l) (mem s) pt va = ent l (mem s) ?c va"
          unfolding ent_Suc [OF pt(1)] x(1) Let_def using False by simp
        with P(7) x(2) show "ent l (mem t) ?c va AND PTE_V = 0" using tr(3) [of va] by metis
      qed
      have dq: "F n \<inter> set (qs @ ps) = {}" using t(3) disj P(4) sub(2) by auto
      obtain t' where t': "freewalk_from (Suc l) ?c t = Done () t'" "freed (F n) (qs @ ps) t t'"
        using IH [OF tr(1) _ t(2) dq ok g none] P(2) by auto
      then obtain qs' where qs': "alloc_ready t' (qs' @ qs @ ps)" "set qs' = F n" "touches (F n) t t'"
        unfolding freed_def by auto
      have nq: "pt \<notin> set (qs' @ qs @ ps)" using qs'(2) t(3) disj P(4) F(1) pt(2) [OF n] n pt(2) by auto
      have "ld64 (mem t) (slot pt n) = ?e" using t(5) [OF n] by simp
      then obtain u where u: "freewalk1 (Suc l) pt n t = Done () u" "touches {pt} t' u" "alloc_ready u (qs' @ qs @ ps)"
        "\<forall>j<512. j \<noteq> n \<longrightarrow> ld64 (mem u) (slot pt j) = ld64 (mem t') (slot pt j)"
        using freewalk_child [OF pt(1) n, of t "Suc l" t' "qs' @ qs @ ps"] t'(1) qs'(1) nq False kids_node [OF F(2) n]
        by auto
      have "ld64 (mem t') (slot pt j) = ld64 (mem t) (slot pt j)" if "j < 512" for j
        by (rule ld64_slot_cong [OF _ that], rule touches_page [OF qs'(3) pt(1)])
          (use pg sub(2) pt(2) [OF n] in auto)
      then have "\<forall>j<512. Suc n \<le> j \<longrightarrow> ld64 (mem u) (slot pt j) = ld64 (mem s) (slot pt j)"
        using u(4) t(5) by auto
      moreover have "touches (insert pt (?U (Suc n))) s u"
        using touches_trans [OF t(4) touches_trans [OF qs'(3) u(2) subset_refl]] unfolding U by auto
      moreover have "eachk (freewalk1 (Suc l) pt) [0..<Suc n] s = Done () u"
        using t(1) u(1) by (simp add: kernel_simps eachk_append)
      moreover have "set (qs' @ qs) = ?U (Suc n)" unfolding U using qs'(2) t(3) by auto
      moreover have "alloc_ready u ((qs' @ qs) @ ps)" using u(3) by simp
      ultimately show ?thesis by blast
    qed
  qed
  obtain t qs where t: "eachk (freewalk1 (Suc l) pt) [0..<512] s = Done () t" "alloc_ready t (qs @ ps)"
    "set qs = ?U 512" "touches (insert pt (?U 512)) s t" using loop [OF order_refl] by (elim exE conjE) (rule that)
  have "page_ok t pt" "pt \<notin> set (qs @ ps)" using P(4,5) F(1) t(3) pt(2) touches_page_ok [OF t(4)] by auto
  then obtain u where u: "kfree pt t = Done () u" "alloc_ready u (pt # qs @ ps)" "mem_same_outside pt t u"
    using ka.free_ok [OF t(2)] by blast
  have "freed T ps s u" unfolding freed_def
    using u(2) t(3) F(1) touches_trans [OF t(4) touches_same [OF u(3)], of T T]
    by (intro conjI exI [of _ "pt # qs"]) auto
  then show ?case using t(1) u(1) by (intro exI [of _ u]) (simp add: freewalk_from_eq [of "Suc l"] kernel_simps)
qed

section \<open>uvmunmap\<close>

text \<open>Virtual addresses that differ only above bit 38 have the same entry; the others are below \<open>2 ^ 39\<close>.\<close>

abbreviation va39 :: "u64 \<Rightarrow> bool" where
  "va39 w \<equiv> unat w < 2 ^ 39"

lemma unmap1_ok:
  assumes "pt_ok s pt T ps" "a < MAXVA" "pte_of s pt a AND PTE_V \<noteq> 0" "PTE_FLAGS (pte_of s pt a) \<noteq> PTE_V"
    "page_ok s (upa s pt a)" "upa s pt a \<notin> T \<union> set ps"
  shows "\<exists>t. uvmunmap1 pt True a s = Done () t \<and> pt_ok t pt T (upa s pt a # ps)
    \<and> touches (insert (upa s pt a) T) s t
    \<and> (\<forall>w. va39 w \<longrightarrow> pte_of t pt w = (if vpn w = vpn a then 0 else pte_of s pt w))"
proof -
  let ?f = "upa s pt a"
  have tr: "ptree 2 (mem s) pt T" "alloc_ready s ps" "T \<inter> set ps = {}" using assms(1) by (simp_all add: pt_ok_def)
  obtain x where x: "pt_walk 2 (mem s) pt a = Some x" "ld64 (mem s) (unat x) = pte_of s pt a"
    using assms(3) by (cases "pt_walk 2 (mem s) pt a") (auto simp: pte_of_def ent_def)
  obtain t where t: "kfree ?f s = Done () t" "alloc_ready t (?f # ps)" "mem_same_outside ?f s t"
    using ka.free_ok [OF tr(2) assms(5)] assms(6) by auto
  have tc: "touches {?f} s t" by (rule touches_same [OF t(3)]) simp
  have "{?f} \<inter> T = {}" "\<And>p. p \<in> {?f} \<Longrightarrow> paged p" using assms(5,6) page_ok_paged by auto
  note tt = touches_ptree [OF tc tr(1) this(2,1)]
  have dj: "T \<inter> set (?f # ps) = {}" using assms(6) tr(3) by auto
  obtain u where u: "stk x 0 t = Done () u" "ptree 2 (mem u) pt T" "alloc_ready u (?f # ps)" "touches T t u"
    "\<forall>va'. ent 2 (mem u) pt va' = (if same_page 2 a va' then 0 else ent 2 (mem t) pt va')"
    using stk_leaf [OF tt(1) _ t(2) dj, of a x 0] tt(2) [of a] x(1) by auto
  have "uvmunmap1 pt True a s = Done () u"
    using assms(2,3,4) x pt_walk_nonzero [OF tr(1) x(1)] t(1) u(1)
    by (simp add: uvmunmap1_def walk_def walk_from_lookup ldk_def kernel_simps upa_def)
  moreover have "touches (insert ?f T) s u" by (rule touches_trans [OF tc u(4)]) auto
  moreover have "pt_ok u pt T (?f # ps)" using u(2,3) dj by (simp add: pt_ok_def)
  moreover have "va39 a" using assms(2) by (simp add: unat_less_mono)
  ultimately show ?thesis using u(5) tt(3) same_page_vpn' [of a]
    by (intro exI [of _ u]) (auto simp: pte_of_def)
qed

lemma unmap_list_ok:
  assumes "pt_ok s pt T ps" "distinct (map vpn as)" "inj_on (upa s pt) (set as)"
    "\<forall>a \<in> set as. a < MAXVA \<and> pte_of s pt a AND PTE_V \<noteq> 0 \<and> PTE_FLAGS (pte_of s pt a) \<noteq> PTE_V
       \<and> page_ok s (upa s pt a) \<and> upa s pt a \<notin> T \<union> set ps"
  shows "\<exists>t. eachk (uvmunmap1 pt True) as s = Done () t \<and> pt_ok t pt T (rev (map (upa s pt) as) @ ps)
    \<and> touches (T \<union> upa s pt ` set as) s t
    \<and> (\<forall>w. va39 w \<longrightarrow> pte_of t pt w = (if vpn w \<in> vpn ` set as then 0 else pte_of s pt w))"
  using assms
proof (induction as arbitrary: s ps)
  case Nil
  then show ?case by (simp add: kernel_simps touches_refl)
next
  case (Cons a as)
  obtain t where t: "uvmunmap1 pt True a s = Done () t" "pt_ok t pt T (upa s pt a # ps)"
    "touches (insert (upa s pt a) T) s t"
    "\<forall>w. va39 w \<longrightarrow> pte_of t pt w = (if vpn w = vpn a then 0 else pte_of s pt w)"
    using unmap1_ok [OF Cons.prems(1), of a] Cons.prems(4) by auto
  have ne: "vpn b \<noteq> vpn a" if "b \<in> set as" for b
    using Cons.prems(2) imageI [OF that, of vpn] by auto
  have e: "pte_of t pt b = pte_of s pt b" "upa t pt b = upa s pt b" if "b \<in> set as" for b
  proof -
    have "va39 b" using Cons.prems(4) that by (auto simp: unat_less_mono)
    moreover have "vpn b \<noteq> vpn a" using ne that .
    ultimately show "pte_of t pt b = pte_of s pt b" using t(4) by simp
    then show "upa t pt b = upa s pt b" by (simp add: upa_def)
  qed
  have im: "upa t pt ` set as = upa s pt ` set as" "map (upa t pt) as = map (upa s pt) as" using e(2) by auto
  have inj: "inj_on (upa t pt) (set as)" using Cons.prems(3) e(2) unfolding inj_on_def by auto
  have "upa s pt b \<noteq> upa s pt a" if "b \<in> set as" for b
    using Cons.prems(3) ne [OF that] that unfolding inj_on_def by auto
  then have "\<forall>b \<in> set as. b < MAXVA \<and> pte_of t pt b AND PTE_V \<noteq> 0 \<and> PTE_FLAGS (pte_of t pt b) \<noteq> PTE_V
       \<and> page_ok t (upa t pt b) \<and> upa t pt b \<notin> T \<union> set (upa s pt a # ps)"
    using Cons.prems(4) e touches_page_ok [OF t(3)] by auto
  then obtain u where u: "eachk (uvmunmap1 pt True) as t = Done () u"
    "pt_ok u pt T (rev (map (upa t pt) as) @ upa s pt a # ps)" "touches (T \<union> upa t pt ` set as) t u"
    "\<forall>w. va39 w \<longrightarrow> pte_of u pt w = (if vpn w \<in> vpn ` set as then 0 else pte_of t pt w)"
    using Cons.IH [OF t(2) _ inj] Cons.prems(2) by auto
  have "touches (T \<union> upa s pt ` set (a # as)) s u"
    by (rule touches_trans [OF t(3) u(3)]) (use im in auto)
  then show ?case using t(1,4) u(1,2,4) im
    by (intro exI [of _ u]) (simp add: kernel_simps)
qed

text \<open>Without \<open>do_free\<close> only the entry goes.\<close>

lemma unmap1_keep:
  assumes "pt_ok s pt T ps" "a < MAXVA" "pte_of s pt a AND PTE_V \<noteq> 0" "PTE_FLAGS (pte_of s pt a) \<noteq> PTE_V"
  shows "\<exists>t. uvmunmap1 pt False a s = Done () t \<and> pt_ok t pt T ps \<and> touches T s t
    \<and> (\<forall>w. va39 w \<longrightarrow> pte_of t pt w = (if vpn w = vpn a then 0 else pte_of s pt w))"
proof -
  have tr: "ptree 2 (mem s) pt T" "alloc_ready s ps" "T \<inter> set ps = {}" using assms(1) by (simp_all add: pt_ok_def)
  obtain x where x: "pt_walk 2 (mem s) pt a = Some x" "ld64 (mem s) (unat x) = pte_of s pt a"
    using assms(3) by (cases "pt_walk 2 (mem s) pt a") (auto simp: pte_of_def ent_def)
  obtain u where u: "stk x 0 s = Done () u" "ptree 2 (mem u) pt T" "alloc_ready u ps" "touches T s u"
    "\<forall>va'. ent 2 (mem u) pt va' = (if same_page 2 a va' then 0 else ent 2 (mem s) pt va')"
    using stk_leaf [OF tr(1) x(1) tr(2,3), of 0] by auto
  have "uvmunmap1 pt False a s = Done () u"
    using assms(2-4) x pt_walk_nonzero [OF tr(1) x(1)] u(1)
    by (simp add: uvmunmap1_def walk_def walk_from_lookup ldk_def kernel_simps)
  moreover have "va39 a" using assms(2) by (simp add: unat_less_mono)
  ultimately show ?thesis using u tr(3) same_page_vpn' [of a]
    by (intro exI [of _ u]) (auto simp: pte_of_def pt_ok_def)
qed

text \<open>An address space: the table with the pages \<open>T\<close> beside the free pages \<open>ps\<close>; the pages below \<open>n\<close> and the pages
  of \<open>X\<close> are mapped and nothing else is; each page below \<open>n\<close> has a frame of its own.\<close>

definition aspace :: "'x kmem_scheme \<Rightarrow> u64 \<Rightarrow> u64 set \<Rightarrow> u64 list \<Rightarrow> nat \<Rightarrow> nat set \<Rightarrow> bool" where
  "aspace s pt T ps n X \<longleftrightarrow> pt_ok s pt T ps \<and> (\<forall>p \<in> T. page_ok s p) \<and> n \<le> 2 ^ 26 \<and> X \<inter> {..<n} = {}
     \<and> (\<forall>w. va39 w \<longrightarrow> (pte_of s pt w AND PTE_V \<noteq> 0 \<longleftrightarrow> vpn w < n \<or> vpn w \<in> X))
     \<and> (\<forall>w. va39 w \<longrightarrow> vpn w < n \<or> vpn w \<in> X \<longrightarrow> PTE_FLAGS (pte_of s pt w) \<noteq> PTE_V)
     \<and> (\<forall>w. vpn w < n \<longrightarrow> page_ok s (upa s pt w) \<and> upa s pt w \<notin> T \<union> set ps)
     \<and> (\<forall>v w. vpn v < n \<and> vpn w < n \<and> upa s pt v = upa s pt w \<longrightarrow> vpn v = vpn w)"

definition frames :: "'x kmem_scheme \<Rightarrow> u64 \<Rightarrow> nat \<Rightarrow> u64 set" where
  "frames s pt n = {upa s pt w | w. vpn w < n}"

abbreviation page_addr :: "nat \<Rightarrow> u64" where
  "page_addr i \<equiv> of_nat i * PGSIZE"

lemma page_addr_unat: "i < 2 ^ 27 \<Longrightarrow> unat (page_addr i) = 4096 * i"
  using unat_of_nat [of "4096 * i", where ?'a = 64] by (simp add: PGSIZE_def mult.commute)

lemma page_addr_vpn: "i < 2 ^ 27 \<Longrightarrow> vpn (page_addr i) = i"
  by (simp add: page_addr_unat)

lemma frames_list: "n \<le> 2 ^ 26 \<Longrightarrow> frames s pt n = (\<lambda>i. upa s pt (page_addr i)) ` {..<n}"
proof -
  assume n: "n \<le> 2 ^ 26"
  have a: "upa s pt w = upa s pt (page_addr (vpn w))" if "vpn w < n" for w
  proof -
    have "vpn (page_addr (vpn w)) = vpn w" by (rule page_addr_vpn) (use that n in simp)
    then show ?thesis unfolding upa_def using pte_of_vpn [of w "page_addr (vpn w)" s pt] by simp
  qed
  have b: "vpn (page_addr i) < n" if "i < n" for i
    using page_addr_vpn [of i] that n by simp
  show ?thesis
  proof (intro equalityI subsetI)
    fix x assume "x \<in> frames s pt n"
    then obtain w where "x = upa s pt w" "vpn w < n" unfolding frames_def by blast
    then show "x \<in> (\<lambda>i. upa s pt (page_addr i)) ` {..<n}" using a by (intro image_eqI [of _ _ "vpn w"]) simp_all
  next
    fix x assume "x \<in> (\<lambda>i. upa s pt (page_addr i)) ` {..<n}"
    then obtain i where "x = upa s pt (page_addr i)" "i < n" by blast
    then show "x \<in> frames s pt n" using b unfolding frames_def by blast
  qed
qed

lemma unmap_pages:
  "va mod PGSIZE = 0 \<Longrightarrow> unat va + 4096 * k < 2 ^ 64 \<Longrightarrow> unat np = k \<Longrightarrow>
   uvmunmap pt va np do_free s = eachk (uvmunmap1 pt do_free) (map (\<lambda>i. va + page_addr i) [0..<k]) s"
proof -
  assume a: "va mod PGSIZE = 0" "unat va + 4096 * k < 2 ^ 64" "unat np = k"
  have "unat (np * PGSIZE) = k * 4096" using a(2,3) by (simp add: unat_word_ariths)
  then have "unat (va + np * PGSIZE) = unat va + k * 4096"
    using a(2) by (subst unat_add_less) simp_all
  moreover have "(k * 4096 + 4095) div 4096 = k" by simp
  ultimately show ?thesis using a(1) by (simp add: uvmunmap_def page_seq_def)
qed

lemma unmap_user:
  assumes "aspace s pt T ps n X"
  shows "\<exists>t. eachk (uvmunmap1 pt True) (map page_addr [0..<n]) s = Done () t
    \<and> pt_ok t pt T (rev (map (upa s pt) (map page_addr [0..<n])) @ ps)
    \<and> touches (T \<union> upa s pt ` set (map page_addr [0..<n])) s t
    \<and> (\<forall>w. va39 w \<longrightarrow> pte_of t pt w = (if vpn w < n then 0 else pte_of s pt w))"
proof -
  let ?as = "map page_addr [0..<n]"
  have n: "n \<le> 2 ^ 26" and ok: "pt_ok s pt T ps" using assms by (simp_all add: aspace_def)
  have v: "vpn (page_addr i) = i" "page_addr i < MAXVA" "va39 (page_addr i)" if "i < n" for i
    using page_addr_unat [of i] that n by (simp_all add: unat_less_mono)
  have d: "distinct (map vpn ?as)" using v by (simp add: comp_def distinct_map inj_on_def)
  have i: "inj_on (upa s pt) (set ?as)"
  proof (rule inj_onI)
    fix a b assume "a \<in> set ?as" "b \<in> set ?as" and e: "upa s pt a = upa s pt b"
    then obtain i j where ij: "a = page_addr i" "b = page_addr j" "i < n" "j < n" by auto
    then have "vpn a < n" "vpn b < n" using v(1) by simp_all
    then have "vpn a = vpn b" using assms(1) e unfolding aspace_def by blast
    then show "a = b" using ij v(1) by simp
  qed
  have a: "\<forall>a \<in> set ?as. a < MAXVA \<and> pte_of s pt a AND PTE_V \<noteq> 0 \<and> PTE_FLAGS (pte_of s pt a) \<noteq> PTE_V
       \<and> page_ok s (upa s pt a) \<and> upa s pt a \<notin> T \<union> set ps"
    using assms(1) v unfolding aspace_def by auto
  have "vpn ` set ?as = {..<n}" using v(1) by (auto simp: image_image)
  with unmap_list_ok [OF ok d i a] show ?thesis by simp
qed

lemma uvmfree_ok:
  assumes "aspace s pt T ps n {}" "PGROUNDUP sz = page_addr n" "0 < n \<longleftrightarrow> sz > 0"
  shows "\<exists>t. uvmfree pt sz s = Done () t \<and> freed (T \<union> frames s pt n) ps s t"
proof -
  let ?as = "map page_addr [0..<n]"
  have n: "n \<le> 2 ^ 26" using assms(1) by (simp add: aspace_def)
  have un: "unat (PGROUNDUP sz div PGSIZE) = n"
    using assms(2) n page_addr_unat [of n] by (simp add: unat_div_distrib)
  obtain t where t: "eachk (uvmunmap1 pt True) ?as s = Done () t"
    "pt_ok t pt T (rev (map (upa s pt) ?as) @ ps)" "touches (T \<union> upa s pt ` set ?as) s t"
    "\<forall>w. va39 w \<longrightarrow> pte_of t pt w = (if vpn w < n then 0 else pte_of s pt w)"
    using unmap_user [OF assms(1)] by blast
  have none: "pte_of t pt w AND PTE_V = 0" if "va39 w" for w
    using t(4) that assms(1) unfolding aspace_def by auto
  have fr: "upa s pt ` set ?as = frames s pt n" unfolding frames_list [OF n] by auto
  have "\<forall>p \<in> T. page_ok t p" using assms(1) touches_page_ok [OF t(3)] by (simp add: aspace_def)
  moreover have "\<forall>va. below 2 (\<lambda>_. 0) va \<longrightarrow> ent 2 (mem t) pt va AND PTE_V = 0"
    using none by (simp add: below_def pte_of_def)
  ultimately obtain u where u: "freewalk_from (Suc 2) pt t = Done () u"
      "freed T (rev (map (upa s pt) ?as) @ ps) t u"
    using freewalk_ok [of 2 t pt T "rev (map (upa s pt) ?as) @ ps" "\<lambda>_. 0"] t(2) unfolding pt_ok_def by auto
  then obtain qs where qs: "alloc_ready u (qs @ rev (map (upa s pt) ?as) @ ps)" "set qs = T" "touches T t u"
    unfolding freed_def by blast
  have "freed (T \<union> frames s pt n) ps s u" unfolding freed_def
    using qs touches_trans [OF t(3) qs(3)] fr
    by (intro conjI exI [of _ "qs @ rev (map (upa s pt) ?as)"]) auto
  moreover have "freewalk pt t = Done () u" using u(1) by (simp add: freewalk_def numeral_3_eq_3 numeral_2_eq_2)
  moreover have "uvmunmap pt 0 (PGROUNDUP sz div PGSIZE) True s = Done () t"
    using unmap_pages [of 0 n "PGROUNDUP sz div PGSIZE" pt True s] t(1) un n by simp
  moreover have "t = s" if "n = 0" using t(1) that by (simp add: kernel_simps)
  ultimately have "uvmfree pt sz s = Done () u" "freed (T \<union> frames s pt n) ps s u"
    using assms(3) by (cases "n = 0"; simp add: uvmfree_def kernel_simps)+
  then show ?thesis by blast
qed

section \<open>freeproc\<close>

lemma aspace_cong:
  assumes "aspace s pt T ps n X" "touches P s t" "P \<inter> T = {}" "\<And>p. p \<in> P \<Longrightarrow> paged p" "alloc_ready t ps'"
    "set ps' \<inter> (T \<union> frames s pt n) = {}"
  shows "aspace t pt T ps' n X" "frames t pt n = frames s pt n"
proof -
  have tr: "ptree 2 (mem s) pt T" using assms(1) by (simp add: aspace_def pt_ok_def)
  note tt = touches_ptree [OF assms(2) tr assms(4,3)]
  have e: "pte_of t pt w = pte_of s pt w" for w using tt(3) by (simp add: pte_of_def)
  then have u: "upa t pt w = upa s pt w" for w by (simp add: upa_def)
  show "frames t pt n = frames s pt n" by (simp add: frames_def u)
  have "pt_ok t pt T ps'" using tt(1) assms(5,6) by (auto simp: pt_ok_def)
  moreover have "upa s pt w \<notin> set ps'" if "vpn w < n" for w using assms(6) that unfolding frames_def by blast
  ultimately show "aspace t pt T ps' n X"
    using assms(1) touches_page_ok [OF assms(2)] unfolding aspace_def e u by auto
qed

lemma aspace_unmap_keep:
  assumes "aspace s pt T ps n X" "x \<in> X" "x < 2 ^ 26"
  shows "\<exists>t. uvmunmap pt (page_addr x) 1 False s = Done () t \<and> aspace t pt T ps n (X - {x})
    \<and> frames t pt n = frames s pt n \<and> touches T s t"
proof -
  let ?a = "page_addr x"
  have a: "unat ?a = 4096 * x" "vpn ?a = x" using page_addr_unat [of x] page_addr_vpn [of x] assms(3) by simp_all
  then have m: "?a < MAXVA" "va39 ?a" using assms(3) by (simp_all add: unat_less_mono)
  have pv: "pte_of s pt ?a AND PTE_V \<noteq> 0" "PTE_FLAGS (pte_of s pt ?a) \<noteq> PTE_V"
    using assms(1,2) m(2) a(2) unfolding aspace_def by auto
  have ok: "pt_ok s pt T ps" using assms(1) by (simp add: aspace_def)
  obtain t where t: "uvmunmap1 pt False ?a s = Done () t" "pt_ok t pt T ps" "touches T s t"
    "\<forall>w. va39 w \<longrightarrow> pte_of t pt w = (if vpn w = x then 0 else pte_of s pt w)"
    using unmap1_keep [OF ok m(1) pv] unfolding a(2) by blast
  have "?a mod PGSIZE = 0" using a(1) by (simp add: page_aligned_unat)
  then have run: "uvmunmap pt ?a 1 False s = Done () t"
    using unmap_pages [of ?a 1 1 pt False s] a(1) assms(3) t(1) by (simp add: kernel_simps)
  have x: "\<not> x < n" using assms(1,2) by (auto simp: aspace_def)
  have e: "pte_of t pt w = pte_of s pt w" "upa t pt w = upa s pt w" if "vpn w < n" for w
  proof -
    have "vpn w < 2 ^ 26" using that assms(1) by (auto simp: aspace_def)
    then have "va39 w" by (simp add: div_less_iff_less_mult)
    then show "pte_of t pt w = pte_of s pt w" using t(4) that x by auto
    then show "upa t pt w = upa s pt w" by (simp add: upa_def)
  qed
  then have "frames t pt n = frames s pt n" unfolding frames_def by metis
  moreover have "aspace t pt T ps n (X - {x})"
    unfolding aspace_def
  proof (intro conjI allI impI)
    show "pt_ok t pt T ps" by (rule t(2))
    show "\<forall>p \<in> T. page_ok t p" "n \<le> 2 ^ 26" "(X - {x}) \<inter> {..<n} = {}"
      using assms(1) touches_page_ok [OF t(3)] unfolding aspace_def by auto
    fix w
    show "(pte_of t pt w AND PTE_V \<noteq> 0) = (vpn w < n \<or> vpn w \<in> X - {x})" if "va39 w"
      using assms(1) t(4) x that unfolding aspace_def by auto
    show "PTE_FLAGS (pte_of t pt w) \<noteq> PTE_V" if "va39 w" "vpn w < n \<or> vpn w \<in> X - {x}"
      using assms(1) t(4) x that unfolding aspace_def by auto
    show "page_ok t (upa t pt w)" "upa t pt w \<notin> T \<union> set ps" if "vpn w < n"
      using assms(1) e(2) [OF that] that touches_page_ok [OF t(3)] unfolding aspace_def by auto
    show "vpn v = vpn w" if "vpn v < n \<and> vpn w < n \<and> upa t pt v = upa t pt w" for v
      using assms(1) e(2) [of v] e(2) [of w] that unfolding aspace_def by auto
  qed
  ultimately show ?thesis using run t(3) by blast
qed

lemma freed_trans:
  "touches T s t \<Longrightarrow> T \<subseteq> U \<Longrightarrow> freed U ps t u \<Longrightarrow> freed U ps s u"
  unfolding freed_def using touches_trans [of T s t U u U] by auto

lemma proc_freepagetable_ok:
  assumes "aspace s pt T ps n {vpn TRAMPOLINE, vpn TRAPFRAME}" "PGROUNDUP sz = page_addr n" "0 < n \<longleftrightarrow> sz > 0"
  shows "\<exists>t. proc_freepagetable pt sz s = Done () t \<and> freed (T \<union> frames s pt n) ps s t"
proof -
  have v: "vpn TRAMPOLINE = 2 ^ 26 - 1" "vpn TRAPFRAME = 2 ^ 26 - 2"
    "TRAMPOLINE = page_addr (2 ^ 26 - 1)" "TRAPFRAME = page_addr (2 ^ 26 - 2)"
    by (simp_all add: TRAMPOLINE_def TRAPFRAME_def MAXVA_def PGSIZE_def)
  obtain t where t: "uvmunmap pt TRAMPOLINE 1 False s = Done () t" "aspace t pt T ps n {2 ^ 26 - 2}"
    "frames t pt n = frames s pt n" "touches T s t"
    using aspace_unmap_keep [OF assms(1) [unfolded v(1,2)], of "2 ^ 26 - 1", folded v(3)] by auto
  obtain u where u: "uvmunmap pt TRAPFRAME 1 False t = Done () u" "aspace u pt T ps n {}"
    "frames u pt n = frames t pt n" "touches T t u"
    using aspace_unmap_keep [OF t(2), of "2 ^ 26 - 2", folded v(4)] by auto
  obtain z where z: "uvmfree pt sz u = Done () z" "freed (T \<union> frames s pt n) ps u z"
    using uvmfree_ok [OF u(2) assms(2,3)] t(3) u(3) by auto
  have "freed (T \<union> frames s pt n) ps s z"
    using freed_trans [OF t(4) _ freed_trans [OF u(4) _ z(2)]] by auto
  with t(1) u(1) z(1) show ?thesis
    by (intro exI [of _ z]) (simp add: proc_freepagetable_def kernel_simps)
qed

lemma aspace_procs [simp]:
  "aspace (s\<lparr>procs := P\<rparr>) pt T ps n X = aspace s pt T ps n X" "frames (s\<lparr>procs := P\<rparr>) pt n = frames s pt n"
  "page_ok (s\<lparr>procs := P\<rparr>) = page_ok s" "alloc_ready (s\<lparr>procs := P\<rparr>) ps = alloc_ready s ps"
  for s :: "'x ptab_scheme"
proof -
  show p: "page_ok (s\<lparr>procs := P\<rparr>) = page_ok s" by (simp add: page_ok_def fun_eq_iff)
  show a: "alloc_ready (s\<lparr>procs := P\<rparr>) ps = alloc_ready s ps" for ps
    by (simp add: alloc_ready_def free_pages_def p)
  have e: "pte_of (s\<lparr>procs := P\<rparr>) pt = pte_of s pt" by (simp add: pte_of_def fun_eq_iff)
  then have u: "upa (s\<lparr>procs := P\<rparr>) pt = upa s pt" by (simp add: upa_def fun_eq_iff)
  show "aspace (s\<lparr>procs := P\<rparr>) pt T ps n X = aspace s pt T ps n X"
    by (simp add: aspace_def pt_ok_def p a e u)
  show "frames (s\<lparr>procs := P\<rparr>) pt n = frames s pt n" by (simp add: frames_def u)
qed

text \<open>What a process owns: its page table, its user pages and its trapframe, beside the free pages \<open>ps\<close>.\<close>

definition proc_mem :: "'x ptab_scheme \<Rightarrow> nat \<Rightarrow> u64 set \<Rightarrow> u64 list \<Rightarrow> nat \<Rightarrow> bool" where
  "proc_mem s p T ps n \<longleftrightarrow> (let q = procs s p; pt = p_pagetable q; tf = p_trapframe q in
     aspace s pt T ps n {vpn TRAMPOLINE, vpn TRAPFRAME} \<and> PGROUNDUP (p_sz q) = page_addr n
     \<and> (0 < n \<longleftrightarrow> p_sz q > 0) \<and> page_ok s tf \<and> tf \<notin> T \<union> frames s pt n \<union> set ps)"

definition unused :: "proc \<Rightarrow> proc" where
  "unused q = q\<lparr>p_trapframe := 0, p_pagetable := 0, p_sz := 0, p_pid := 0, p_parent := None,
     p_name := (p_name q)[0 := 0], p_chan := None, p_killed := 0, p_xstate := 0, p_state := UNUSED\<rparr>"

lemma freeproc_ok:
  fixes s :: "'x ptab_scheme"
  assumes "proc_mem s p T ps n"
  defines "U \<equiv> insert (p_trapframe (procs s p)) (T \<union> frames s (p_pagetable (procs s p)) n)"
  shows "\<exists>t qs m f. freeproc p s = Done () t \<and> alloc_ready t (qs @ ps) \<and> set qs = U
    \<and> t = s\<lparr>mem := m, freelist := f, procs := (procs s)(p := unused (procs s p))\<rparr>
    \<and> (\<forall>x. (\<forall>a \<in> U. \<not> in_page a x) \<longrightarrow> m x = mem s x)"
proof -
  let ?q = "procs s p"
  let ?pt = "p_pagetable ?q" and ?tf = "p_trapframe ?q"
  have a: "aspace s ?pt T ps n {vpn TRAMPOLINE, vpn TRAPFRAME}" "PGROUNDUP (p_sz ?q) = page_addr n"
    "0 < n \<longleftrightarrow> p_sz ?q > 0" "page_ok s ?tf" "?tf \<notin> T \<union> frames s ?pt n \<union> set ps"
    using assms(1) by (simp_all add: proc_mem_def Let_def)
  have r: "alloc_ready s ps" "ptree 2 (mem s) ?pt T" "T \<inter> set ps = {}" using a(1) by (simp_all add: aspace_def pt_ok_def)
  have pt: "?pt \<noteq> 0" "?tf \<noteq> 0" using ptree_root [OF r(2)] page_ok_paged [OF a(4)] by (auto simp: paged_def)
  have fp: "frames s ?pt n \<inter> set ps = {}" using a(1) unfolding aspace_def frames_def by auto
  obtain t where t: "kfree ?tf s = Done () t" "alloc_ready t (?tf # ps)" "mem_same_outside ?tf s t"
    using ka.free_ok [OF r(1) a(4)] a(5) by auto
  have tc: "touches {?tf} s t" by (rule touches_same [OF t(3)]) simp
  have dj: "{?tf} \<inter> T = {}" "set (?tf # ps) \<inter> (T \<union> frames s ?pt n) = {}" using a(5) r(3) fp by auto
  have pg: "paged x" if "x \<in> {?tf}" for x using that page_ok_paged [OF a(4)] by simp
  note ac = aspace_cong [OF a(1) tc dj(1) pg t(2) dj(2)]
  let ?u = "t\<lparr>procs := (procs t)(p := (procs t p)\<lparr>p_trapframe := 0\<rparr>)\<rparr>"
  have pr: "procs t = procs s" using tc by (auto simp: touches_def)
  obtain z where z: "proc_freepagetable ?pt (p_sz ?q) ?u = Done () z" "freed (T \<union> frames s ?pt n) (?tf # ps) ?u z"
    using proc_freepagetable_ok [of ?u ?pt T "?tf # ps" n "p_sz ?q"] ac a(2,3) by auto
  let ?z = "z\<lparr>procs := (procs s)(p := unused ?q)\<rparr>"
  have run: "freeproc p s = Done () ?z"
  proof -
    have "procs z = (procs s)(p := ?q\<lparr>p_trapframe := 0\<rparr>)" using z(2) pr by (auto simp: freed_def touches_def)
    with t(1) z(1) pt pr show ?thesis
      by (simp add: freeproc_def kernel_simps unused_def)
  qed
  obtain qs where qs: "alloc_ready z (qs @ ?tf # ps)" "set qs = T \<union> frames s ?pt n"
      "touches (T \<union> frames s ?pt n) ?u z" using z(2) unfolding freed_def by blast
  have "alloc_ready ?z ((qs @ [?tf]) @ ps)" "set (qs @ [?tf]) = U" using qs(1,2) by (simp_all add: U_def)
  moreover obtain m f where m: "t = s\<lparr>mem := m, freelist := f\<rparr>" "\<forall>x. \<not> in_page ?tf x \<longrightarrow> m x = mem s x"
    using tc unfolding touches_def by auto
  moreover obtain m' f' where m': "z = ?u\<lparr>mem := m', freelist := f'\<rparr>"
      "\<forall>x. (\<forall>a \<in> T \<union> frames s ?pt n. \<not> in_page a x) \<longrightarrow> m' x = mem ?u x"
    using qs(3) unfolding touches_def by blast
  moreover have "?z = s\<lparr>mem := m', freelist := f', procs := (procs s)(p := unused ?q)\<rparr>"
    unfolding m'(1) m(1) by simp
  moreover have "\<forall>x. (\<forall>a \<in> U. \<not> in_page a x) \<longrightarrow> m' x = mem s x"
    using m(2) m'(2) m(1) unfolding U_def by simp
  ultimately show ?thesis using run by blast
qed

section \<open>An example\<close>

text \<open>A process of one page: the table of five pages from 0x80001000 on, the user page 0x80006000 and the trapframe
  0x80007000.\<close>

definition space_mem :: bytes where
  "space_mem = st64 (st64 (st64 (st64 (st64 (st64 (st64 (\<lambda>_. 0)
     0x80001000 (PA2PTE 0x80002000 OR PTE_V))
     (0x80001000 + 8 * 255) (PA2PTE 0x80004000 OR PTE_V))
     0x80002000 (PA2PTE 0x80003000 OR PTE_V))
     0x80003000 (PA2PTE 0x80006000 OR 23))
     (0x80004000 + 8 * 511) (PA2PTE 0x80005000 OR PTE_V))
     (0x80005000 + 8 * 511) (PA2PTE 0x80000000 OR 11))
     (0x80005000 + 8 * 510) (PA2PTE 0x80007000 OR 7)"

abbreviation space_tables :: "u64 set" where
  "space_tables \<equiv> {0x80001000, 0x80002000, 0x80003000, 0x80004000, 0x80005000}"

lemma space_ld64:
  "i < 512 \<Longrightarrow> ld64 space_mem (0x80001000 + 8 * i) = (if i = 0 then PA2PTE 0x80002000 OR PTE_V
     else if i = 255 then PA2PTE 0x80004000 OR PTE_V else 0)"
  "i < 512 \<Longrightarrow> ld64 space_mem (0x80002000 + 8 * i) = (if i = 0 then PA2PTE 0x80003000 OR PTE_V else 0)"
  "i < 512 \<Longrightarrow> ld64 space_mem (0x80003000 + 8 * i) = (if i = 0 then PA2PTE 0x80006000 OR 23 else 0)"
  "i < 512 \<Longrightarrow> ld64 space_mem (0x80004000 + 8 * i) = (if i = 511 then PA2PTE 0x80005000 OR PTE_V else 0)"
  "i < 512 \<Longrightarrow> ld64 space_mem (0x80005000 + 8 * i) = (if i = 511 then PA2PTE 0x80000000 OR 11
     else if i = 510 then PA2PTE 0x80007000 OR 7 else 0)"
proof -
  have *: "ld64 (st64 m b v) a = ld64 m a" if d: "8 dvd a" "8 dvd b" "a < b \<or> b < a" for m v and a b :: nat
  proof (rule ld64_st64_other)
    obtain k l where "a = 8 * k" "b = 8 * l" using d(1,2) by (elim dvdE)
    with d(3) show "a + 8 \<le> b \<or> b + 8 \<le> a" by auto
  qed
  show "i < 512 \<Longrightarrow> ld64 space_mem (0x80001000 + 8 * i) = (if i = 0 then PA2PTE 0x80002000 OR PTE_V
     else if i = 255 then PA2PTE 0x80004000 OR PTE_V else 0)"
    by (cases i "255 :: nat" rule: linorder_cases) (auto simp: space_mem_def * zero_ld64)
  show "i < 512 \<Longrightarrow> ld64 space_mem (0x80005000 + 8 * i) = (if i = 511 then PA2PTE 0x80000000 OR 11
     else if i = 510 then PA2PTE 0x80007000 OR 7 else 0)"
  proof -
    assume "i < 512"
    then consider "i < 510" | "i = 510" | "i = 511" by linarith
    then show ?thesis by cases (auto simp: space_mem_def * zero_ld64)
  qed
qed (auto simp: space_mem_def ld64_st64_other zero_ld64)

lemma space_pa: "PTE2PA (PA2PTE 0x80002000 OR PTE_V) = 0x80002000" "PTE2PA (PA2PTE 0x80003000 OR PTE_V) = 0x80003000"
  "PTE2PA (PA2PTE 0x80004000 OR PTE_V) = 0x80004000" "PTE2PA (PA2PTE 0x80005000 OR PTE_V) = 0x80005000"
  "PTE2PA (PA2PTE 0x80006000 OR 23) = 0x80006000"
  by (rule PTE2PA_PA2PTE; simp add: PGSIZE_def PTE_V_def)+

lemma space_paged: "p \<in> space_tables \<Longrightarrow> paged p"
  by (auto simp: paged_def PGSIZE_def unat_less_mono)

lemma space_tree: "ptree 2 space_mem 0x80001000 space_tables"
proof -
  note sp = space_ld64 space_pa node_new space_paged
  have "kids 0 space_mem 0x80002000 (\<lambda>i. if i = 0 then {0x80003000} else {})"
    "kids 0 space_mem 0x80004000 (\<lambda>i. if i = 511 then {0x80005000} else {})"
    unfolding kids_def by (auto simp: sp)
  then have one: "ptree (Suc 0) space_mem 0x80002000 {0x80002000, 0x80003000}"
    "ptree (Suc 0) space_mem 0x80004000 {0x80004000, 0x80005000}"
    unfolding ptree_Suc
    by (intro exI [of _ "\<lambda>i. if i = 0 then {0x80003000} else {}"], auto)
      (intro exI [of _ "\<lambda>i. if i = 511 then {0x80005000} else {}"], auto)
  have "kids (Suc 0) space_mem 0x80001000 (\<lambda>i. if i = 0 then {0x80002000, 0x80003000}
      else if i = 255 then {0x80004000, 0x80005000} else {})"
    unfolding kids_def using one by (auto simp: sp)
  then have "ptree (Suc (Suc 0)) space_mem 0x80001000 space_tables"
    unfolding ptree_Suc [of "Suc 0"]
    by (intro exI [of _ "\<lambda>i. if i = 0 then {0x80002000, 0x80003000}
      else if i = 255 then {0x80004000, 0x80005000} else {}"]) auto
  then show ?thesis unfolding numeral_2_eq_2 .
qed

lemma space_px:
  "px 0 0 = 0" "px 1 0 = 0" "px 2 0 = 0" "px 0 TRAMPOLINE = 511" "px 1 TRAMPOLINE = 511" "px 2 TRAMPOLINE = 255"
  "px 0 TRAPFRAME = 510" "px 1 TRAPFRAME = 511" "px 2 TRAPFRAME = 255"
  by (simp_all add: px_eq TRAMPOLINE_def TRAPFRAME_def MAXVA_def PGSIZE_def)

lemma same_page_2: "same_page 2 a w \<longleftrightarrow> px 0 a = px 0 w \<and> px 1 a = px 1 w \<and> px 2 a = px 2 w"
  unfolding numeral_2_eq_2 by (auto simp: same_page_def le_Suc_eq)

lemma space_pte:
  assumes "mem s = space_mem" "va39 w"
  shows "pte_of s 0x80001000 w = (if vpn w = 0 then PA2PTE 0x80006000 OR 23
     else if vpn w = vpn TRAMPOLINE then PA2PTE 0x80000000 OR 11
     else if vpn w = vpn TRAPFRAME then PA2PTE 0x80007000 OR 7 else 0)"
proof -
  have v: "va39 0" "va39 TRAMPOLINE" "va39 TRAPFRAME"
    by (simp_all add: TRAMPOLINE_def TRAPFRAME_def MAXVA_def PGSIZE_def)
  have e: "same_page 2 a w \<longleftrightarrow> vpn w = vpn a" if "va39 a" for a
    using same_page_vpn' [OF that assms(2)] by auto
  have sm: "same_page 2 0 w \<longleftrightarrow> px (Suc (Suc 0)) w = 0 \<and> px (Suc 0) w = 0 \<and> px 0 w = 0"
    "same_page 2 TRAMPOLINE w \<longleftrightarrow> px (Suc (Suc 0)) w = 255 \<and> px (Suc 0) w = 511 \<and> px 0 w = 511"
    "same_page 2 TRAPFRAME w \<longleftrightarrow> px (Suc (Suc 0)) w = 255 \<and> px (Suc 0) w = 511 \<and> px 0 w = 510"
    unfolding same_page_2 space_px by (auto simp: numeral_2_eq_2)
  have "pte_of s 0x80001000 w = ent (Suc (Suc 0)) space_mem 0x80001000 w"
    using assms(1) unfolding pte_of_def numeral_2_eq_2 by simp
  also have "\<dots> = (if px (Suc (Suc 0)) w = 0 \<and> px (Suc 0) w = 0 \<and> px 0 w = 0 then PA2PTE 0x80006000 OR 23
      else if px (Suc (Suc 0)) w = 255 \<and> px (Suc 0) w = 511 \<and> px 0 w = 511 then PA2PTE 0x80000000 OR 11
      else if px (Suc (Suc 0)) w = 255 \<and> px (Suc 0) w = 511 \<and> px 0 w = 510 then PA2PTE 0x80007000 OR 7 else 0)"
    by (simp add: ent_Suc ent_0 space_ld64 space_ld64 [of 0, simplified] space_ld64 [of 255, simplified]
        space_ld64 [of 511, simplified] space_ld64 [of 510, simplified] space_paged space_pa Let_def)
  also have "\<dots> = (if same_page 2 0 w then PA2PTE 0x80006000 OR 23
      else if same_page 2 TRAMPOLINE w then PA2PTE 0x80000000 OR 11
      else if same_page 2 TRAPFRAME w then PA2PTE 0x80007000 OR 7 else 0)"
    unfolding sm ..
  finally show ?thesis unfolding e [OF v(1)] e [OF v(2)] e [OF v(3)] by simp
qed

definition space :: virtio where
  "space = bss\<lparr>mem := space_mem, procs := (procs bss)(0 := no_proc\<lparr>p_state := ZOMBIE, p_pid := 7, p_sz := 0x1000,
     p_pagetable := 0x80001000, p_trapframe := 0x80007000\<rparr>)\<rparr>"

lemma space_proc_mem: "proc_mem space 0 space_tables [] 1"
  and space_frames: "frames space 0x80001000 1 = {0x80006000}"
proof -
  have sp: "mem space = space_mem" "kend space = 0x80001000" "freelist space = 0" "held space = []"
    "p_pagetable (procs space 0) = 0x80001000" "p_trapframe (procs space 0) = 0x80007000" "p_sz (procs space 0) = 0x1000"
    by (simp_all add: space_def bss_def)
  have ok: "page_ok space p" if "p \<in> {0x80006000, 0x80007000} \<union> space_tables" for p
    using that by (auto simp: page_ok_def sp PGSIZE_def PHYSTOP_def KERNBASE_def)
  note pte = space_pte [OF sp(1)]
  have va: "va39 w" if "vpn w < 1" for w using that by (simp add: div_less_iff_less_mult)
  have v0: "vpn TRAMPOLINE = 67108863" "vpn TRAPFRAME = 67108862"
    by (simp_all add: TRAMPOLINE_def TRAPFRAME_def MAXVA_def PGSIZE_def)
  have up: "upa space 0x80001000 w = 0x80006000" if "vpn w < 1" for w
    using pte [OF va [OF that]] that space_pa(5) by (simp add: upa_def)
  have bits: "(PA2PTE 0x80006000 OR 23) AND PTE_V \<noteq> 0" "(PA2PTE 0x80000000 OR 11) AND PTE_V \<noteq> 0"
    "(PA2PTE 0x80007000 OR 7) AND PTE_V \<noteq> 0" "PTE_FLAGS (PA2PTE 0x80006000 OR 23) \<noteq> PTE_V"
    "PTE_FLAGS (PA2PTE 0x80000000 OR 11) \<noteq> PTE_V" "PTE_FLAGS (PA2PTE 0x80007000 OR 7) \<noteq> PTE_V"
    by (simp_all add: PA2PTE_def PTE_V_def PTE_FLAGS_def)
  have "pt_ok space 0x80001000 space_tables []"
    using space_tree by (simp add: pt_ok_def sp alloc_ready_def free_pages_def)
  then have "aspace space 0x80001000 space_tables [] 1 {vpn TRAMPOLINE, vpn TRAPFRAME}"
    unfolding aspace_def using ok up pte bits v0 by auto
  moreover show fr: "frames space 0x80001000 1 = {0x80006000}" using up frames_list [of 1 space "0x80001000"] by (simp add: lessThan_Suc)
  ultimately show "proc_mem space 0 space_tables [] 1"
    using ok by (simp add: proc_mem_def sp Let_def PGSIZE_def PGROUNDUP_def)
qed

section \<open>Properties\<close>

text \<open>C23: \<open>freeproc\<close> on a process with a well-formed address space does not panic and resets its slot. The pages
  that join the free list are exactly the ones the process owned: its trapframe, every page of its page table and
  every frame of its user memory, each of them once. The trampoline page, which it shares, is not freed. No
  memory outside those pages changes.\<close>

theorem freeproc_returns_pages:
  fixes s :: "'x ptab_scheme"
  assumes "proc_mem s p T ps n"
  shows "\<exists>t qs m f. freeproc p s = Done () t \<and> alloc_ready t (qs @ ps) \<and> distinct (qs @ ps)
    \<and> set qs = insert (p_trapframe (procs s p)) (T \<union> frames s (p_pagetable (procs s p)) n)
    \<and> t = s\<lparr>mem := m, freelist := f, procs := (procs s)(p := unused (procs s p))\<rparr>
    \<and> (\<forall>x. (\<forall>a \<in> set qs. \<not> in_page a x) \<longrightarrow> m x = mem s x)"
  using freeproc_ok [OF assms] ka.avail_usable by metis

theorem freeproc_returns_pages_witness:
  "\<exists>t qs. freeproc 0 space = Done () t \<and> alloc_ready t qs \<and> distinct qs
    \<and> set qs = insert 0x80007000 (space_tables \<union> {0x80006000})"
proof -
  have sp: "p_pagetable (procs space 0) = 0x80001000" "p_trapframe (procs space 0) = 0x80007000"
    by (simp_all add: space_def bss_def)
  show ?thesis
    using freeproc_returns_pages [OF space_proc_mem, unfolded sp space_frames append_Nil2] by blast
qed

end
