(* ===== verification/Fork_Copy.thy ===== *)
theory Fork_Copy
  imports Address_Space
begin

text \<open>
  \<open>uvmcopy\<close>, the copy of the parent's memory in \<open>fork\<close>: the child gets the same contents and permissions in
  frames of its own, and a copy that runs out of memory gives every page back.
\<close>

lemma map1_ok:
  assumes "pt_ok s pt T ps" "4096 dvd unat a" "a < MAXVA" "pte_of s pt a AND PTE_V = 0"
  shows "\<exists>r t T' ps'. mappages pt a PGSIZE m perm s = Done r t \<and> moved pt T ps s T' ps' t
    \<and> (if r = 0 then \<forall>w. va39 w \<longrightarrow> pte_of t pt w = (if vpn w = vpn a then PA2PTE m OR perm OR PTE_V else pte_of s pt w)
       else r = - 1 \<and> ps' = [] \<and> (\<forall>w. pte_of t pt w = pte_of s pt w))"
proof -
  have a38: "unat a + 4096 \<le> 2 ^ 38"
  proof -
    obtain k where "unat a = 4096 * k" using assms(2) by (elim dvdE)
    with assms(3) show ?thesis by (simp add: unat_less_mono)
  qed
  have l: "PGROUNDDOWN (a + PGSIZE - 1) = PGROUNDDOWN a" "PGROUNDDOWN a = a"
  proof -
    have "unat (a + PGSIZE - 1) = unat a + 4095"
      using mappages_count(1) [of PGSIZE a] a38 by (simp add: PGSIZE_def)
    moreover obtain k where "unat a = 4096 * k" using assms(2) by (elim dvdE)
    ultimately have "vpn (a + PGSIZE - 1) = k" "vpn a = k" "unat a = 4096 * k" by simp_all
    then show "PGROUNDDOWN (a + PGSIZE - 1) = PGROUNDDOWN a" "PGROUNDDOWN a = a"
      by (simp_all add: word_unat_eq_iff PGROUNDDOWN_vpn(2))
  qed
  have run: "mappages pt a PGSIZE m perm s = mappages_loop pt perm a m 0 s"
    unfolding mappages_def Let_def l by (simp add: PGSIZE_def del: mappages_loop.simps)
  obtain r t T' ps' where w: "walk pt a True s = Done r t" "moved pt T ps s T' ps' t"
    "\<forall>w. pte_of t pt w = pte_of s pt w" "if r = 0 then ps' = [] else pt_walk 2 (mem t) pt a = Some r"
    using walk_alloc [OF assms(1,3)] by blast
  show ?thesis
  proof (cases "r = 0")
    case True
    with w run show ?thesis
      by (intro exI [of _ "- 1"] exI [of _ t] exI [of _ T'] exI [of _ ps'])
        (auto simp: kernel_simps mappages_loop.simps)
  next
    case False
    then have pw: "pt_walk 2 (mem t) pt a = Some r" using w(4) by simp
    have tr: "ptree 2 (mem t) pt T'" "alloc_ready t ps'" "T' \<inter> set ps' = {}"
      using w(2) by (simp_all add: moved_def pt_ok_def)
    obtain u where u: "stk r (PA2PTE m OR perm OR PTE_V) t = Done () u" "ptree 2 (mem u) pt T'" "alloc_ready u ps'"
      "touches T' t u" "\<forall>va'. ent 2 (mem u) pt va'
        = (if same_page 2 a va' then PA2PTE m OR perm OR PTE_V else ent 2 (mem t) pt va')"
      using stk_leaf [OF tr(1) pw tr(2,3), of "PA2PTE m OR perm OR PTE_V"] by auto
    have "moved pt T' ps' t T' ps' u" using u tr by (simp add: moved_def pt_ok_def)
    then have mv: "moved pt T ps s T' ps' u" using w(2) moved_trans by blast
    have "mappages pt a PGSIZE m perm s = Done 0 u"
      using w(1,3) False u(1) assms(4) pte_of_walk [OF pw] unfolding run
      by (simp add: kernel_simps ldk_def mappages_loop.simps)
    moreover have "va39 a" using assms(3) by (simp add: unat_less_mono)
    then have "\<forall>w. va39 w \<longrightarrow> pte_of u pt w = (if vpn w = vpn a then PA2PTE m OR perm OR PTE_V else pte_of s pt w)"
      using u(5) w(3) same_page_vpn' [of a] by (auto simp: pte_of_def)
    ultimately show ?thesis using mv
      by (intro exI [of _ 0] exI [of _ u] exI [of _ T'] exI [of _ ps']) simp
  qed
qed

lemma aspace_unmap_all:
  assumes "aspace s pt T ps n X"
  shows "\<exists>t qs. uvmunmap pt 0 (of_nat n) True s = Done () t \<and> aspace t pt T (qs @ ps) 0 X
    \<and> set qs = frames s pt n \<and> touches (T \<union> frames s pt n) s t
    \<and> (\<forall>w. va39 w \<longrightarrow> pte_of t pt w = (if vpn w < n then 0 else pte_of s pt w))"
proof -
  let ?as = "map page_addr [0..<n]"
  have n: "n \<le> 2 ^ 26" and ok: "pt_ok s pt T ps" using assms by (simp_all add: aspace_def)
  obtain t where t: "eachk (uvmunmap1 pt True) ?as s = Done () t"
    "pt_ok t pt T (rev (map (upa s pt) ?as) @ ps)" "touches (T \<union> upa s pt ` set ?as) s t"
    "\<forall>w. va39 w \<longrightarrow> pte_of t pt w = (if vpn w < n then 0 else pte_of s pt w)"
    using unmap_user [OF assms] by blast
  have "uvmunmap pt 0 (of_nat n) True s = Done () t"
    using unmap_pages [of 0 n "of_nat n" pt True s] t(1) n by (simp add: unat_of_nat)
  moreover have "aspace t pt T (rev (map (upa s pt) ?as) @ ps) 0 X"
    using assms t(2,4) touches_page_ok [OF t(3)] unfolding aspace_def by auto
  moreover have "upa s pt ` set ?as = frames s pt n" unfolding frames_list [OF n] by auto
  moreover have "set (rev (map (upa s pt) ?as)) = frames s pt n" unfolding frames_list [OF n] by auto
  ultimately show ?thesis using t(3,4) by metis
qed

lemma aspace_mapped:
  assumes "aspace s pt T ps n X" "va39 w"
  shows "pte_of s pt w AND PTE_V \<noteq> 0 \<longleftrightarrow> vpn w < n \<or> vpn w \<in> X"
    "vpn w < n \<or> vpn w \<in> X \<Longrightarrow> PTE_FLAGS (pte_of s pt w) \<noteq> PTE_V" "ptree 2 (mem s) pt T"
  using assms unfolding aspace_def pt_ok_def by blast+

lemma ready_page_ok: "alloc_ready s ps \<Longrightarrow> p \<in> set ps \<Longrightarrow> page_ok s p"
  using ka.avail_usable by blast

lemma pte_new:
  assumes "PTE_FLAGS perm = perm" "perm AND PTE_V \<noteq> 0" "m mod PGSIZE = 0"
  shows "PTE2PA (PA2PTE m OR perm OR PTE_V) = m" "PTE_FLAGS (PA2PTE m OR perm OR PTE_V) = perm"
proof -
  have tb: "take_bit 10 x = x AND 0x3FF" for x :: u64
  proof -
    have "(0x3FF :: u64) = mask 10" by (simp add: mask_eq_exp_minus_1)
    then show ?thesis by (simp only: take_bit_eq_mask)
  qed
  have "bit perm 0" using assms(2) by (simp add: PTE_V_def and_one_eq odd_iff_mod_2_eq_one bit_0 even_iff_mod_2_eq_zero)
  then have v: "perm OR PTE_V = perm" by (intro bit_word_eqI) (auto simp: PTE_V_def bit_simps)
  have lt: "perm < 1024"
  proof -
    have "perm = take_bit 10 perm" using assms(1) by (simp add: PTE_FLAGS_def tb)
    then have "perm = perm mod 1024" by (simp add: take_bit_eq_mod)
    moreover have "perm mod 1024 < 1024" by (rule word_mod_less_divisor) simp
    ultimately show ?thesis by simp
  qed
  show "PTE2PA (PA2PTE m OR perm OR PTE_V) = m"
    unfolding or.assoc v using assms(3) lt by (rule PTE2PA_PA2PTE)
  have "take_bit 10 (PA2PTE m OR perm) = take_bit 10 perm"
    by (rule bit_word_eqI) (auto simp: PA2PTE_def bit_simps)
  then show "PTE_FLAGS (PA2PTE m OR perm OR PTE_V) = perm"
    unfolding or.assoc v using assms(1) unfolding PTE_FLAGS_def tb by simp
qed

text \<open>Mapping the next page of an address space to a fresh page \<open>m\<close>.\<close>

lemma aspace_map_next:
  assumes a: "aspace s pt T ps i X" and i: "i < 2 ^ 26" "i \<notin> X"
    and m: "page_ok s m" "m \<notin> T \<union> set ps \<union> frames s pt i" and fl: "PTE_FLAGS perm = perm" "perm AND PTE_V \<noteq> 0" "perm \<noteq> PTE_V"
  shows "\<exists>r t T' ps'. mappages pt (page_addr i) PGSIZE m perm s = Done r t
    \<and> T \<subseteq> T' \<and> T' \<union> set ps' = T \<union> set ps \<and> touches T' s t
    \<and> (if r = 0 then aspace t pt T' ps' (Suc i) X \<and> upa t pt (page_addr i) = m \<and> PTE_FLAGS (pte_of t pt (page_addr i)) = perm
         \<and> (\<forall>w. vpn w < i \<longrightarrow> pte_of t pt w = pte_of s pt w)
       else r = - 1 \<and> aspace t pt T' ps' i X \<and> (\<forall>w. pte_of t pt w = pte_of s pt w))"
proof -
  let ?a = "page_addr i"
  have ok: "pt_ok s pt T ps" using a by (simp add: aspace_def)
  have ua: "unat ?a = 4096 * i" "vpn ?a = i" using page_addr_unat [of i] page_addr_vpn [of i] i(1) by simp_all
  have am: "?a < MAXVA" "va39 ?a" "4096 dvd unat ?a" using ua(1) i(1) by (simp_all add: unat_less_mono)
  have nv: "pte_of s pt ?a AND PTE_V = 0" using a am(2) ua(2) i(2) unfolding aspace_def by auto
  obtain r t T' ps' where t: "mappages pt ?a PGSIZE m perm s = Done r t" "moved pt T ps s T' ps' t"
    "if r = 0 then \<forall>w. va39 w \<longrightarrow> pte_of t pt w = (if vpn w = i then PA2PTE m OR perm OR PTE_V else pte_of s pt w)
       else r = - 1 \<and> ps' = [] \<and> (\<forall>w. pte_of t pt w = pte_of s pt w)"
    using map1_ok [OF ok am(3,1) nv, of m perm] unfolding ua(2) by blast
  have mv: "pt_ok t pt T' ps'" "T \<subseteq> T'" "T' \<union> set ps' = T \<union> set ps" "touches T' s t"
    using t(2) by (simp_all add: moved_def)
  have pok: "\<forall>p \<in> T'. page_ok t p"
    using a mv(2,3) ready_page_ok [of s ps] touches_page_ok [OF mv(4)] unfolding aspace_def pt_ok_def by blast
  show ?thesis
  proof (cases "r = 0")
    case False
    then have e: "\<And>w. pte_of t pt w = pte_of s pt w" "r = - 1" using t(3) by simp_all
    have "aspace t pt T' ps' i X"
      using a mv(1,3) pok touches_page_ok [OF mv(4)] unfolding aspace_def upa_def e(1) by simp
    with t(1) mv e False show ?thesis by (intro exI [of _ r] exI [of _ t] exI [of _ T'] exI [of _ ps']) simp
  next
    case True
    let ?e = "PA2PTE m OR perm OR PTE_V"
    have e: "\<And>w. va39 w \<Longrightarrow> pte_of t pt w = (if vpn w = i then ?e else pte_of s pt w)" using t(3) True by simp
    have "m mod PGSIZE = 0" using m(1) by (simp add: page_ok_def)
    note pn = pte_new [OF fl(1,2) this]
    have pv: "?e AND PTE_V \<noteq> 0" using PTE_V_or [of "PA2PTE m OR perm"] by (simp only: or.assoc) simp
    have v39: "va39 w" if "vpn w < Suc i" for w using that i(1) by (simp add: div_less_iff_less_mult)
    have lo: "pte_of t pt w = pte_of s pt w" "upa t pt w = upa s pt w" if "vpn w < i" for w
      using e [of w] v39 [of w] that by (simp_all add: upa_def)
    have hi: "pte_of t pt w = ?e" "upa t pt w = m" if "vpn w = i" for w
      using e [of w] v39 [of w] that pn(1) by (simp_all add: upa_def)
    have fr: "upa s pt w \<noteq> m" if "vpn w < i" for w using m(2) that unfolding frames_def by blast
    have "aspace t pt T' ps' (Suc i) X"
      unfolding aspace_def
    proof (intro conjI allI impI)
      show "pt_ok t pt T' ps'" by (rule mv(1))
      show "\<forall>p \<in> T'. page_ok t p" by (rule pok)
      show "Suc i \<le> 2 ^ 26" "X \<inter> {..<Suc i} = {}" using a i unfolding aspace_def by (auto simp: less_Suc_eq)
      fix w
      show "(pte_of t pt w AND PTE_V \<noteq> 0) = (vpn w < Suc i \<or> vpn w \<in> X)" if "va39 w"
        using a e [OF that] that i(2) pv unfolding aspace_def by (auto simp: less_Suc_eq)
      show "PTE_FLAGS (pte_of t pt w) \<noteq> PTE_V" if "va39 w" "vpn w < Suc i \<or> vpn w \<in> X"
        using a e [OF that(1)] that pn(2) fl(3) unfolding aspace_def by (auto simp: less_Suc_eq)
      show "page_ok t (upa t pt w)" "upa t pt w \<notin> T' \<union> set ps'" if "vpn w < Suc i"
        using a that hi(2) [of w] lo(2) [of w] m mv(3) touches_page_ok [OF mv(4)]
        unfolding aspace_def by (auto simp: less_Suc_eq)
      show "vpn v = vpn w" if "vpn v < Suc i \<and> vpn w < Suc i \<and> upa t pt v = upa t pt w" for v
        using a that hi(2) [of w] lo(2) [of w] hi(2) [of v] lo(2) [of v] fr [of v] fr [of w]
        unfolding aspace_def by (auto simp: less_Suc_eq)
    qed
    with True t(1) mv hi ua(2) lo(1) pn(2) show ?thesis
      by (intro exI [of _ r] exI [of _ t] exI [of _ T'] exI [of _ ps']) simp
  qed
qed

text \<open>The page \<open>j\<close> of the new address space has the contents and the permissions the old one had.\<close>

definition page_copied :: "'x kmem_scheme \<Rightarrow> u64 \<Rightarrow> 'x kmem_scheme \<Rightarrow> u64 \<Rightarrow> nat \<Rightarrow> bool" where
  "page_copied s old t new j \<longleftrightarrow> PTE_FLAGS (pte_of t new (page_addr j)) = PTE_FLAGS (pte_of s old (page_addr j))
     \<and> (\<forall>x<4096. mem t (unat (upa t new (page_addr j)) + x) = mem s (unat (upa s old (page_addr j)) + x))"

text \<open>Two address spaces beside the free pages: the old one of \<open>n\<close> pages and the new one with \<open>i\<close> pages so far, made of
  what was \<open>U\<close>.\<close>

definition two_spaces :: "'x kmem_scheme \<Rightarrow> u64 \<Rightarrow> u64 set \<Rightarrow> nat \<Rightarrow> nat set \<Rightarrow> u64 \<Rightarrow> u64 set \<Rightarrow> nat \<Rightarrow> nat set
    \<Rightarrow> u64 list \<Rightarrow> u64 set \<Rightarrow> bool" where
  "two_spaces s old To n Xo new T i Xn ps U \<longleftrightarrow> aspace s old To ps n Xo \<and> aspace s new T ps i Xn
     \<and> T \<union> set ps \<union> frames s new i = U \<and> (To \<union> frames s old n) \<inter> U = {}"

lemma aspace_pages:
  assumes "aspace s pt T ps n X"
  shows "p \<in> T \<Longrightarrow> paged p" "p \<in> set ps \<Longrightarrow> paged p" "p \<in> frames s pt n \<Longrightarrow> paged p"
    "T \<inter> set ps = {}" "frames s pt n \<inter> (T \<union> set ps) = {}" "alloc_ready s ps"
proof -
  show T: "p \<in> T \<Longrightarrow> paged p" using assms page_ok_paged by (auto simp: aspace_def)
  show r: "alloc_ready s ps" "T \<inter> set ps = {}" using assms by (auto simp: aspace_def pt_ok_def)
  show "p \<in> set ps \<Longrightarrow> paged p" using ready_page_ok [OF r(1)] page_ok_paged by blast
  have f: "page_ok s p \<and> p \<notin> T \<union> set ps" if "p \<in> frames s pt n" for p
    using assms that unfolding aspace_def frames_def by auto
  show "p \<in> frames s pt n \<Longrightarrow> paged p" using f page_ok_paged by blast
  show "frames s pt n \<inter> (T \<union> set ps) = {}" using f by blast
qed

text \<open>A change of pages of \<open>U\<close> outside the new table and its frames keeps both spaces.\<close>

lemma two_spaces_touch:
  assumes t: "two_spaces s old To n Xo new T i Xn ps U" and c: "touches P s t"
    and P: "P \<subseteq> U" "P \<inter> (T \<union> frames s new i) = {}" and r: "alloc_ready t ps'" "T \<union> set ps' \<union> frames s new i \<subseteq> U"
    "set ps' \<inter> (T \<union> frames s new i) = {}"
  shows "aspace t old To ps' n Xo" "aspace t new T ps' i Xn" "frames t old n = frames s old n"
    "frames t new i = frames s new i"
proof -
  have a: "aspace s old To ps n Xo" "aspace s new T ps i Xn" "(To \<union> frames s old n) \<inter> U = {}"
    and U: "U = T \<union> set ps \<union> frames s new i"
    using t by (simp_all add: two_spaces_def)
  have pg: "paged p" if "p \<in> P" for p
    using that P(1) aspace_pages(1-3) [OF a(2), of p] unfolding U by blast
  have d: "P \<inter> To = {}" "set ps' \<inter> (To \<union> frames s old n) = {}" "P \<inter> T = {}" using P a(3) r(2) by auto
  note o = aspace_cong [OF a(1) c d(1) pg r(1) d(2)] and w = aspace_cong [OF a(2) c d(3) pg r(1,3)]
  show "aspace t old To ps' n Xo" "frames t old n = frames s old n" using o by blast+
  show "aspace t new T ps' i Xn" "frames t new i = frames s new i" using w by blast+
qed

lemma copy_cleanup:
  assumes "two_spaces s old To n Xo new T i Xn ps U"
  shows "\<exists>t ps'. uvmunmap new 0 (of_nat i) True s = Done () t \<and> two_spaces t old To n Xo new T 0 Xn ps' U
    \<and> touches U s t"
proof -
  have a: "aspace s old To ps n Xo" "aspace s new T ps i Xn" "(To \<union> frames s old n) \<inter> U = {}"
    "T \<union> set ps \<union> frames s new i = U"
    using assms by (simp_all add: two_spaces_def)
  obtain t qs where t: "uvmunmap new 0 (of_nat i) True s = Done () t" "aspace t new T (qs @ ps) 0 Xn"
    "set qs = frames s new i" "touches (T \<union> frames s new i) s t"
    using aspace_unmap_all [OF a(2)] by blast
  have pg: "paged p" if "p \<in> T \<union> frames s new i" for p using that aspace_pages(1,3) [OF a(2)] by blast
  have d: "(T \<union> frames s new i) \<inter> To = {}" "set (qs @ ps) \<inter> (To \<union> frames s old n) = {}" using a(3,4) t(3) by auto
  have r: "alloc_ready t (qs @ ps)" using aspace_pages(6) [OF t(2)] .
  note o = aspace_cong [OF a(1) t(4) d(1) pg r d(2)]
  have "frames t new 0 = {}" by (simp add: frames_def)
  moreover have "T \<union> set (qs @ ps) \<union> {} = U" using a(4) t(3) by auto
  ultimately have "two_spaces t old To n Xo new T 0 Xn (qs @ ps) U" using o t(2) a(3) by (simp add: two_spaces_def)
  moreover have "touches U s t" by (rule touches_mono [OF t(4)]) (use a(4) in auto)
  ultimately show ?thesis using t(1) by blast
qed

text \<open>A fresh page filled with a copy of the page \<open>f\<close>.\<close>

lemma fresh_copy:
  assumes r: "alloc_ready s (m # ps)" and f: "paged f" "f \<noteq> m"
  shows "\<exists>t u. kalloc s = Done m t \<and> m \<noteq> 0
    \<and> putmem m (get_bytes (mem t) (unat f) 4096) t = Done () u \<and> alloc_ready u ps \<and> touches {m} s u
    \<and> (\<forall>x<4096. mem u (unat m + x) = mem s (unat f + x))"
proof -
  obtain t where t: "kalloc s = Done m t" "alloc_ready t ps" "mem_same_outside m s t"
    using ka.alloc_some [OF r] by blast
  have m: "page_ok s m" "m \<notin> set ps" "m \<noteq> 0" using ka.avail_usable [OF r] by auto
  let ?bs = "get_bytes (mem t) (unat f) 4096"
  let ?u = "t\<lparr>mem := put_bytes (mem t) (unat m) ?bs\<rparr>"
  have st: "touches {m} s t" by (rule touches_same [OF t(3)]) simp
  have "put_bytes (mem t) (unat m) ?bs x = mem t x" if "\<not> in_page m x" for x
    using that by (intro put_bytes_outside) (auto simp: in_page_def)
  then have tu: "touches {m} t ?u" unfolding touches_def
    by (intro exI [of _ "freelist t"] exI [of _ "put_bytes (mem t) (unat m) ?bs"]) simp
  have "alloc_ready ?u ps"
    by (rule touches_ready [OF t(2) tu]) (use m page_ok_paged [of s m] in auto)
  moreover have "touches {m} s ?u" by (rule touches_trans [OF st tu]) simp
  moreover have "mem ?u (unat m + x) = mem s (unat f + x)" if "x < 4096" for x
  proof -
    have "mem ?u (unat m + x) = mem t (unat f + x)" using that by (simp add: put_bytes_inside)
    also have "\<dots> = mem s (unat f + x)"
      by (rule touches_page [OF st f(1)]) (use f(2) m(1) page_ok_paged that in \<open>auto simp: in_page_def\<close>)
    finally show ?thesis .
  qed
  ultimately show ?thesis using t(1) m(3) by (intro exI [of _ t] exI [of _ ?u]) (simp add: putmem_def)
qed

lemma page_addr_div: "i < 2 ^ 26 \<Longrightarrow> page_addr i div PGSIZE = of_nat i"
  using page_addr_unat [of i] by (simp add: word_unat_eq_iff unat_div_distrib unat_of_nat)

lemma touches_frame:
  assumes "touches P s t" "\<And>p. p \<in> P \<Longrightarrow> paged p" "paged f" "f \<notin> P" "x < 4096"
  shows "mem t (unat f + x) = mem s (unat f + x)"
  by (rule touches_page [OF assms(1,3,2,4)]) (use assms(5) in \<open>simp_all add: in_page_def\<close>)

definition same_pages :: "'x kmem_scheme \<Rightarrow> 'x kmem_scheme \<Rightarrow> u64 \<Rightarrow> nat \<Rightarrow> bool" where
  "same_pages s t pt n \<longleftrightarrow> (\<forall>j<n. page_copied s pt t pt j)"

lemma page_copied_trans: "page_copied s a t b j \<Longrightarrow> page_copied t b u c j \<Longrightarrow> page_copied s a u c j"
  by (simp add: page_copied_def)

lemma frames_cong: "(\<And>w. vpn w < n \<Longrightarrow> pte_of t pt w = pte_of s pt w) \<Longrightarrow> frames t pt n = frames s pt n"
  unfolding frames_def upa_def by metis

lemma frames_Suc: "n < 2 ^ 26 \<Longrightarrow> frames s pt (Suc n) = insert (upa s pt (page_addr n)) (frames s pt n)"
  using frames_list [of "Suc n" s pt] frames_list [of n s pt] by (simp add: lessThan_Suc)

text \<open>What \<open>uvmcopy_loop\<close> does for one page.\<close>

lemma copy_step:
  assumes inv: "two_spaces s old To n Xo new T i Xn ps U" and i: "i < n" "i \<notin> Xn"
  shows "\<exists>t T' ps'. T \<subseteq> T' \<and> touches U s t \<and>
    (two_spaces t old To n Xo new T' (Suc i) Xn ps' U \<and> page_copied s old t new i \<and> same_pages s t new i
       \<and> (\<forall>is. uvmcopy_loop old new (page_addr i # is) s = uvmcopy_loop old new is t)
     \<or> two_spaces t old To n Xo new T' 0 Xn ps' U
       \<and> (\<forall>is. uvmcopy_loop old new (page_addr i # is) s = Done (- 1) t))"
proof -
  let ?a = "page_addr i" and ?e = "pte_of s old (page_addr i)" and ?f = "upa s old (page_addr i)"
  have a: "aspace s old To ps n Xo" "aspace s new T ps i Xn" "(To \<union> frames s old n) \<inter> U = {}"
    "U = T \<union> set ps \<union> frames s new i"
    using inv by (simp_all add: two_spaces_def)
  have i26: "i < 2 ^ 26" using a(1) i(1) by (simp add: aspace_def)
  have ua: "vpn ?a = i" "va39 ?a" "?a < MAXVA" using page_addr_unat [of i] i26 by (simp_all add: unat_less_mono)
  have e: "?e AND PTE_V \<noteq> 0" "PTE_FLAGS ?e \<noteq> PTE_V" using aspace_mapped [OF a(1) ua(2)] ua(1) i(1) by simp_all
  have fm: "?f \<in> frames s old n" unfolding frames_def using ua(1) i(1) by (intro CollectI exI [of _ ?a]) simp
  then have f: "paged ?f" "?f \<notin> U" using aspace_pages(3) [OF a(1)] a(3) by blast+
  obtain x where x: "walk old ?a False s = Done x s" "x \<noteq> 0" "ld64 (mem s) (unat x) = ?e"
    using walk_lookup [of s old To ?a] aspace_mapped(3) [OF a(1) ua(2)] ua(3) e(1) by (auto split: if_splits)
  have pgU: "paged p" if "p \<in> U" for p using that aspace_pages(1-3) [OF a(2)] unfolding a(4) by blast
  show ?thesis
  proof (cases ps)
    case Nil
    then have "kalloc s = Done 0 s" using ka.alloc_none aspace_pages(6) [OF a(1)] by simp
    with copy_cleanup [OF inv] x e(1) page_addr_div [OF i26] show ?thesis
      by (fastforce simp: kernel_simps ldk_def)
  next
    case (Cons m ps1)
    have fn: "?f \<noteq> m" using f(2) a(4) Cons by auto
    obtain t1 t2 where t2: "kalloc s = Done m t1" "m \<noteq> 0"
      "putmem m (get_bytes (mem t1) (unat ?f) 4096) t1 = Done () t2" "alloc_ready t2 ps1" "touches {m} s t2"
      "\<forall>x<4096. mem t2 (unat m + x) = mem s (unat ?f + x)"
      using fresh_copy [OF _ f(1) fn, of s ps1] aspace_pages(6) [OF a(1)] Cons by blast
    have d: "distinct (m # ps1)" using aspace_pages(6) [OF a(1)] Cons by (simp add: alloc_ready_def free_pages_def)
    have mT: "m \<notin> T \<union> set ps1 \<union> frames s new i" "m \<in> U" using aspace_pages(4,5) [OF a(2)] d a(4) Cons by auto
    have rest: "T \<union> set ps1 \<union> frames s new i \<subseteq> U" "set ps1 \<inter> (T \<union> frames s new i) = {}" "{m} \<inter> (T \<union> frames s new i) = {}"
      using aspace_pages(4,5) [OF a(2)] a(4) Cons mT by auto
    note s2 = two_spaces_touch [OF inv t2(5) _ rest(3) t2(4) rest(1,2)]
    have aa: "aspace t2 old To ps1 n Xo" "aspace t2 new T ps1 i Xn" "frames t2 old n = frames s old n"
      "frames t2 new i = frames s new i" using s2 mT(2) by simp_all
    have "page_ok t2 m" "m \<notin> T \<union> set ps1 \<union> frames t2 new i"
      using ready_page_ok [OF aspace_pages(6) [OF a(1)], of m] touches_page_ok [OF t2(5)] Cons mT aa(4) by auto
    moreover have "PTE_FLAGS (PTE_FLAGS ?e) = PTE_FLAGS ?e" "PTE_FLAGS ?e AND PTE_V \<noteq> 0"
      using e(1) by (simp_all add: PTE_FLAGS_def PTE_V_def and.assoc)
    ultimately obtain r t3 T3 ps3 where t3: "mappages new ?a PGSIZE m (PTE_FLAGS ?e) t2 = Done r t3" "T \<subseteq> T3"
      "T3 \<union> set ps3 = T \<union> set ps1" "touches T3 t2 t3"
      "if r = 0 then aspace t3 new T3 ps3 (Suc i) Xn \<and> upa t3 new ?a = m \<and> PTE_FLAGS (pte_of t3 new ?a) = PTE_FLAGS ?e
         \<and> (\<forall>w. vpn w < i \<longrightarrow> pte_of t3 new w = pte_of t2 new w)
       else r = - 1 \<and> aspace t3 new T3 ps3 i Xn \<and> (\<forall>w. pte_of t3 new w = pte_of t2 new w)"
      using aspace_map_next [OF aa(2) i26 i(2), of m "PTE_FLAGS ?e"] e(2) by blast
    have run: "uvmcopy_loop old new (?a # is) s = (if r \<noteq> 0 then
        thn (kfree m) (thn (uvmunmap new 0 (of_nat i) True) (ret (- 1))) t3 else uvmcopy_loop old new is t3)" for "is"
      using x e(1) t2(1-3) t3(1) page_addr_div [OF i26] by (simp add: kernel_simps ldk_def upa_def)
    have T3: "T3 \<subseteq> U" "set ps3 \<subseteq> U" "m \<notin> T3 \<union> set ps3" using t3(3) rest(1) mT(1) by auto
    have dF: "frames s new i \<inter> (T3 \<union> set ps3) = {}" "m \<notin> frames s new i"
      using aspace_pages(5) [OF aa(2)] mT(1) unfolding t3(3) aa(4) by auto
    have mp: "paged m" using pgU mT(2) .
    have pg3: "paged p" if "p \<in> T3" for p using pgU T3(1) that by blast
    have e2: "pte_of t2 new w = pte_of s new w" "upa t2 new w = upa s new w" for w
    proof -
      have "{m} \<inter> T = {}" "\<And>p. p \<in> {m} \<Longrightarrow> paged p" using rest(3) mp by auto
      from touches_ptree(3) [OF t2(5) aspace_mapped(3) [OF a(2) ua(2)] this(2,1)]
      show "pte_of t2 new w = pte_of s new w" by (simp add: pte_of_def)
      then show "upa t2 new w = upa s new w" by (simp add: upa_def)
    qed
    have r3: "alloc_ready t3 ps3" using t3(5) aspace_pages(6) by (auto split: if_splits)
    have d3: "T3 \<inter> To = {}" "set ps3 \<inter> (To \<union> frames t2 old n) = {}" using T3 a(3) aa(3) by auto
    note o3 = aspace_cong [OF aa(1) t3(4) d3(1) pg3 r3 d3(2)]
    have st3: "touches U s t3" by (rule touches_trans [OF t2(5) t3(4)]) (use T3 mT(2) in auto)
    show ?thesis
    proof (cases "r = 0")
      case True
      then have n3: "aspace t3 new T3 ps3 (Suc i) Xn" "upa t3 new ?a = m" "PTE_FLAGS (pte_of t3 new ?a) = PTE_FLAGS ?e"
        "\<And>w. vpn w < i \<Longrightarrow> pte_of t3 new w = pte_of s new w" using t3(5) e2(1) by auto
      have F: "frames t3 new (Suc i) = insert m (frames s new i)"
        using frames_Suc [of i t3 new] frames_cong [of i t3 new s, OF n3(4)] n3(2) i26 by simp
      have U3: "T3 \<union> set ps3 \<union> frames t3 new (Suc i) = U" unfolding F t3(3) a(4) Cons by auto
      have ts: "two_spaces t3 old To n Xo new T3 (Suc i) Xn ps3 U"
        using o3 n3(1) U3 a(3) aa(3) by (simp add: two_spaces_def)
      have "mem t3 (unat m + x) = mem s (unat ?f + x)" if "x < 4096" for x
        using touches_frame [OF t3(4) pg3 mp _ that] T3(3) t2(6) that by simp
      then have pc: "page_copied s old t3 new i" using n3(2,3) by (simp add: page_copied_def)
      have "page_copied s new t3 new j" if "j < i" for j
      proof -
        have vj: "vpn (page_addr j) < i" using page_addr_vpn [of j] that i26 by simp
        let ?g = "upa s new (page_addr j)"
        have g: "?g \<in> frames s new i" unfolding frames_def using vj by (intro CollectI exI [of _ "page_addr j"]) simp
        have gp: "paged ?g" "?g \<notin> T3" "?g \<notin> {m}" using aspace_pages(3) [OF a(2) g] g dF by auto
        have "mem t3 (unat ?g + x) = mem s (unat ?g + x)" if "x < 4096" for x
          using touches_frame [OF t3(4) pg3 gp(1,2) that] touches_frame [OF t2(5) _ gp(1,3) that] mp by simp
        with n3(4) [OF vj] show ?thesis by (simp add: page_copied_def upa_def)
      qed
      then have "same_pages s t3 new i" by (simp add: same_pages_def)
      with ts pc st3 t3(2) run True show ?thesis
        by (intro exI [of _ t3] exI [of _ T3] exI [of _ ps3]) simp
    next
      case False
      then have n3: "aspace t3 new T3 ps3 i Xn" "frames t3 new i = frames s new i"
        using t3(5) False frames_cong [of i t3 new s] e2(1) by simp_all
      have "page_ok t3 m" using ready_page_ok [OF aspace_pages(6) [OF a(1)], of m] touches_page_ok [OF st3] Cons by simp
      then obtain t4 where t4: "kfree m t3 = Done () t4" "alloc_ready t4 (m # ps3)" "mem_same_outside m t3 t4"
        using ka.free_ok [OF r3] T3(3) by blast
      have c4: "touches {m} t3 t4" by (rule touches_same [OF t4(3)]) simp
      have pm: "paged p" if "p \<in> {m}" for p using that mp by simp
      have d4: "{m} \<inter> To = {}" "{m} \<inter> T3 = {}" "set (m # ps3) \<inter> (To \<union> frames t3 old n) = {}"
        "set (m # ps3) \<inter> (T3 \<union> frames t3 new i) = {}"
        using mT(2) T3 a(3) aa(3) o3(2) dF n3 aspace_pages(4) [OF n3(1)] by auto
      note o4 = aspace_cong [OF o3(1) c4 d4(1) pm t4(2) d4(3)] and w4 = aspace_cong [OF n3(1) c4 d4(2) pm t4(2) d4(4)]
      have F4: "frames t4 new i = frames s new i" using w4(2) n3(2) by simp
      have "T3 \<union> set (m # ps3) \<union> frames t4 new i = (T3 \<union> set ps3) \<union> insert m (frames s new i)"
        unfolding F4 by auto
      also have "\<dots> = U" unfolding t3(3) a(4) Cons by auto
      finally have "two_spaces t4 old To n Xo new T3 i Xn (m # ps3) U"
        using o4 w4 o3 aa(3) a(3) by (simp add: two_spaces_def)
      then obtain t5 ps5 where t5: "uvmunmap new 0 (of_nat i) True t4 = Done () t5"
        "two_spaces t5 old To n Xo new T3 0 Xn ps5 U" "touches U t4 t5" using copy_cleanup by blast
      have "touches U s t5" by (rule touches_trans [OF st3 touches_trans [OF c4 t5(3) subset_refl]]) (use mT(2) in auto)
      with t5(1,2) t3(2) run False t4(1) show ?thesis
        by (intro exI [of _ t5] exI [of _ T3] exI [of _ ps5]) (simp add: kernel_simps)
    qed
  qed
qed

text \<open>The old address space is out of reach of the copy.\<close>

lemma old_pages_same:
  assumes "two_spaces s old To n Xo new T i Xn ps U" "touches U s t" "j < n"
  shows "page_copied s old t old j"
proof -
  have a: "aspace s old To ps n Xo" "aspace s new T ps i Xn" "(To \<union> frames s old n) \<inter> U = {}"
    "U = T \<union> set ps \<union> frames s new i"
    using assms(1) by (simp_all add: two_spaces_def)
  have pgU: "paged p" if "p \<in> U" for p using that aspace_pages(1-3) [OF a(2)] unfolding a(4) by blast
  have j: "j < 2 ^ 26" using a(1) assms(3) by (simp add: aspace_def)
  let ?f = "upa s old (page_addr j)"
  have "?f \<in> frames s old n" unfolding frames_def using page_addr_vpn [of j] j assms(3)
    by (intro CollectI exI [of _ "page_addr j"]) simp
  then have f: "paged ?f" "?f \<notin> U" using aspace_pages(3) [OF a(1)] a(3) by blast+
  have "U \<inter> To = {}" "va39 0" using a(3) by auto
  from touches_ptree(3) [OF assms(2) aspace_mapped(3) [OF a(1) this(2)] pgU this(1)]
  have "pte_of t old (page_addr j) = pte_of s old (page_addr j)" by (simp add: pte_of_def)
  then show ?thesis using touches_frame [OF assms(2) pgU f]
    by (simp add: page_copied_def upa_def)
qed

lemma uvmcopy_loop_ok:
  assumes "two_spaces s old To n Xo new T i Xn ps U" "Xn \<inter> {..<n} = {}" "i \<le> n"
  shows "\<exists>r t T' ps'. uvmcopy_loop old new (map page_addr [i..<n]) s = Done r t \<and> T \<subseteq> T' \<and> touches U s t
    \<and> (if r = 0 then two_spaces t old To n Xo new T' n Xn ps' U \<and> same_pages s t new i
         \<and> (\<forall>j. i \<le> j \<and> j < n \<longrightarrow> page_copied s old t new j)
       else r = - 1 \<and> two_spaces t old To n Xo new T' 0 Xn ps' U)"
  using assms
proof (induction "n - i" arbitrary: s T ps i)
  case 0
  then show ?case
    by (intro exI [of _ 0] exI [of _ s] exI [of _ T] exI [of _ ps])
      (auto simp: touches_refl same_pages_def page_copied_def)
next
  case (Suc d)
  have i: "i < n" "i \<notin> Xn" using Suc.hyps(2) Suc.prems(2) by auto
  have l: "map page_addr [i..<n] = page_addr i # map page_addr [Suc i..<n]" using i(1) by (simp add: upt_conv_Cons)
  obtain t T1 ps1 where t: "T \<subseteq> T1" "touches U s t"
    "two_spaces t old To n Xo new T1 (Suc i) Xn ps1 U \<and> page_copied s old t new i \<and> same_pages s t new i
       \<and> (\<forall>is. uvmcopy_loop old new (page_addr i # is) s = uvmcopy_loop old new is t)
     \<or> two_spaces t old To n Xo new T1 0 Xn ps1 U
       \<and> (\<forall>is. uvmcopy_loop old new (page_addr i # is) s = Done (- 1) t)"
    using copy_step [OF Suc.prems(1) i] by blast
  from t(3) show ?case
  proof (elim disjE conjE)
    assume "two_spaces t old To n Xo new T1 0 Xn ps1 U"
      "\<forall>is. uvmcopy_loop old new (page_addr i # is) s = Done (- 1) t"
    with t(1,2) show ?thesis unfolding l
      by (intro exI [of _ "- 1"] exI [of _ t] exI [of _ T1] exI [of _ ps1]) simp
  next
    assume c: "two_spaces t old To n Xo new T1 (Suc i) Xn ps1 U" "page_copied s old t new i" "same_pages s t new i"
      "\<forall>is. uvmcopy_loop old new (page_addr i # is) s = uvmcopy_loop old new is t"
    have d: "d = n - Suc i" using Suc.hyps(2) by simp
    obtain r u T2 ps2 where u: "uvmcopy_loop old new (map page_addr [Suc i..<n]) t = Done r u" "T1 \<subseteq> T2" "touches U t u"
      "if r = 0 then two_spaces u old To n Xo new T2 n Xn ps2 U \<and> same_pages t u new (Suc i)
         \<and> (\<forall>j. Suc i \<le> j \<and> j < n \<longrightarrow> page_copied t old u new j)
       else r = - 1 \<and> two_spaces u old To n Xo new T2 0 Xn ps2 U"
      using Suc.hyps(1) [OF d c(1) Suc.prems(2) Suc_leI [OF i(1)]] by blast
    have su: "touches U s u" by (rule touches_trans [OF t(2) u(3)]) simp
    have run: "uvmcopy_loop old new (map page_addr [i..<n]) s = Done r u" unfolding l using c(4) u(1) by simp
    show ?thesis
    proof (cases "r = 0")
      case False
      with u su run t(1) show ?thesis
        by (intro exI [of _ r] exI [of _ u] exI [of _ T2] exI [of _ ps2]) auto
    next
      case True
      have u': "two_spaces u old To n Xo new T2 n Xn ps2 U" "same_pages t u new (Suc i)"
        "\<And>j. Suc i \<le> j \<Longrightarrow> j < n \<Longrightarrow> page_copied t old u new j" using u(4) True by auto
      have old: "page_copied s old t old j" if "j < n" for j
        by (rule old_pages_same [OF Suc.prems(1) t(2) that])
      have "page_copied s old u new j" if "i \<le> j" "j < n" for j
      proof (cases "j = i")
        case True
        then show ?thesis using c(2) u'(2) page_copied_trans unfolding same_pages_def by blast
      next
        case False
        then show ?thesis using page_copied_trans [OF old [OF that(2)] u'(3)] that by simp
      qed
      moreover have "same_pages s u new i"
        using c(3) u'(2) page_copied_trans unfolding same_pages_def by (meson less_SucI)
      ultimately show ?thesis using True u'(1) su run t(1) u(2)
        by (intro exI [of _ r] exI [of _ u] exI [of _ T2] exI [of _ ps2]) auto
    qed
  qed
qed

section \<open>Property\<close>

lemma page_copied_byte:
  assumes "page_copied s old t new (vpn w)" "vpn w < 2 ^ 26"
  shows "PTE_FLAGS (pte_of t new w) = PTE_FLAGS (pte_of s old w)" "mem t (uphys t new w) = mem s (uphys s old w)"
proof -
  have v: "vpn (page_addr (vpn w)) = vpn w" by (rule page_addr_vpn) (use assms(2) in simp)
  have e: "pte_of t new w = pte_of t new (page_addr (vpn w))" "pte_of s old w = pte_of s old (page_addr (vpn w))"
    by (rule pte_of_vpn; simp add: v)+
  show "PTE_FLAGS (pte_of t new w) = PTE_FLAGS (pte_of s old w)" unfolding e using assms(1) by (simp add: page_copied_def)
  have "unat w mod 4096 < 4096" by simp
  with assms(1) show "mem t (uphys t new w) = mem s (uphys s old w)"
    unfolding uphys_def upa_def e unfolding page_copied_def upa_def by blast
qed


lemma space_two:
  "two_spaces space 0x80001000 space_tables 1 {vpn TRAMPOLINE, vpn TRAPFRAME} 0x80008000 {0x80008000} 0 {} [] {0x80008000}"
proof -
  have sp: "mem space = space_mem" "kend space = 0x80001000" "freelist space = 0" "held space = []"
    "p_pagetable (procs space 0) = 0x80001000"
    by (simp_all add: space_def bss_def)
  have a: "aspace space 0x80001000 space_tables [] 1 {vpn TRAMPOLINE, vpn TRAPFRAME}"
    using space_proc_mem by (simp add: proc_mem_def sp Let_def)
  have pg: "paged 0x80008000" by (simp add: paged_def PGSIZE_def unat_less_mono)
  have z: "mem space x = 0" if "in_page 0x80008000 x" for x
    using that by (simp add: sp space_mem_def st64_outside in_page_def)
  have "pt_ok space 0x80008000 {0x80008000} []"
    using ptree_zero [OF pg z] by (simp add: pt_ok_def sp alloc_ready_def free_pages_def)
  moreover have "pte_of space 0x80008000 w = 0" for w unfolding pte_of_def by (rule ent_zero [OF pg z])
  ultimately have "aspace space 0x80008000 {0x80008000} [] 0 {}"
    by (simp add: aspace_def page_ok_def sp PGSIZE_def PHYSTOP_def KERNBASE_def)
  with a space_frames show ?thesis by (simp add: two_spaces_def frames_def [of _ _ 0])
qed


end
