(* ===== verification/Proc_Life.thy ===== *)
theory Proc_Life
  imports Fork_Copy Pipe_Queue
begin

text \<open>
  The life of a process: the pass of the scheduler, \<open>exit\<close> and \<open>wait\<close>, and the clock.
\<close>

section \<open>exit\<close>

text \<open>What \<open>reparent\<close> may change in a slot, besides its parent: a sleeper on the channel of \<open>init\<close> may have been
  made runnable.\<close>

definition same_but_parent :: "'x ptab_scheme \<Rightarrow> chan option \<Rightarrow> (nat \<Rightarrow> proc) \<Rightarrow> nat \<Rightarrow> bool" where
  "same_but_parent s ch P q \<longleftrightarrow> (\<exists>pp. P q = (procs s q)\<lparr>p_parent := pp\<rparr>
     \<or> sleeping_on ch s q \<and> P q = (woken ch s q)\<lparr>p_parent := pp\<rparr>)"

lemma reparent1_app:
  assumes "can_wake s"
  shows "reparent1 p q s = (if p_parent (procs s q) = Some p then
     (let s1 = s\<lparr>procs := (procs s)(q := (procs s q)\<lparr>p_parent := initproc s\<rparr>)\<rparr> in
      Done () (s1\<lparr>procs := woken (map_option ChProc (initproc s)) s1\<rparr>))
     else Done () s)"
  using assms by (simp add: reparent1_def kernel_simps wakeup_app can_wake_def no_plock_def Let_def)

lemma same_but_parent_woken:
  assumes "same_but_parent s ch P q" "P' q = (P q)\<lparr>p_parent := x\<rparr>"
  shows "same_but_parent s ch (woken ch (s\<lparr>procs := P'\<rparr>)) q"
proof -
  obtain pp where "P q = (procs s q)\<lparr>p_parent := pp\<rparr> \<or> sleeping_on ch s q \<and> P q = (woken ch s q)\<lparr>p_parent := pp\<rparr>"
    using assms(1) unfolding same_but_parent_def by blast
  then show ?thesis
  proof (elim disjE conjE)
    assume "P q = (procs s q)\<lparr>p_parent := pp\<rparr>"
    then have e: "P' q = (procs s q)\<lparr>p_parent := x\<rparr>" using assms(2) by simp
    show ?thesis unfolding same_but_parent_def
      by (rule exI [of _ x]) (simp add: woken_def sleeping_on_def e)
  next
    assume a: "sleeping_on ch s q" "P q = (woken ch s q)\<lparr>p_parent := pp\<rparr>"
    then have e: "P' q = (woken ch s q)\<lparr>p_parent := x\<rparr>" using assms(2) by simp
    have "woken ch (s\<lparr>procs := P'\<rparr>) q = P' q" using a(1) by (simp add: woken_def sleeping_on_def e)
    then show ?thesis unfolding same_but_parent_def using a(1) e by metis
  qed
qed

lemma reparent_upto:
  assumes "can_wake s"
  shows "\<exists>P. eachk (reparent1 p) [0..<n] s = Done () (s\<lparr>procs := P\<rparr>)
    \<and> (\<forall>q. p_parent (P q) = (if q < n \<and> p_parent (procs s q) = Some p then initproc s else p_parent (procs s q)))
    \<and> (\<forall>q. same_but_parent s (map_option ChProc (initproc s)) P q)
    \<and> ((\<exists>c<n. p_parent (procs s c) = Some p) \<longrightarrow>
        (\<forall>q. \<not> sleeping_on (map_option ChProc (initproc s)) (s\<lparr>procs := P\<rparr>) q))"
proof (induction n)
  case 0
  have "same_but_parent s ch (procs s) q" for ch q
    unfolding same_but_parent_def by (rule exI [of _ "p_parent (procs s q)"]) simp
  then show ?case by (intro exI [of _ "procs s"]) (simp add: kernel_simps)
next
  case (Suc n)
  then obtain P where P: "eachk (reparent1 p) [0..<n] s = Done () (s\<lparr>procs := P\<rparr>)"
    "\<And>q. p_parent (P q) = (if q < n \<and> p_parent (procs s q) = Some p then initproc s else p_parent (procs s q))"
    "\<And>q. same_but_parent s (map_option ChProc (initproc s)) P q"
    "(\<exists>c<n. p_parent (procs s c) = Some p) \<Longrightarrow> \<forall>q. \<not> sleeping_on (map_option ChProc (initproc s)) (s\<lparr>procs := P\<rparr>) q"
    by blast
  let ?s = "s\<lparr>procs := P\<rparr>" and ?ch = "map_option ChProc (initproc s)"
  have w: "can_wake ?s" using assms by (simp add: can_wake_def no_plock_def)
  show ?case
  proof (cases "p_parent (procs s n) = Some p")
    case False
    then show ?thesis using P reparent1_app [OF w, of p n]
      by (intro exI [of _ P]) (auto simp: kernel_simps eachk_append less_Suc_eq)
  next
    case True
    let ?s1 = "?s\<lparr>procs := P(n := (P n)\<lparr>p_parent := initproc s\<rparr>)\<rparr>"
    let ?Q = "woken ?ch ?s1"
    have r: "reparent1 p n ?s = Done () (s\<lparr>procs := ?Q\<rparr>)"
      using reparent1_app [OF w, of p n] True P(2) [of n] by (simp add: Let_def)
    have "same_but_parent s ?ch ?Q q" for q
      using same_but_parent_woken [OF P(3), of "P(n := (P n)\<lparr>p_parent := initproc s\<rparr>)" q
          "if q = n then initproc s else p_parent (P q)"] by simp
    moreover have "p_parent (?Q q) = p_parent (procs ?s1 q)" for q by (simp add: woken_def)
    moreover have "eachk (reparent1 p) [0..<Suc n] s = Done () (s\<lparr>procs := ?Q\<rparr>)"
      using P(1) r by (simp add: kernel_simps eachk_append)
    moreover have "\<not> sleeping_on ?ch (s\<lparr>procs := ?Q\<rparr>) q" for q by (simp add: sleeping_on_def woken_def)
    ultimately show ?thesis using P(2) True by (intro exI [of _ ?Q]) (auto simp: less_Suc_eq)
  qed
qed

lemma reparent_ok:
  assumes "can_wake s"
  obtains P where "reparent p s = Done () (s\<lparr>procs := P\<rparr>)"
    "\<And>q. p_parent (P q) = (if q < NPROC \<and> p_parent (procs s q) = Some p then initproc s else p_parent (procs s q))"
    "\<And>q. same_but_parent s (map_option ChProc (initproc s)) P q"
    "\<And>c q. c < NPROC \<Longrightarrow> p_parent (procs s c) = Some p
        \<Longrightarrow> \<not> sleeping_on (map_option ChProc (initproc s)) (s\<lparr>procs := P\<rparr>) q"
  using reparent_upto [OF assms, of p NPROC] unfolding reparent_def by blast

lemma same_but_parent_cases:
  assumes "same_but_parent s ch P q"
  shows "P q = (procs s q)\<lparr>p_parent := p_parent (P q)\<rparr> \<or>
    sleeping_on ch s q \<and> P q = (woken ch s q)\<lparr>p_parent := p_parent (P q)\<rparr>"
proof -
  obtain pp where "P q = (procs s q)\<lparr>p_parent := pp\<rparr> \<or> sleeping_on ch s q \<and> P q = (woken ch s q)\<lparr>p_parent := pp\<rparr>"
    using assms unfolding same_but_parent_def by blast
  then show ?thesis by (elim disjE conjE) simp_all
qed

text \<open>C26: the end of \<open>exit\<close>, for a process that is not \<open>init\<close> and has a parent: it never returns, the process
  goes to the scheduler as a ZOMBIE with its exit status, holding only its own lock. Exactly its children now have
  \<open>init\<close> as parent. A parent asleep in \<open>wait\<close> is runnable, and so is \<open>init\<close> if it got a child. No other
  process changes.\<close>

theorem exit_hands_over:
  fixes s :: "'x ptab_scheme"
  assumes "curproc s = Some p" "p < NPROC" "held s = []" "initproc s = Some ini" "ini \<noteq> p"
    "p_parent (procs s p) = Some pp" "pp \<noteq> p"
  shows "\<exists>P. (exit_zombie p status s :: (_, 'a) outcome) = Swtch (s\<lparr>held := [LkProc p], procs := P\<rparr>)
    \<and> P p = (procs s p)\<lparr>p_xstate := status, p_state := ZOMBIE\<rparr>
    \<and> (\<forall>c<NPROC. p_parent (P c) = (if p_parent (procs s c) = Some p then Some ini else p_parent (procs s c)))
    \<and> (sleeping_on (Some (ChProc pp)) s pp \<longrightarrow> p_state (P pp) = RUNNABLE)
    \<and> ((\<exists>c<NPROC. p_parent (procs s c) = Some p) \<longrightarrow> sleeping_on (Some (ChProc ini)) s ini \<longrightarrow> p_state (P ini) = RUNNABLE)
    \<and> (\<forall>q. q \<noteq> p \<longrightarrow> \<not> sleeping_on (Some (ChProc pp)) s q \<longrightarrow> \<not> sleeping_on (Some (ChProc ini)) s q
        \<longrightarrow> P q = (procs s q)\<lparr>p_parent := p_parent (P q)\<rparr>)"
proof -
  let ?l = "s\<lparr>held := [LkWait]\<rparr>" and ?ci = "Some (ChProc ini)" and ?cp = "Some (ChProc pp)"
  have cw: "can_wake ?l" by (simp add: can_wake_def no_plock_def)
  have so: "sleeping_on ch ?l = sleeping_on ch s" for ch by (simp add: sleeping_on_def fun_eq_iff)
  obtain P where P: "reparent p ?l = Done () (?l\<lparr>procs := P\<rparr>)"
    "\<And>q. p_parent (P q) = (if q < NPROC \<and> p_parent (procs s q) = Some p then Some ini else p_parent (procs s q))"
    "\<And>q. same_but_parent ?l ?ci P q"
    "\<And>c q. c < NPROC \<Longrightarrow> p_parent (procs s c) = Some p \<Longrightarrow> \<not> sleeping_on ?ci (?l\<lparr>procs := P\<rparr>) q"
  proof -
    obtain P where P: "reparent p ?l = Done () (?l\<lparr>procs := P\<rparr>)"
      "\<And>q. p_parent (P q) = (if q < NPROC \<and> p_parent (procs ?l q) = Some p then initproc ?l else p_parent (procs ?l q))"
      "\<And>q. same_but_parent ?l (map_option ChProc (initproc ?l)) P q"
      "\<And>c q. c < NPROC \<Longrightarrow> p_parent (procs ?l c) = Some p
          \<Longrightarrow> \<not> sleeping_on (map_option ChProc (initproc ?l)) (?l\<lparr>procs := P\<rparr>) q"
      using reparent_ok [OF cw, of p] by metis
    then show thesis using assms(4) by (intro that [of P]) simp_all
  qed
  have pl: "procs ?l = procs s" by simp
  note same = same_but_parent_cases [OF P(3), unfolded so pl]
  let ?m = "?l\<lparr>procs := P\<rparr>"
  have Pp: "P p = procs s p"
    using same [of p] P(2) [of p] assms by (auto simp: sleeping_on_def)
  have cm: "can_wake ?m" by (simp add: can_wake_def no_plock_def)
  let ?W = "woken ?cp ?m"
  have Wp: "?W p = procs s p" using assms(1) Pp by (simp add: woken_def sleeping_on_def)
  let ?F = "?W(p := (procs s p)\<lparr>p_xstate := status, p_state := ZOMBIE\<rparr>)"
  have run: "(exit_zombie p status s :: (_, 'a) outcome) = Swtch (s\<lparr>held := [LkProc p], procs := ?F\<rparr>)"
    using assms P(1) Pp Wp by (simp add: exit_zombie_def kernel_simps wakeup_app [OF cm])
  have W: "?W q = (if sleeping_on ?cp ?m q then (P q)\<lparr>p_state := RUNNABLE, p_readytime := ucast (ticks s)\<rparr> else P q)" for q
    by (simp add: woken_def)
  have woke: "sleeping_on ch s q \<Longrightarrow> p_state (P q) = RUNNABLE \<or> sleeping_on ch ?m q" for ch q
  proof -
    assume a: "sleeping_on ch s q"
    obtain x where "P q = (procs ?l q)\<lparr>p_parent := x\<rparr> \<or> P q = (woken ?ci ?l q)\<lparr>p_parent := x\<rparr>"
      using P(3) [of q] unfolding same_but_parent_def by blast
    with a show ?thesis by (elim disjE) (simp_all add: sleeping_on_def woken_def)
  qed
  have keep: "P q = (procs s q)\<lparr>p_parent := p_parent (P q)\<rparr>" if "\<not> sleeping_on ?ci s q" for q
    using same [of q] that by blast
  have slp: "sleeping_on ch ?m q \<longleftrightarrow> sleeping_on ch s q" if "P q = (procs s q)\<lparr>p_parent := x\<rparr>" for ch q x
    using that by (simp add: sleeping_on_def)
  have "p_state (?F pp) = RUNNABLE" if "sleeping_on ?cp s pp"
  proof (cases "p_state (P pp) = RUNNABLE")
    case True
    then show ?thesis using assms(7) by (simp add: W)
  next
    case False
    then show ?thesis using woke [OF that] assms(7) by (simp add: W)
  qed
  moreover have "p_state (?F ini) = RUNNABLE"
    if "\<exists>c<NPROC. p_parent (procs s c) = Some p" "sleeping_on ?ci s ini"
    using that P(4) woke assms(5) by (auto simp: W)
  moreover have "?F q = (procs s q)\<lparr>p_parent := p_parent (?F q)\<rparr>"
    if "q \<noteq> p" "\<not> sleeping_on ?cp s q" "\<not> sleeping_on ?ci s q" for q
    using keep [OF that(3)] slp [of q _ ?cp, OF keep [OF that(3)]] that(1,2) by (simp add: W)
  moreover have "p_parent (?F c) = (if p_parent (procs s c) = Some p then Some ini else p_parent (procs s c))"
    if "c < NPROC" for c
    using P(2) [of c] that assms(6,7) by (simp add: W)
  ultimately show ?thesis using run by (intro exI [of _ ?F]) (simp del: fun_upd_apply, simp)
qed

theorem exit_hands_over_witness:
  "\<exists>P. (exit_zombie 0 9 (demo\<lparr>initproc := Some 1, procs := \<lambda>q. if q = 0 then demo_proc\<lparr>p_parent := Some 1\<rparr>
        else if q = 1 then demo_proc\<lparr>p_state := SLEEPING, p_chan := Some (ChProc 1)\<rparr> else no_proc\<rparr>) :: (virtio, int) outcome)
      = Swtch (demo\<lparr>initproc := Some 1, held := [LkProc 0], procs := P\<rparr>)
    \<and> p_state (P 0) = ZOMBIE \<and> p_state (P 1) = RUNNABLE"
proof -
  let ?s = "demo\<lparr>initproc := Some 1, procs := \<lambda>q. if q = 0 then demo_proc\<lparr>p_parent := Some 1\<rparr>
      else if q = 1 then demo_proc\<lparr>p_state := SLEEPING, p_chan := Some (ChProc 1)\<rparr> else no_proc\<rparr>"
  have s: "sleeping_on (Some (ChProc 1)) ?s 1" by (simp add: sleeping_on_def NPROC_def)
  obtain P where "(exit_zombie 0 9 ?s :: (virtio, int) outcome) = Swtch (?s\<lparr>held := [LkProc 0], procs := P\<rparr>)"
    "P 0 = (procs ?s 0)\<lparr>p_xstate := 9, p_state := ZOMBIE\<rparr>"
    "sleeping_on (Some (ChProc 1)) ?s 1 \<longrightarrow> p_state (P 1) = RUNNABLE"
    using exit_hands_over [of ?s 0 1 1 9] by (auto simp: NPROC_def)
  with s show ?thesis by (intro exI [of _ P]) simp
qed

section \<open>wait\<close>

abbreviation zombie_kid :: "'x ptab_scheme \<Rightarrow> nat \<Rightarrow> nat \<Rightarrow> bool" where
  "zombie_kid s p c \<equiv> p_parent (procs s c) = Some p \<and> p_state (procs s c) = ZOMBIE"

text \<open>What the scan does with the first zombie child \<open>z\<close>.\<close>

definition reap :: "nat \<Rightarrow> u64 \<Rightarrow> nat \<Rightarrow> ('x ptab_scheme, int) K" where
  "reap p addr z = bnd (getp z (\<lambda>q. q)) (\<lambda>nq.
     bnd (if addr \<noteq> 0 then
            bnd (getp p p_pagetable) (\<lambda>pt. copyout pt addr (le_bytes 4 (unat (p_xstate nq))))
          else ret 0) (\<lambda>r.
     if r < 0 then
       thn (release (LkProc z)) (thn (release LkWait) (ret (- 1)))
     else
       thn (freeproc z) (
       thn (release (LkProc z)) (
       thn (release LkWait) (ret (sint (p_pid nq)))))))"

lemma wait_scan_app:
  assumes "held s = [LkWait]"
  shows "wait_scan p addr havekids nps s = (case find (zombie_kid s p) nps of
      Some z \<Rightarrow> reap p addr z (s\<lparr>held := [LkProc z, LkWait]\<rparr>)
    | None \<Rightarrow> if \<not> (havekids \<or> (\<exists>c \<in> set nps. p_parent (procs s c) = Some p)) \<or> p_killed (procs s p) \<noteq> 0
        then Done (- 1) (s\<lparr>held := []\<rparr>) else sleep (ChProc p) LkWait s)"
  using assms
proof (induction nps arbitrary: havekids)
  case Nil
  then show ?case by (simp add: kernel_simps)
next
  case (Cons np nps)
  have h: "s\<lparr>held := [LkWait]\<rparr> = s" using Cons.prems by (cases s) simp
  show ?case
  proof (cases "p_parent (procs s np) = Some p")
    case False
    with Cons show ?thesis by (auto simp: kernel_simps split: option.split)
  next
    case True
    show ?thesis
    proof (cases "p_state (procs s np) = ZOMBIE")
      case z: True
      with True Cons.prems show ?thesis by (simp add: kernel_simps reap_def)
    next
      case z: False
      have "wait_scan p addr havekids (np # nps) s = wait_scan p addr True nps (s\<lparr>held := [LkWait]\<rparr>)"
        using True z Cons.prems by (simp add: kernel_simps)
      then show ?thesis unfolding h using True z Cons by simp
    qed
  qed
qed

lemma wait_app:
  assumes "curproc s = Some p" "held s = []"
  shows "wait addr s = (case first_idx (zombie_kid s p) NPROC of
      Some z \<Rightarrow> reap p addr z (s\<lparr>held := [LkProc z, LkWait]\<rparr>)
    | None \<Rightarrow> if \<not> (\<exists>c<NPROC. p_parent (procs s c) = Some p) \<or> p_killed (procs s p) \<noteq> 0
        then Done (- 1) s
        else Swtch (s\<lparr>held := [LkProc p],
               procs := (procs s)(p := (procs s p)\<lparr>p_chan := Some (ChProc p), p_state := SLEEPING\<rparr>)\<rparr>))"
proof -
  have h: "s\<lparr>held := []\<rparr> = s" using assms(2) by (cases s) simp
  have "sleep (ChProc p) LkWait (s\<lparr>held := [LkWait]\<rparr>) = Swtch (s\<lparr>held := [LkProc p],
      procs := (procs s)(p := (procs s p)\<lparr>p_chan := Some (ChProc p), p_state := SLEEPING\<rparr>)\<rparr>)"
    using assms(1) by (simp add: sleep_app)
  with assms h show ?thesis
    by (simp add: wait_def kernel_simps wait_scan_app first_idx_def split: option.split) fastforce
qed

text \<open>The pages of a process.\<close>

definition proc_pages :: "'x ptab_scheme \<Rightarrow> nat \<Rightarrow> u64 set \<Rightarrow> nat \<Rightarrow> u64 set" where
  "proc_pages s p T n = insert (p_trapframe (procs s p)) (T \<union> frames s (p_pagetable (procs s p)) n)"

lemma copied_touches:
  assumes "copied pt va bs k s t"
  shows "touches {upa s pt (va + of_nat i) | i. i < k} s t" "freelist t = freelist s"
proof -
  obtain m where m: "t = s\<lparr>mem := m\<rparr>" using assms unfolding copied_def by blast
  have "m x = mem s x" if "\<forall>p \<in> {upa s pt (va + of_nat i) | i. i < k}. \<not> in_page p x" for x
  proof -
    have "x \<noteq> uphys s pt (va + of_nat i)" if "i < k" for i
      using that \<open>\<forall>p \<in> _. _\<close> by (auto simp: uphys_def in_page_def)
    with assms m show ?thesis unfolding copied_def by auto
  qed
  then show "touches {upa s pt (va + of_nat i) | i. i < k} s t" "freelist t = freelist s"
    unfolding touches_def m by (auto intro!: exI [of _ "freelist s"] exI [of _ m])
qed

lemma proc_mem_touch:
  fixes s :: "'x ptab_scheme"
  assumes "proc_mem s z T ps n" "touches P s t" "\<And>p. p \<in> P \<Longrightarrow> paged p"
    "P \<inter> (proc_pages s z T n \<union> set ps) = {}" "freelist t = freelist s"
  shows "proc_mem t z T ps n" "proc_pages t z T n = proc_pages s z T n" "procs t = procs s"
proof -
  show pr: "procs t = procs s" using assms(2) by (auto simp: touches_def)
  let ?pt = "p_pagetable (procs s z)"
  have a: "aspace s ?pt T ps n {vpn TRAMPOLINE, vpn TRAPFRAME}" using assms(1) by (simp add: proc_mem_def Let_def)
  note pg = aspace_pages [OF a]
  have r: "alloc_ready t ps" by (rule touches_ready [OF pg(6) assms(2,5,3)]) (use assms(4) in auto)
  have d: "P \<inter> T = {}" "set ps \<inter> (T \<union> frames s ?pt n) = {}" using assms(4) pg(4,5) by (auto simp: proc_pages_def)
  note c = aspace_cong [OF a assms(2) d(1) assms(3) r d(2)]
  show "proc_mem t z T ps n" "proc_pages t z T n = proc_pages s z T n"
    using assms(1) c pr touches_page_ok [OF assms(2)] by (auto simp: proc_mem_def Let_def proc_pages_def)
qed

lemma proc_pages_paged: "proc_mem s z T ps n \<Longrightarrow> a \<in> proc_pages s z T n \<Longrightarrow> paged a"
  unfolding proc_pages_def proc_mem_def Let_def using aspace_pages(1,3) page_ok_paged by blast

lemma proc_mem_ready: "proc_mem s z T ps n \<Longrightarrow> alloc_ready s ps"
  unfolding proc_mem_def Let_def using aspace_pages(6) by blast

lemma proc_mem_held:
  fixes s :: "'x ptab_scheme"
  assumes "LkKmem \<notin> set h" "LkKmem \<notin> set (held s)"
  shows "proc_mem (s\<lparr>held := h\<rparr>) z T ps n = proc_mem s z T ps n" "proc_pages (s\<lparr>held := h\<rparr>) z T n = proc_pages s z T n"
    "alloc_ready (s\<lparr>held := h\<rparr>) ps = alloc_ready s ps"
proof -
  have p: "page_ok (s\<lparr>held := h\<rparr>) = page_ok s" by (simp add: page_ok_def fun_eq_iff)
  show a: "alloc_ready (s\<lparr>held := h\<rparr>) ps = alloc_ready s ps" for ps
    using assms by (simp add: alloc_ready_def free_pages_def p)
  have e: "pte_of (s\<lparr>held := h\<rparr>) pt = pte_of s pt" for pt by (simp add: pte_of_def fun_eq_iff)
  then have u: "upa (s\<lparr>held := h\<rparr>) pt = upa s pt" for pt by (simp add: upa_def fun_eq_iff)
  show "proc_mem (s\<lparr>held := h\<rparr>) z T ps n = proc_mem s z T ps n"
    by (simp add: proc_mem_def Let_def frames_def aspace_def pt_ok_def p a e u)
  show "proc_pages (s\<lparr>held := h\<rparr>) z T n = proc_pages s z T n" by (simp add: proc_pages_def frames_def u)
qed

text \<open>The end of \<open>reap\<close>.\<close>

lemma reap_free:
  fixes s :: "'x ptab_scheme"
  assumes "proc_mem s z T ps n" "held s = [LkProc z, LkWait]"
  shows "\<exists>t m qs. thn (freeproc z) (thn (release (LkProc z)) (thn (release LkWait) (ret (x :: int)))) s = Done x t
    \<and> held t = [] \<and> procs t = (procs s)(z := unused (procs s z)) \<and> mem t = m
    \<and> alloc_ready t (qs @ ps) \<and> set qs = proc_pages s z T n
    \<and> (\<forall>y. (\<forall>a \<in> proc_pages s z T n. \<not> in_page a y) \<longrightarrow> m y = mem s y)"
proof -
  obtain t qs m f where t: "freeproc z s = Done () t" "alloc_ready t (qs @ ps)" "set qs = proc_pages s z T n"
    "t = s\<lparr>mem := m, freelist := f, procs := (procs s)(z := unused (procs s z))\<rparr>"
    "\<forall>y. (\<forall>a \<in> proc_pages s z T n. \<not> in_page a y) \<longrightarrow> m y = mem s y"
    using freeproc_ok [OF assms(1)] unfolding proc_pages_def by blast
  have h: "held t = [LkProc z, LkWait]" using t(4) assms(2) by simp
  have "alloc_ready (t\<lparr>held := []\<rparr>) (qs @ ps)" using proc_mem_held(3) [of "[]" t "qs @ ps"] t(2) h by simp
  with t h show ?thesis
    by (intro exI [of _ "t\<lparr>held := []\<rparr>"] exI [of _ m] exI [of _ qs]) (simp add: kernel_simps)
qed

text \<open>C27: \<open>wait\<close> without a zombie child changes no process but the caller: with no child at all, or if the caller
  was killed, it returns -1 and the state is as before; otherwise the caller goes to sleep on its own channel and
  \<open>wait_lock\<close> is free again.\<close>

theorem wait_without_zombie:
  assumes "curproc s = Some p" "held s = []" "\<forall>c<NPROC. \<not> (p_parent (procs s c) = Some p \<and> p_state (procs s c) = ZOMBIE)"
  shows "wait addr s = (if (\<exists>c<NPROC. p_parent (procs s c) = Some p) \<and> p_killed (procs s p) = 0
    then Swtch (s\<lparr>held := [LkProc p],
           procs := (procs s)(p := (procs s p)\<lparr>p_chan := Some (ChProc p), p_state := SLEEPING\<rparr>)\<rparr>)
    else Done (- 1) s)"
proof -
  have "first_idx (zombie_kid s p) NPROC = None" using assms(3) by (simp add: first_idx_None)
  then show ?thesis using wait_app [OF assms(1,2), of addr] by simp
qed

theorem wait_without_zombie_witness: "wait 0 demo = Done (- 1) demo"
proof -
  have n: "p_parent (procs demo c) = None" for c by (simp add: demo_proc_def no_proc_def)
  show ?thesis using wait_without_zombie [of demo 0 0] by (simp add: n del: demo_simps(5))
qed

text \<open>C28: \<open>wait\<close> with a zombie child collects the first one in the table: it returns its pid, its slot is UNUSED, all
  its pages are on the free list, and its exit status is in the caller's memory at \<open>addr\<close>. If \<open>addr\<close> is not
  accessible it returns -1 and collects nothing. It never sleeps and holds no lock afterwards.\<close>

theorem wait_reaps_zombie:
  fixes s :: "'x ptab_scheme"
  assumes c: "curproc s = Some p" "held s = []" "first_idx (zombie_kid s p) NPROC = Some z" "z \<noteq> p"
    and m: "proc_mem s z T ps n"
    and u: "pt = p_pagetable (procs s p)" "addr = 0 \<or> umem_ok s pt Tp \<and>
      (\<forall>i<4. uacc s pt (addr + of_nat i) \<longrightarrow> upa s pt (addr + of_nat i) \<notin> proc_pages s z T n \<union> set ps)"
  shows "\<exists>r t. wait addr s = Done r t \<and> held t = [] \<and>
    (if addr = 0 \<or> (\<forall>i<4. uacc s pt (addr + of_nat i)) then
       r = sint (p_pid (procs s z)) \<and> procs t = (procs s)(z := unused (procs s z))
       \<and> (\<exists>qs. alloc_ready t (qs @ ps) \<and> set qs = proc_pages s z T n)
       \<and> (addr \<noteq> 0 \<longrightarrow> (\<forall>i<4. mem t (uphys s pt (addr + of_nat i)) = le_bytes 4 (unat (p_xstate (procs s z))) ! i))
     else r = - 1 \<and> procs t = procs s \<and> alloc_ready t ps)"
proof -
  let ?l = "s\<lparr>held := [LkProc z, LkWait]\<rparr>"
  have run: "wait addr s = reap p addr z ?l" using wait_app [OF c(1,2), of addr] c(3) by simp
  have ml: "proc_mem ?l z T ps n" "proc_pages ?l z T n = proc_pages s z T n"
    using proc_mem_held [of "[LkProc z, LkWait]" s] c(2) m by simp_all
  show ?thesis
  proof (cases "addr = 0")
    case True
    then have "wait addr s = thn (freeproc z) (thn (release (LkProc z)) (thn (release LkWait) (ret (sint (p_pid (procs s z)))))) ?l"
      unfolding run by (simp add: reap_def kernel_simps)
    with reap_free [OF ml(1), of "sint (p_pid (procs s z))"] True ml(2) show ?thesis by auto
  next
    case False
    with u(2) have um: "umem_ok s pt Tp" and
      apart: "\<forall>i<4. uacc s pt (addr + of_nat i) \<longrightarrow> upa s pt (addr + of_nat i) \<notin> proc_pages s z T n \<union> set ps" by blast+
    let ?bs = "le_bytes 4 (unat (p_xstate (procs s z)))"
    note uc = umem_cong [of ?l s, where pt = pt, simplified]
    obtain r t k where t: "copyout pt addr ?bs ?l = Done r t" "copied pt addr ?bs k ?l t"
      "if r = 0 then k = 4 else r = - 1 \<and> k < 4 \<and> \<not> uacc s pt (addr + of_nat k)"
      using copyout_ok [of ?l pt Tp ?bs addr, unfolded uc length_le_bytes] um by auto
    have k4: "k \<le> 4" using t(3) by (auto split: if_splits)
    have acc: "uacc s pt (addr + of_nat i)" if "i < k" for i using t(2) that unfolding copied_def uc by blast
    let ?P = "{upa s pt (addr + of_nat i) | i. i < k}"
    have tc: "touches ?P ?l t" "freelist t = freelist ?l" using copied_touches [OF t(2)] unfolding uc by blast+
    have pg: "paged a" if "a \<in> ?P" for a using that acc um unfolding umem_ok_def by auto
    have dj: "?P \<inter> (proc_pages ?l z T n \<union> set ps) = {}" using apart acc k4 unfolding ml(2) by fastforce
    note pm = proc_mem_touch [OF ml(1) tc(1) pg dj tc(2)]
    have h: "held t = [LkProc z, LkWait]" using touches_fields [OF tc(1)] by simp
    have go: "wait addr s = (if r < 0 then Done (- 1) (t\<lparr>held := []\<rparr>)
      else thn (freeproc z) (thn (release (LkProc z)) (thn (release LkWait) (ret (sint (p_pid (procs s z)))))) t)"
      unfolding run using False t(1) u(1) h by (simp add: reap_def kernel_simps)
    show ?thesis
    proof (cases "r = 0")
      case True
      then have all: "\<forall>i<4. uacc s pt (addr + of_nat i)" "k = 4" using acc t(3) by simp_all
      obtain x m' qs where x: "wait addr s = Done (sint (p_pid (procs s z))) x" "held x = []"
        "procs x = (procs s)(z := unused (procs s z))" "mem x = m'" "alloc_ready x (qs @ ps)" "set qs = proc_pages s z T n"
        "\<forall>y. (\<forall>a \<in> proc_pages s z T n. \<not> in_page a y) \<longrightarrow> m' y = mem t y"
        using reap_free [OF pm(1) h, of "sint (p_pid (procs s z))"] go True pm(2,3) ml(2) by auto
      have "mem x (uphys s pt (addr + of_nat i)) = ?bs ! i" if i: "i < 4" for i
      proof -
        have "paged (upa s pt (addr + of_nat i))" "upa s pt (addr + of_nat i) \<notin> proc_pages s z T n"
          "in_page (upa s pt (addr + of_nat i)) (uphys s pt (addr + of_nat i))"
          using all(1) i um apart unfolding umem_ok_def by (auto simp: uphys_def in_page_def)
        then have "\<forall>a \<in> proc_pages s z T n. \<not> in_page a (uphys s pt (addr + of_nat i))"
          using proc_pages_paged [OF m] paged_disjoint by metis
        then have "mem x (uphys s pt (addr + of_nat i)) = mem t (uphys s pt (addr + of_nat i))" using x(4,7) by simp
        also have "\<dots> = ?bs ! i" using t(2) i all(2) unfolding copied_def uc by simp
        finally show ?thesis .
      qed
      with x all show ?thesis by (intro exI [of _ "sint (p_pid (procs s z))"] exI [of _ x]) auto
    next
      case False
      then have "\<not> (\<forall>i<4. uacc s pt (addr + of_nat i))" "r < 0" using t(3) by auto
      moreover have "alloc_ready (t\<lparr>held := []\<rparr>) ps"
        using proc_mem_held(3) [of "[]" t ps] h proc_mem_ready [OF pm(1)] by simp
      ultimately show ?thesis using go pm(3) \<open>addr \<noteq> 0\<close>
        by (intro exI [of _ "- 1"] exI [of _ "t\<lparr>held := []\<rparr>"]) auto
    qed
  qed
qed

definition space_wait :: virtio where
  "space_wait = space\<lparr>curproc := Some 1, procs := (procs space)(0 := (procs space 0)\<lparr>p_parent := Some 1\<rparr>)\<rparr>"

lemma space_wait_mem: "proc_mem space_wait 0 space_tables [] 1" "p_pid (procs space_wait 0) = 7"
  "first_idx (zombie_kid space_wait 1) NPROC = Some 0" "curproc space_wait = Some 1" "held space_wait = []"
proof -
  let ?P = "(procs space)(0 := (procs space 0)\<lparr>p_parent := Some 1\<rparr>)"
  have "proc_mem (space\<lparr>procs := ?P\<rparr>) 0 space_tables [] 1"
    using space_proc_mem by (simp add: proc_mem_def Let_def)
  moreover have "proc_mem (s\<lparr>curproc := c\<rparr>) = proc_mem s" for s :: virtio and c
    by (simp add: fun_eq_iff proc_mem_def Let_def aspace_def frames_def pt_ok_def pte_of_def upa_def alloc_ready_def
        free_pages_def page_ok_def)
  moreover have w: "space_wait = space\<lparr>procs := ?P\<rparr>\<lparr>curproc := Some 1\<rparr>" by (simp add: space_wait_def)
  ultimately show "proc_mem space_wait 0 space_tables [] 1" unfolding w by metis
  show "p_pid (procs space_wait 0) = 7" "curproc space_wait = Some 1" "held space_wait = []"
    by (simp_all add: space_wait_def space_def bss_def)
  show "first_idx (zombie_kid space_wait 1) NPROC = Some 0"
    by (simp add: first_idx_Some NPROC_def space_wait_def space_def)
qed

theorem wait_reaps_zombie_witness: "\<exists>t. wait 0 space_wait = Done 7 t \<and> p_state (procs t 0) = UNUSED"
proof -
  note s = space_wait_mem
  obtain r t where "wait 0 space_wait = Done r t" "r = sint (p_pid (procs space_wait 0))"
    "procs t = (procs space_wait)(0 := unused (procs space_wait 0))"
    using wait_reaps_zombie [OF s(4,5,3) _ s(1) refl, of 0] by auto
  then show ?thesis by (simp add: s(2) unused_def)
qed

section \<open>The clock\<close>

lemma clockintr_app:
  assumes "no_plock s" "LkTicks \<notin> set (held s)"
  shows "clockintr s = (if \<exists>p. sleeping_on (Some ChTicks) s p then Panic ''acquire''
     else Done () (s\<lparr>ticks := ticks s + 1\<rparr>))"
proof -
  let ?l = "s\<lparr>held := LkTicks # held s, ticks := ticks s + 1\<rparr>"
  have so: "sleeping_on (Some ChTicks) ?l = sleeping_on (Some ChTicks) s" by (simp add: sleeping_on_def fun_eq_iff)
  have np: "no_plock ?l" using assms(1) by (simp add: no_plock_def)
  have run: "clockintr s = thn (wakeup (Some ChTicks)) (release LkTicks) ?l"
    using assms(2) by (simp add: clockintr_def kernel_simps)
  show ?thesis
  proof (cases "\<exists>p. sleeping_on (Some ChTicks) s p")
    case True
    then obtain p where "sleeping_on (Some ChTicks) ?l p" using so by auto
    from wakeup_ticks_held [OF np _ this] True show ?thesis unfolding run by (simp add: kernel_simps)
  next
    case False
    then have "\<forall>p < NPROC. \<not> sleeping_on (Some ChTicks) ?l p" using so by auto
    then have "wakeup (Some ChTicks) ?l = Done () ?l" unfolding wakeup_def by (rule wakeup_none [OF np]) simp
    with False assms show ?thesis unfolding run by (simp add: kernel_simps)
  qed
qed

text \<open>C30: a process that sleeps for a positive number of ticks brings the kernel down. \<open>sys_sleep\<close> puts it to sleep on
  the tick counter; back in the scheduler, the next clock interrupt wakes it, which reads the clock with
  \<open>sys_uptime\<close>, which takes the lock of the counter a second time, and that is a panic.\<close>

theorem sleep_then_tick_panics:
  fixes s :: "'x ptab_scheme"
  assumes "curproc s = Some p" "p < NPROC" "held s = []" "p_killed (procs s p) = 0"
    "argint 0 s = Done n s" "0 < n" "n < 2 ^ 31"
  shows "\<exists>t u. sys_sleep s = Swtch t \<and> scheduler_back p t = Done () u \<and> clockintr u = Panic ''acquire''"
proof -
  let ?t = "s\<lparr>held := [LkProc p],
     procs := (procs s)(p := (procs s p)\<lparr>p_chan := Some ChTicks, p_state := SLEEPING\<rparr>)\<rparr>"
  let ?u = "?t\<lparr>curproc := None, held := []\<rparr>"
  have "(0 :: u32) < word_of_int n"
    using assms(6,7) by (simp add: word_less_def uint_word_of_int)
  then have "sys_sleep s = Swtch ?t"
    using assms by (simp add: sys_sleep_def sys_sleep_loop_def kernel_simps sleep_app)
  moreover have "scheduler_back p ?t = Done () ?u" by (simp add: scheduler_back_def kernel_simps)
  moreover have "sleeping_on (Some ChTicks) ?u p" using assms(2) by (simp add: sleeping_on_def)
  then have "clockintr ?u = Panic ''acquire''" using clockintr_app [of ?u] by (auto simp: no_plock_def)
  ultimately show ?thesis by blast
qed

theorem sleep_then_tick_panics_witness:
  "\<exists>t u. sys_sleep (demo\<lparr>mem := st64 demo_mem 0x80007070 5, procs := \<lambda>_. demo_proc\<lparr>p_trapframe := 0x80007000\<rparr>\<rparr>) = Swtch t
     \<and> scheduler_back 0 t = Done () u \<and> clockintr u = Panic ''acquire''"
proof -
  let ?s = "demo\<lparr>mem := st64 demo_mem 0x80007070 5, procs := \<lambda>_. demo_proc\<lparr>p_trapframe := 0x80007000\<rparr>\<rparr>"
  have "argint 0 ?s = Done 5 ?s" by (simp add: argint_def argraw_def tf_get_def ldk_def kernel_simps)
  then show ?thesis using sleep_then_tick_panics [of ?s 0 5] by (simp add: NPROC_def)
qed

section \<open>The scheduler\<close>

text \<open>What a process may do between the switch to it and the switch back: it keeps its lock and the hart, and does
  not take a runnable process out of the queue.\<close>

definition fair_turn :: "(nat \<Rightarrow> ('x ptab_scheme, unit) K) \<Rightarrow> bool" where
  "fair_turn turn \<longleftrightarrow> (\<forall>p s. held s = [LkProc p] \<longrightarrow> curproc s = Some p \<longrightarrow> p_state (procs s p) = RUNNING \<longrightarrow>
     (\<exists>t. turn p s = Done () t \<and> held t = [LkProc p]
        \<and> (\<forall>q. q \<noteq> p \<longrightarrow> p_state (procs s q) = RUNNABLE \<longrightarrow> p_state (procs t q) = RUNNABLE)))"

lemma scheduler_step:
  assumes "fair_turn turn" "held s = []"
  shows "\<exists>t. scheduler_pass turn (p # ps) s = bnd (scheduler_pass turn ps) (\<lambda>ran.
      ret (if p_state (procs s p) = RUNNABLE then p # ran else ran)) t \<and> held t = []
    \<and> (\<forall>q. q \<noteq> p \<longrightarrow> p_state (procs s q) = RUNNABLE \<longrightarrow> p_state (procs t q) = RUNNABLE)"
proof (cases "p_state (procs s p) = RUNNABLE")
  case False
  have h: "s\<lparr>held := []\<rparr> = s" using assms(2) by (cases s) simp
  have "scheduler_pick p s = Done False (s\<lparr>held := []\<rparr>)" using False assms(2) by (simp add: scheduler_pick_def kernel_simps)
  then have "scheduler_pick p s = Done False s" unfolding h .
  with False assms(2) show ?thesis by (intro exI [of _ s]) (simp add: kernel_simps)
next
  case True
  let ?s = "s\<lparr>held := [LkProc p], procs := (procs s)(p := (procs s p)\<lparr>p_state := RUNNING\<rparr>), curproc := Some p\<rparr>"
  have pick: "scheduler_pick p s = Done True ?s" using True assms(2) by (simp add: scheduler_pick_def kernel_simps)
  have "held ?s = [LkProc p]" "curproc ?s = Some p" "p_state (procs ?s p) = RUNNING" by simp_all
  then obtain t where t: "turn p ?s = Done () t" "held t = [LkProc p]"
    "\<forall>q. q \<noteq> p \<longrightarrow> p_state (procs ?s q) = RUNNABLE \<longrightarrow> p_state (procs t q) = RUNNABLE"
    using assms(1) unfolding fair_turn_def by blast
  let ?u = "t\<lparr>curproc := None, held := []\<rparr>"
  have "scheduler_back p t = Done () ?u" using t(2) by (simp add: scheduler_back_def kernel_simps)
  with pick t True show ?thesis by (intro exI [of _ ?u]) (simp add: kernel_simps)
qed

lemma scheduler_pass_runs:
  assumes "fair_turn turn" "held s = []" "distinct ps" "sorted ps"
  shows "\<exists>ran t. scheduler_pass turn ps s = Done ran t \<and> held t = [] \<and> distinct ran \<and> sorted ran
    \<and> {p \<in> set ps. p_state (procs s p) = RUNNABLE} \<subseteq> set ran \<and> set ran \<subseteq> set ps"
  using assms(2-4)
proof (induction ps arbitrary: s)
  case Nil
  then show ?case by (simp add: kernel_simps)
next
  case (Cons p ps)
  obtain t where t: "scheduler_pass turn (p # ps) s = bnd (scheduler_pass turn ps) (\<lambda>ran.
      ret (if p_state (procs s p) = RUNNABLE then p # ran else ran)) t" "held t = []"
    "\<forall>q. q \<noteq> p \<longrightarrow> p_state (procs s q) = RUNNABLE \<longrightarrow> p_state (procs t q) = RUNNABLE"
    using scheduler_step [OF assms(1) Cons.prems(1)] by blast
  obtain ran u where u: "scheduler_pass turn ps t = Done ran u" "held u = []" "distinct ran" "sorted ran"
    "{p \<in> set ps. p_state (procs t p) = RUNNABLE} \<subseteq> set ran" "set ran \<subseteq> set ps"
    using Cons.IH [OF t(2)] Cons.prems(2,3) by auto
  let ?r = "if p_state (procs s p) = RUNNABLE then p # ran else ran"
  have "scheduler_pass turn (p # ps) s = Done ?r u" using t(1) u(1) by (simp add: kernel_simps)
  moreover have "distinct ?r" "set ?r \<subseteq> set (p # ps)" "sorted ?r" using u(3,4,6) Cons.prems(2,3) by auto
  moreover have "{q \<in> set (p # ps). p_state (procs s q) = RUNNABLE} \<subseteq> set ?r"
    using u(5) t(3) Cons.prems(2) by (auto split: if_splits)
  ultimately show ?case using u(2) by blast
qed

text \<open>C29: one pass of the scheduler over the process table runs every process that was RUNNABLE when the pass began,
  exactly once, in the order of the table, provided that a process that is run switches back and does not
  block the others. No runnable process waits for more than one turn of each other process.\<close>

theorem scheduler_runs_every_runnable:
  assumes "fair_turn turn" "held s = []"
  shows "\<exists>ran t. scheduler turn s = Done ran t \<and> held t = [] \<and> distinct ran \<and> sorted ran
    \<and> (\<forall>p < NPROC. p_state (procs s p) = RUNNABLE \<longrightarrow> p \<in> set ran) \<and> set ran \<subseteq> {..<NPROC}"
  using scheduler_pass_runs [OF assms, of "[0..<NPROC]"] unfolding scheduler_def by (auto simp: subset_iff)

theorem scheduler_runs_every_runnable_witness:
  "\<exists>ran t. scheduler (\<lambda>p. modp p (p_state_update (\<lambda>_. RUNNABLE))) (bss\<lparr>procs := \<lambda>_. no_proc\<lparr>p_state := RUNNABLE\<rparr>\<rparr>) = Done ran t
     \<and> 3 \<in> set ran \<and> 63 \<in> set ran"
proof -
  have "fair_turn (\<lambda>p. modp p (p_state_update (\<lambda>_. RUNNABLE)) :: (virtio, unit) K)"
    by (auto simp: fair_turn_def kernel_simps)
  from scheduler_runs_every_runnable [OF this, of "bss\<lparr>procs := \<lambda>_. no_proc\<lparr>p_state := RUNNABLE\<rparr>\<rparr>"]
  show ?thesis by (auto simp: bss_def NPROC_def)
qed

end
