(* ===== verification/Asm.thy ===== *)
theory Asm
  imports Demo
begin

text \<open>
  The assembly files kernel/trampoline.S, kernel/kernelvec.S, kernel/swtch.S, kernel/entry.S and
  user/initcode.S, and the stubs that user/usys.pl generates: each routine is its sequence of
  instructions, run by \<open>run\<close> on the registers and the memory of a hart. Two arguments of \<open>run\<close> stand
  for what is outside these files: \<open>tr\<close> is the address translation of the hart, from the value of
  satp and a virtual address to a physical one, and \<open>callee\<close> is the effect of a routine that is called, or
  of the kernel when an \<^verbatim>\<open>ecall\<close> is executed. The program counter is kept only where control
  leaves a routine.
\<close>

section \<open>Registers and instructions\<close>

datatype reg =
  RA | SP | GP | TP | T0 | T1 | T2 | T3 | T4 | T5 | T6 |
  S0 | S1 | S2 | S3 | S4 | S5 | S6 | S7 | S8 | S9 | S10 | S11 |
  A0 | A1 | A2 | A3 | A4 | A5 | A6 | A7

datatype csr = SSCRATCH | SATP | SEPC | SIP | MSCRATCH | MEPC | MHARTID

datatype instr =
  SD reg u64 reg | LD reg u64 reg | LI reg u64 | ADDI reg reg u64 | ADD reg reg reg | MUL reg reg reg
| CSRRW reg csr reg | CSRR reg csr | CSRW csr reg | SFENCE | CALL string | ECALL | JR reg | SRET | MRET

record rv =
  gpr :: "reg \<Rightarrow> u64"
  csrs :: "csr \<Rightarrow> u64"
  ram :: bytes
  pc_out :: u64

definition va_of :: "(u64 \<Rightarrow> u64 \<Rightarrow> nat) \<Rightarrow> rv \<Rightarrow> reg \<Rightarrow> u64 \<Rightarrow> nat" where
  "va_of tr s b k = tr (csrs s SATP) (gpr s b + k)"

fun exec_ins :: "(u64 \<Rightarrow> u64 \<Rightarrow> nat) \<Rightarrow> (string \<Rightarrow> rv \<Rightarrow> rv) \<Rightarrow> instr \<Rightarrow> rv \<Rightarrow> rv" where
  "exec_ins tr callee (SD r k b) s = s\<lparr>ram := st64 (ram s) (va_of tr s b k) (gpr s r)\<rparr>"
| "exec_ins tr callee (LD r k b) s = s\<lparr>gpr := (gpr s)(r := ld64 (ram s) (va_of tr s b k))\<rparr>"
| "exec_ins tr callee (LI r v) s = s\<lparr>gpr := (gpr s)(r := v)\<rparr>"
| "exec_ins tr callee (ADDI r a v) s = s\<lparr>gpr := (gpr s)(r := gpr s a + v)\<rparr>"
| "exec_ins tr callee (ADD r a b) s = s\<lparr>gpr := (gpr s)(r := gpr s a + gpr s b)\<rparr>"
| "exec_ins tr callee (MUL r a b) s = s\<lparr>gpr := (gpr s)(r := gpr s a * gpr s b)\<rparr>"
| "exec_ins tr callee (CSRRW r c a) s = s\<lparr>gpr := (gpr s)(r := csrs s c), csrs := (csrs s)(c := gpr s a)\<rparr>"
| "exec_ins tr callee (CSRR r c) s = s\<lparr>gpr := (gpr s)(r := csrs s c)\<rparr>"
| "exec_ins tr callee (CSRW c a) s = s\<lparr>csrs := (csrs s)(c := gpr s a)\<rparr>"
| "exec_ins tr callee SFENCE s = s"
| "exec_ins tr callee (CALL f) s = callee f s"
| "exec_ins tr callee ECALL s = callee ''ecall'' s"
| "exec_ins tr callee (JR r) s = s\<lparr>pc_out := gpr s r\<rparr>"
| "exec_ins tr callee SRET s = s\<lparr>pc_out := csrs s SEPC\<rparr>"
| "exec_ins tr callee MRET s = s\<lparr>pc_out := csrs s MEPC\<rparr>"

definition run :: "(u64 \<Rightarrow> u64 \<Rightarrow> nat) \<Rightarrow> (string \<Rightarrow> rv \<Rightarrow> rv) \<Rightarrow> instr list \<Rightarrow> rv \<Rightarrow> rv" where
  "run tr callee = fold (exec_ins tr callee)"

section \<open>trampoline.S\<close>

definition uservec :: "instr list" where
  "uservec = [
     CSRRW A0 SSCRATCH A0,
     SD RA 40 A0, SD SP 48 A0, SD GP 56 A0, SD TP 64 A0, SD T0 72 A0,
     SD T1 80 A0, SD T2 88 A0, SD S0 96 A0, SD S1 104 A0, SD A1 120 A0, SD A2 128 A0, SD A3 136 A0,
     SD A4 144 A0, SD A5 152 A0, SD A6 160 A0, SD A7 168 A0, SD S2 176 A0, SD S3 184 A0,
     SD S4 192 A0, SD S5 200 A0, SD S6 208 A0, SD S7 216 A0, SD S8 224 A0, SD S9 232 A0,
     SD S10 240 A0, SD S11 248 A0, SD T3 256 A0, SD T4 264 A0, SD T5 272 A0, SD T6 280 A0,
     CSRR T0 SSCRATCH, SD T0 112 A0,
     LD SP 8 A0, LD TP 32 A0, LD T0 16 A0, LD T1 0 A0,
     CSRW SATP T1, SFENCE, JR T0]"

definition userret :: "instr list" where
  "userret = [
     CSRW SATP A1, SFENCE,
     LD T0 112 A0, CSRW SSCRATCH T0,
     LD RA 40 A0, LD SP 48 A0, LD GP 56 A0, LD TP 64 A0, LD T0 72 A0, LD T1 80 A0, LD T2 88 A0, LD S0 96 A0,
     LD S1 104 A0, LD A1 120 A0, LD A2 128 A0, LD A3 136 A0, LD A4 144 A0, LD A5 152 A0,
     LD A6 160 A0, LD A7 168 A0, LD S2 176 A0, LD S3 184 A0, LD S4 192 A0, LD S5 200 A0,
     LD S6 208 A0, LD S7 216 A0, LD S8 224 A0, LD S9 232 A0, LD S10 240 A0, LD S11 248 A0,
     LD T3 256 A0, LD T4 264 A0, LD T5 272 A0, LD T6 280 A0,
     CSRRW A0 SSCRATCH A0, SRET]"

section \<open>kernelvec.S\<close>

definition kernelvec_save :: "instr list" where
  "kernelvec_save = [
     ADDI SP SP (- 256),
     SD RA 0 SP, SD SP 8 SP, SD GP 16 SP, SD TP 24 SP, SD T0 32 SP, SD T1 40 SP,
     SD T2 48 SP, SD S0 56 SP, SD S1 64 SP, SD A0 72 SP, SD A1 80 SP, SD A2 88 SP, SD A3 96 SP,
     SD A4 104 SP, SD A5 112 SP, SD A6 120 SP, SD A7 128 SP, SD S2 136 SP, SD S3 144 SP,
     SD S4 152 SP, SD S5 160 SP, SD S6 168 SP, SD S7 176 SP, SD S8 184 SP, SD S9 192 SP,
     SD S10 200 SP, SD S11 208 SP, SD T3 216 SP, SD T4 224 SP, SD T5 232 SP, SD T6 240 SP]"

definition kernelvec_restore :: "instr list" where
  "kernelvec_restore = [
     LD RA 0 SP, LD SP 8 SP, LD GP 16 SP, LD T0 32 SP, LD T1 40 SP, LD T2 48 SP,
     LD S0 56 SP, LD S1 64 SP, LD A0 72 SP, LD A1 80 SP, LD A2 88 SP, LD A3 96 SP, LD A4 104 SP,
     LD A5 112 SP, LD A6 120 SP, LD A7 128 SP, LD S2 136 SP, LD S3 144 SP, LD S4 152 SP,
     LD S5 160 SP, LD S6 168 SP, LD S7 176 SP, LD S8 184 SP, LD S9 192 SP, LD S10 200 SP,
     LD S11 208 SP, LD T3 216 SP, LD T4 224 SP, LD T5 232 SP, LD T6 240 SP,
     ADDI SP SP 256, SRET]"

definition kernelvec :: "instr list" where
  "kernelvec = kernelvec_save @ [CALL ''kerneltrap''] @ kernelvec_restore"

definition timervec :: "instr list" where
  "timervec = [
     CSRRW A0 MSCRATCH A0,
     SD A1 0 A0, SD A2 8 A0, SD A3 16 A0,
     LD A1 24 A0, LD A2 32 A0, LD A3 0 A1, ADD A3 A3 A2, SD A3 0 A1,
     LI A1 2, CSRW SIP A1,
     LD A3 16 A0, LD A2 8 A0, LD A1 0 A0,
     CSRRW A0 MSCRATCH A0, MRET]"

section \<open>swtch.S, entry.S, initcode.S and the stubs of usys.pl\<close>

definition swtch_save :: "instr list" where
  "swtch_save = [
     SD RA 0 A0, SD SP 8 A0, SD S0 16 A0, SD S1 24 A0, SD S2 32 A0, SD S3 40 A0, SD S4 48 A0,
     SD S5 56 A0, SD S6 64 A0, SD S7 72 A0, SD S8 80 A0, SD S9 88 A0, SD S10 96 A0, SD S11 104 A0]"

definition swtch_load :: "instr list" where
  "swtch_load = [
     LD RA 0 A1, LD SP 8 A1, LD S0 16 A1, LD S1 24 A1, LD S2 32 A1, LD S3 40 A1, LD S4 48 A1,
     LD S5 56 A1, LD S6 64 A1, LD S7 72 A1, LD S8 80 A1, LD S9 88 A1, LD S10 96 A1, LD S11 104 A1]"

definition swtch_code :: "instr list" where
  "swtch_code = swtch_save @ swtch_load @ [JR RA]"

definition entry_code :: "u64 \<Rightarrow> instr list" where
  "entry_code stack0 = [
     LI SP stack0, LI A0 (1024 * 4), CSRR A1 MHARTID, ADDI A1 A1 1, MUL A0 A0 A1, ADD SP SP A0, CALL ''start'']"

text \<open>In initcode.S the loop at \<^verbatim>\<open>exit\<close> is run when \<^verbatim>\<open>exec\<close> returns; \<^verbatim>\<open>exit\<close> does not.\<close>

definition initcode_start :: "u64 \<Rightarrow> u64 \<Rightarrow> instr list" where
  "initcode_start init argv = [LI A0 init, LI A1 argv, LI A7 7, ECALL]"

definition initcode_exit :: "instr list" where
  "initcode_exit = [LI A7 2, ECALL]"

definition usys_entry :: "u64 \<Rightarrow> instr list" where
  "usys_entry num = [LI A7 num, ECALL, JR RA]"

definition usys_entries :: "(string \<times> u64) list" where
  "usys_entries = [
     (''fork'', 1), (''exit'', 2), (''wait'', 3), (''pipe'', 4), (''read'', 5), (''write'', 16), (''close'', 21),
     (''kill'', 6), (''exec'', 7), (''open'', 15), (''mknod'', 17), (''unlink'', 18), (''fstat'', 8), (''link'', 19),
     (''mkdir'', 20), (''chdir'', 9), (''dup'', 10), (''getpid'', 11), (''sbrk'', 12), (''sleep'', 13),
     (''uptime'', 14), (''wait2'', 22)]"

section \<open>Sequences of stores and loads\<close>

definition stores :: "reg \<Rightarrow> (reg \<times> u64) list \<Rightarrow> instr list" where
  "stores b = map (\<lambda>(r, k). SD r k b)"

definition loads :: "reg \<Rightarrow> (reg \<times> u64) list \<Rightarrow> instr list" where
  "loads b = map (\<lambda>(r, k). LD r k b)"

lemma run_simps [simp]: "run tr c [] s = s" "run tr c (i # is) s = run tr c is (exec_ins tr c i s)"
  "run tr c (xs @ ys) s = run tr c ys (run tr c xs s)"
  by (simp_all add: run_def)

text \<open>An area of memory at virtual address \<open>v\<close> and physical address \<open>a\<close>, of \<open>n\<close> bytes.\<close>

definition area :: "(u64 \<Rightarrow> u64 \<Rightarrow> nat) \<Rightarrow> u64 \<Rightarrow> u64 \<Rightarrow> nat \<Rightarrow> nat \<Rightarrow> bool" where
  "area tr satp v a n \<longleftrightarrow> (\<forall>k. unat k < n \<longrightarrow> tr satp (v + k) = a + unat k)"

lemma areaD: "area tr satp v a n \<Longrightarrow> unat k < n \<Longrightarrow> tr satp (v + k) = a + unat k"
  by (simp add: area_def)

text \<open>A table of registers at offsets: every offset is a multiple of 8 inside the area, no two are equal.\<close>

definition tab :: "nat \<Rightarrow> (reg \<times> u64) list \<Rightarrow> bool" where
  "tab n t \<longleftrightarrow> distinct (map fst t) \<and> distinct (map (unat \<circ> snd) t) \<and> (\<forall>(r, k) \<in> set t. unat k < n \<and> 8 dvd unat k)"

lemma run_stores:
  assumes "area tr (csrs s SATP) (gpr s b) a n" "tab n t"
  shows "run tr c (stores b t) s = s\<lparr>ram := fold (\<lambda>(r, k) m. st64 m (a + unat k) (gpr s r)) t (ram s)\<rparr>"
  using assms
proof (induction t arbitrary: s)
  case (Cons x t)
  obtain r k where x: "x = (r, k)" by (cases x)
  have k: "unat k < n" and t: "tab n t" using Cons.prems(2) x by (auto simp: tab_def)
  have "va_of tr s b k = a + unat k" using areaD [OF Cons.prems(1) k] by (simp add: va_of_def)
  then show ?case using Cons.IH [of "s\<lparr>ram := st64 (ram s) (a + unat k) (gpr s r)\<rparr>"] Cons.prems(1) t x
    by (simp add: stores_def)
qed (simp add: stores_def)

lemma dvd8_apart: "8 dvd x \<Longrightarrow> 8 dvd y \<Longrightarrow> x \<noteq> y \<Longrightarrow> x + 8 \<le> y \<or> y + 8 \<le> (x::nat)"
  by (elim dvdE) auto

lemma fold_stores_other:
  "tab n t \<Longrightarrow> (\<forall>(r, k) \<in> set t. z + 8 \<le> a + unat k \<or> a + unat k + 8 \<le> z) \<Longrightarrow>
    ld64 (fold (\<lambda>(r, k) m. st64 m (a + unat k) (g r)) t m) z = ld64 m z"
proof (induction t arbitrary: m)
  case (Cons x t)
  then show ?case by (cases x) (auto simp: tab_def ld64_st64_other)
qed simp

lemma fold_stores_same:
  "tab n t \<Longrightarrow> (r, k) \<in> set t \<Longrightarrow> ld64 (fold (\<lambda>(r, k) m. st64 m (a + unat k) (g r)) t m) (a + unat k) = g r"
proof (induction t arbitrary: m)
  case (Cons x t)
  obtain r' k' where x: "x = (r', k')" by (cases x)
  have t: "tab n t" using Cons.prems(1) by (auto simp: tab_def)
  show ?case
  proof (cases "(r, k) = (r', k')")
    case True
    have "a + unat k + 8 \<le> a + unat k2 \<or> a + unat k2 + 8 \<le> a + unat k" if q: "(r2, k2) \<in> set t" for r2 k2
    proof -
      have "unat k \<noteq> unat k2" using Cons.prems(1) True x image_eqI [OF _ q, of "unat k" "\<lambda>x. unat (snd x)"]
        by (auto simp: tab_def)
      moreover have "8 dvd unat k" "8 dvd unat k2" using Cons.prems(1) q True x by (auto simp: tab_def)
      ultimately show ?thesis using dvd8_apart [of "unat k" "unat k2"] by linarith
    qed
    then have "\<forall>(r2, k2) \<in> set t. a + unat k + 8 \<le> a + unat k2 \<or> a + unat k2 + 8 \<le> a + unat k" by blast
    from fold_stores_other [OF t this] show ?thesis using True x by simp
  next
    case False
    then show ?thesis using Cons.IH [OF t] Cons.prems(2) x by auto
  qed
qed simp

lemma run_loads:
  assumes "area tr (csrs s SATP) (gpr s b) a n" "tab n t" "b \<notin> fst ` set t"
  shows "run tr c (loads b t) s =
    s\<lparr>gpr := \<lambda>r. case map_of t r of Some k \<Rightarrow> ld64 (ram s) (a + unat k) | None \<Rightarrow> gpr s r\<rparr>"
  using assms
proof (induction t arbitrary: s)
  case (Cons x t)
  obtain r k where x: "x = (r, k)" by (cases x)
  have k: "unat k < n" and t: "tab n t" "r \<notin> fst ` set t" using Cons.prems(2) x by (auto simp: tab_def)
  have v: "va_of tr s b k = a + unat k" using areaD [OF Cons.prems(1) k] by (simp add: va_of_def)
  have "map_of t r = None" using t(2) by (simp add: map_of_eq_None_iff)
  then show ?case using Cons.IH [of "s\<lparr>gpr := (gpr s)(r := ld64 (ram s) (a + unat k))\<rparr>"] Cons.prems(1,3) t(1) x v
    by (auto simp: loads_def fun_eq_iff split: option.splits)
qed (simp add: loads_def)

section \<open>Entering and leaving the kernel\<close>

text \<open>Where the trapframe keeps the registers of the user, \<open>a0\<close> apart.\<close>

definition tf_tab :: "(reg \<times> u64) list" where
  "tf_tab = [(RA, 40), (SP, 48), (GP, 56), (TP, 64), (T0, 72), (T1, 80), (T2, 88), (S0, 96), (S1, 104),
     (A1, 120), (A2, 128), (A3, 136), (A4, 144), (A5, 152), (A6, 160), (A7, 168), (S2, 176), (S3, 184), (S4, 192),
     (S5, 200), (S6, 208), (S7, 216), (S8, 224), (S9, 232), (S10, 240), (S11, 248), (T3, 256), (T4, 264),
     (T5, 272), (T6, 280)]"

text \<open>The user register \<open>r\<close> in the trapframe at \<open>a\<close>.\<close>

definition tf_reg :: "bytes \<Rightarrow> nat \<Rightarrow> reg \<Rightarrow> u64" where
  "tf_reg m a r = ld64 m (a + (case map_of tf_tab r of Some k \<Rightarrow> unat k | None \<Rightarrow> 112))"

lemma tf_tab_tab: "tab 288 tf_tab" by (simp add: tab_def tf_tab_def)

lemma uservec_split: "uservec = CSRRW A0 SSCRATCH A0 # stores A0 tf_tab @ [CSRR T0 SSCRATCH, SD T0 112 A0] @
    loads A0 [(SP, 8), (TP, 32), (T0, 16), (T1, 0)] @ [CSRW SATP T1, SFENCE, JR T0]"
  by (simp add: uservec_def stores_def loads_def tf_tab_def)

lemma userret_split: "userret = [CSRW SATP A1, SFENCE, LD T0 112 A0, CSRW SSCRATCH T0] @ loads A0 tf_tab @ [CSRRW A0 SSCRATCH A0, SRET]"
  by (simp add: userret_def loads_def tf_tab_def)

lemma tf_tab_dom: "(\<exists>k. map_of tf_tab r = Some k) \<longleftrightarrow> r \<noteq> A0"
  by (cases r) (simp_all add: tf_tab_def)

lemma uservec_run:
  assumes ar: "area tr (csrs u SATP) (csrs u SSCRATCH) a 288"
  shows "\<exists>m g. run tr c uservec u = \<lparr>gpr = g, csrs = (csrs u)(SATP := ld64 (ram u) a, SSCRATCH := gpr u A0), ram = m,
        pc_out = ld64 (ram u) (a + 16), \<dots> = ()\<rparr>
    \<and> tf_reg m a = gpr u
    \<and> g SP = ld64 (ram u) (a + 8) \<and> g TP = ld64 (ram u) (a + 32)
    \<and> (\<forall>k < 40. 8 dvd k \<longrightarrow> ld64 m (a + k) = ld64 (ram u) (a + k))"
proof -
  define u1 where "u1 = u\<lparr>gpr := (gpr u)(A0 := csrs u SSCRATCH), csrs := (csrs u)(SSCRATCH := gpr u A0)\<rparr>"
  let ?F = "fold (\<lambda>(r, k) m. st64 m (a + unat k) (gpr u1 r)) tf_tab (ram u1)"
  let ?m = "st64 ?F (a + 112) (gpr u A0)"
  define v where "v = u1\<lparr>gpr := (gpr u1)(T0 := gpr u A0), ram := ?m\<rparr>"
  let ?t = "[(SP, 8), (TP, 32), (T0, 16), (T1, 0)] :: (reg \<times> u64) list"
  define w where "w = v\<lparr>gpr := \<lambda>r. case map_of ?t r of Some k \<Rightarrow> ld64 (ram v) (a + unat k) | None \<Rightarrow> gpr v r\<rparr>"
  have ar1: "area tr (csrs u1 SATP) (gpr u1 A0) a 288" "area tr (csrs v SATP) (gpr v A0) a 288"
    using ar by (simp_all add: u1_def v_def)
  have "run tr c (stores A0 tf_tab) u1 = u1\<lparr>ram := ?F\<rparr>" by (rule run_stores [OF ar1(1) tf_tab_tab])
  moreover have "run tr c [CSRR T0 SSCRATCH, SD T0 112 A0] (u1\<lparr>ram := ?F\<rparr>) = v"
    using areaD [OF ar, of 112] by (simp add: va_of_def v_def u1_def)
  moreover have "run tr c (loads A0 ?t) v = w" unfolding w_def by (rule run_loads [OF ar1(2)]) (simp_all add: tab_def)
  ultimately have "run tr c uservec u = run tr c [CSRW SATP T1, SFENCE, JR T0] w"
    unfolding uservec_split by (simp only: run_simps(2,3) exec_ins.simps(7) u1_def [symmetric])
  then have run: "run tr c uservec u = w\<lparr>csrs := (csrs w)(SATP := gpr w T1), pc_out := gpr w T0\<rparr>" by simp
  have m: "ram u1 = ram u" "ram w = ?m" "csrs w = (csrs u)(SSCRATCH := gpr u A0)" by (simp_all add: u1_def v_def w_def)
  have low: "ld64 ?m (a + k) = ld64 (ram u) (a + k)" if "k < 40" "8 dvd k" for k
  proof -
    have "k + 8 \<le> 40" using that by (elim dvdE) auto
    then have "ld64 ?F (a + k) = ld64 (ram u) (a + k)" unfolding m(1)
      by (intro fold_stores_other [OF tf_tab_tab]) (auto simp: tf_tab_def)
    with that \<open>k + 8 \<le> 40\<close> show ?thesis by (simp add: ld64_st64_other)
  qed
  have "tf_reg ?m a r = gpr u r" for r
  proof (cases "r = A0")
    case True
    then show ?thesis by (simp add: tf_reg_def tf_tab_def)
  next
    case False
    then obtain k where k: "map_of tf_tab r = Some k" using tf_tab_dom by blast
    then have in_t: "(r, k) \<in> set tf_tab" by (rule map_of_SomeD)
    then have "ld64 ?F (a + unat k) = gpr u r" using fold_stores_same [OF tf_tab_tab in_t, of a "gpr u1"] False
      by (simp add: u1_def)
    moreover have "a + 112 + 8 \<le> a + unat k \<or> a + unat k + 8 \<le> a + 112" using in_t by (auto simp: tf_tab_def)
    ultimately show ?thesis using k by (simp add: tf_reg_def ld64_st64_other disj_commute)
  qed
  then have tf: "tf_reg ?m a = gpr u" by blast
  have g: "gpr w SP = ld64 (ram u) (a + 8)" "gpr w TP = ld64 (ram u) (a + 32)" "gpr w T0 = ld64 (ram u) (a + 16)"
    "gpr w T1 = ld64 (ram u) a"
    using low [of 8] low [of 32] low [of 16] low [of 0] by (simp_all add: w_def v_def)
  have "run tr c uservec u = \<lparr>gpr = gpr w, csrs = (csrs u)(SATP := ld64 (ram u) a, SSCRATCH := gpr u A0), ram = ?m,
      pc_out = ld64 (ram u) (a + 16), \<dots> = ()\<rparr>"
    unfolding run by (rule rv.equality) (simp_all add: m g fun_upd_twist)
  with tf low g show ?thesis by blast
qed

lemma userret_run:
  assumes ar: "area tr (gpr v A1) (gpr v A0) a 288"
  shows "run tr c userret v = \<lparr>gpr = tf_reg (ram v) a, csrs = (csrs v)(SATP := gpr v A1, SSCRATCH := gpr v A0), ram = ram v,
      pc_out = csrs v SEPC, \<dots> = ()\<rparr>"
proof -
  let ?v = "v\<lparr>gpr := (gpr v)(T0 := ld64 (ram v) (a + 112)), csrs := (csrs v)(SATP := gpr v A1, SSCRATCH := ld64 (ram v) (a + 112))\<rparr>"
  let ?g = "\<lambda>r. case map_of tf_tab r of Some k \<Rightarrow> ld64 (ram ?v) (a + unat k) | None \<Rightarrow> gpr ?v r"
  have a: "run tr c [CSRW SATP A1, SFENCE, LD T0 112 A0, CSRW SSCRATCH T0] v = ?v"
    using areaD [OF ar, of 112] by (simp add: va_of_def)
  have b: "run tr c (loads A0 tf_tab) ?v = ?v\<lparr>gpr := ?g\<rparr>"
    by (rule run_loads [of tr ?v A0 a 288 tf_tab c]) (use ar tf_tab_tab in \<open>simp_all add: tf_tab_def\<close>)
  have "((?g)(A0 := ld64 (ram v) (a + 112))) r = tf_reg (ram v) a r" for r
    using tf_tab_dom [of r] by (cases "map_of tf_tab r") (auto simp: tf_reg_def)
  then have "(?g)(A0 := ld64 (ram v) (a + 112)) = tf_reg (ram v) a" by blast
  moreover have "?g A0 = gpr v A0" using tf_tab_dom [of A0] by (simp split: option.splits)
  ultimately show ?thesis unfolding userret_split run_simps(3) a b by (cases v) (simp add: fun_upd_twist)
qed

text \<open>What \<open>usertrapret\<close> leaves for \<open>userret\<close> and for the next entry.\<close>

lemma unat_plus_off: "unat (tf::u64) + n \<le> 2 ^ 64 \<Longrightarrow> unat k < n \<Longrightarrow> unat (tf + k) = unat tf + unat k"
  by (simp add: unat_word_ariths(1))

lemma usertrapret_app:
  assumes c: "curproc s = Some p" and tf: "tf = p_trapframe (procs s p)" "unat tf + 288 \<le> 2 ^ 64"
  shows "\<exists>t. usertrapret s = Done (TRAPFRAME, MAKE_SATP (p_pagetable (procs s p))) t
    \<and> r_sepc t = ld64 (mem s) (unat tf + 24)
    \<and> ld64 (mem t) (unat tf) = r_satp s \<and> ld64 (mem t) (unat tf + 8) = p_kstack (procs s p) + PGSIZE
    \<and> ld64 (mem t) (unat tf + 16) = sym_usertrap s \<and> ld64 (mem t) (unat tf + 32) = r_tp s
    \<and> (\<forall>r. tf_reg (mem t) (unat tf) r = tf_reg (mem s) (unat tf) r)"
proof -
  let ?m = "st64 (st64 (st64 (st64 (mem s) (unat tf) (r_satp s)) (unat tf + 8) (p_kstack (procs s p) + PGSIZE))
      (unat tf + 16) (sym_usertrap s)) (unat tf + 32) (r_tp s)"
  have a: "unat (tf + 8) = unat tf + 8" "unat (tf + 16) = unat tf + 16" "unat (tf + 24) = unat tf + 24"
    "unat (tf + 32) = unat tf + 32"
    using unat_plus_off [OF tf(2), of 8] unat_plus_off [OF tf(2), of 16] unat_plus_off [OF tf(2), of 24]
      unat_plus_off [OF tf(2), of 32] by simp_all
  have "ld64 ?m (unat tf + k) = ld64 (mem s) (unat tf + k)" if "40 \<le> k" for k
    using that by (simp add: ld64_st64_other)
  then have "tf_reg ?m (unat tf) r = tf_reg (mem s) (unat tf) r" for r
    by (cases r) (simp_all add: tf_reg_def tf_tab_def)
  with c tf(1) show ?thesis
    by (simp add: usertrapret_def kernel_simps tf_set_def tf_get_def ldk_def stk_def sintr_off_def a ld64_st64_other
        flip: tf(1))
qed

section \<open>Interrupts in the kernel, the switch and the timer\<close>

definition kv_tab :: "(reg \<times> u64) list" where
  "kv_tab = [(GP, 16), (T0, 32), (T1, 40), (T2, 48), (S0, 56), (S1, 64), (A0, 72), (A1, 80), (A2, 88), (A3, 96),
     (A4, 104), (A5, 112), (A6, 120), (A7, 128), (S2, 136), (S3, 144), (S4, 152), (S5, 160), (S6, 168), (S7, 176),
     (S8, 184), (S9, 192), (S10, 200), (S11, 208), (T3, 216), (T4, 224), (T5, 232), (T6, 240)]"

definition kv_all :: "(reg \<times> u64) list" where
  "kv_all = (RA, 0) # (SP, 8) # (GP, 16) # (TP, 24) # tl kv_tab"

lemma kv_tabs: "tab 256 kv_tab" "tab 256 kv_all" "tab 256 [(RA, 0)]"
  by (simp_all add: tab_def kv_tab_def kv_all_def)

lemma kernelvec_split: "kernelvec_save = ADDI SP SP (- 256) # stores SP kv_all"
  "kernelvec_restore = loads SP [(RA, 0)] @ [LD SP 8 SP] @ loads SP kv_tab @ [ADDI SP SP 256, SRET]"
  by (simp_all add: kernelvec_save_def kernelvec_restore_def stores_def loads_def kv_tab_def kv_all_def)

lemma kv_tab_dom: "map_of kv_tab r = None \<longleftrightarrow> r \<in> {RA, SP, TP}" "map_of kv_tab r = Some k \<Longrightarrow> (r, k) \<in> set kv_all"
  by (cases r; simp add: kv_tab_def kv_all_def)+

lemma kernelvec_save_run:
  assumes "area tr (csrs s SATP) (gpr s SP - 256) a 256"
  shows "\<exists>m. run tr c kernelvec_save s = s\<lparr>gpr := (gpr s)(SP := gpr s SP - 256), ram := m\<rparr>
    \<and> (\<forall>(r, k) \<in> set kv_all. ld64 m (a + unat k) = ((gpr s)(SP := gpr s SP - 256)) r)"
proof -
  let ?s = "s\<lparr>gpr := (gpr s)(SP := gpr s SP - 256)\<rparr>"
  let ?m = "fold (\<lambda>(r, k) m. st64 m (a + unat k) (gpr ?s r)) kv_all (ram ?s)"
  have ar: "area tr (csrs ?s SATP) (gpr ?s SP) a 256" using assms by simp
  have "run tr c kernelvec_save s = run tr c (stores SP kv_all) ?s" by (simp add: kernelvec_split)
  also have "\<dots> = ?s\<lparr>ram := ?m\<rparr>" by (rule run_stores [OF ar kv_tabs(2)])
  finally have "run tr c kernelvec_save s = s\<lparr>gpr := (gpr s)(SP := gpr s SP - 256), ram := ?m\<rparr>" by simp
  moreover have "\<forall>(r, k) \<in> set kv_all. ld64 ?m (a + unat k) = gpr ?s r" using fold_stores_same [OF kv_tabs(2)] by blast
  ultimately show ?thesis by auto
qed

lemma kernelvec_restore_run:
  assumes ar: "area tr (csrs v SATP) (gpr v SP) a 256"
    and m: "\<forall>(r, k) \<in> set kv_all. ld64 (ram v) (a + unat k) = g r" "g SP = gpr v SP"
  shows "run tr c kernelvec_restore v = v\<lparr>gpr := g(TP := gpr v TP, SP := gpr v SP + 256), pc_out := csrs v SEPC\<rparr>"
proof -
  define v1 where "v1 = v\<lparr>gpr := (gpr v)(RA := g RA)\<rparr>"
  have "run tr c (loads SP [(RA, 0)]) v = v1"
    using run_loads [OF ar kv_tabs(3), of c] m(1) by (simp add: v1_def fun_eq_iff fun_upd_def kv_all_def)
  moreover have "run tr c [LD SP 8 SP] v1 = v1"
    using areaD [OF ar, of 8] m by (simp add: va_of_def v1_def kv_all_def fun_upd_def fun_eq_iff)
  moreover have ar1: "area tr (csrs v1 SATP) (gpr v1 SP) a 256" using ar by (simp add: v1_def)
  have "(case map_of kv_tab r of Some k \<Rightarrow> ld64 (ram v1) (a + unat k) | None \<Rightarrow> gpr v1 r) = (g(TP := gpr v TP)) r" for r
    using kv_tab_dom [of r] m by (cases "map_of kv_tab r") (auto simp: v1_def)
  then have e: "(\<lambda>r. case map_of kv_tab r of Some k \<Rightarrow> ld64 (ram v1) (a + unat k) | None \<Rightarrow> gpr v1 r) = g(TP := gpr v TP)"
    by (rule ext)
  have "run tr c (loads SP kv_tab) v1 = v1\<lparr>gpr := g(TP := gpr v TP)\<rparr>"
    unfolding e [symmetric] by (rule run_loads [OF ar1 kv_tabs(1)]) (simp add: kv_tab_def)
  ultimately have "run tr c kernelvec_restore v = run tr c [ADDI SP SP 256, SRET] (v1\<lparr>gpr := g(TP := gpr v TP)\<rparr>)"
    unfolding kernelvec_split run_simps(3) by simp
  then show ?thesis using m(2) by (simp add: v1_def)
qed

text \<open>What the calling convention promises of \<open>kerneltrap\<close>: the stack pointer and the frame of its caller are as
  they were, and the hart runs on the same page table.\<close>

definition c_call :: "(u64 \<Rightarrow> u64 \<Rightarrow> nat) \<Rightarrow> (rv \<Rightarrow> rv) \<Rightarrow> nat \<Rightarrow> rv \<Rightarrow> bool" where
  "c_call tr f n s \<longleftrightarrow> gpr (f s) SP = gpr s SP \<and> csrs (f s) SATP = csrs s SATP
    \<and> (\<forall>k. unat k < n \<longrightarrow> ram (f s) (tr (csrs s SATP) (gpr s SP + k)) = ram s (tr (csrs s SATP) (gpr s SP + k)))"

definition sw_tab :: "(reg \<times> u64) list" where
  "sw_tab = [(RA, 0), (SP, 8), (S0, 16), (S1, 24), (S2, 32), (S3, 40), (S4, 48), (S5, 56), (S6, 64), (S7, 72), (S8, 80),
     (S9, 88), (S10, 96), (S11, 104)]"

lemma sw_tab_tab: "tab 112 sw_tab" by (simp add: tab_def sw_tab_def)

lemma swtch_split: "swtch_save = stores A0 sw_tab" "swtch_load = loads A1 sw_tab"
  by (simp_all add: swtch_save_def swtch_load_def stores_def loads_def sw_tab_def)

lemma swtch_run:
  assumes ar: "area tr (csrs s SATP) (gpr s A0) a 112" "area tr (csrs s SATP) (gpr s A1) b 112" and d: "a + 112 \<le> b \<or> b + 112 \<le> a"
  shows "\<exists>m. run tr c swtch_code s = s\<lparr>gpr := \<lambda>r. case map_of sw_tab r of Some k \<Rightarrow> ld64 (ram s) (b + unat k) | None \<Rightarrow> gpr s r,
      ram := m, pc_out := ld64 (ram s) b\<rparr> \<and> (\<forall>(r, k) \<in> set sw_tab. ld64 m (a + unat k) = gpr s r)"
proof -
  let ?m = "fold (\<lambda>(r, k) m. st64 m (a + unat k) (gpr s r)) sw_tab (ram s)"
  have st: "run tr c swtch_save s = s\<lparr>ram := ?m\<rparr>" unfolding swtch_split by (rule run_stores [OF ar(1) sw_tab_tab])
  have o: "ld64 ?m (b + unat k) = ld64 (ram s) (b + unat k)" if "unat k + 8 \<le> 112" for k :: u64
    using that d by (intro fold_stores_other [OF sw_tab_tab]) (auto simp: sw_tab_def)
  have k: "unat k + 8 \<le> 112" if "map_of sw_tab r = Some k" for r k
    using map_of_SomeD [OF that] by (auto simp: sw_tab_def)
  let ?g = "\<lambda>r. case map_of sw_tab r of Some k \<Rightarrow> ld64 (ram s) (b + unat k) | None \<Rightarrow> gpr s r"
  have "run tr c swtch_load (s\<lparr>ram := ?m\<rparr>) = s\<lparr>ram := ?m\<rparr>\<lparr>gpr := \<lambda>r. case map_of sw_tab r of
      Some k \<Rightarrow> ld64 (ram (s\<lparr>ram := ?m\<rparr>)) (b + unat k) | None \<Rightarrow> gpr (s\<lparr>ram := ?m\<rparr>) r\<rparr>"
    unfolding swtch_split by (rule run_loads [OF _ sw_tab_tab]) (use ar(2) in \<open>simp_all add: sw_tab_def\<close>)
  also have "(\<lambda>r. case map_of sw_tab r of Some k \<Rightarrow> ld64 (ram (s\<lparr>ram := ?m\<rparr>)) (b + unat k) | None \<Rightarrow> gpr (s\<lparr>ram := ?m\<rparr>) r) = ?g"
    by (rule ext) (simp add: o k split: option.splits)
  finally have ld: "run tr c swtch_load (s\<lparr>ram := ?m\<rparr>) = s\<lparr>ram := ?m, gpr := ?g\<rparr>" .
  have "?g RA = ld64 (ram s) b" by (simp add: sw_tab_def)
  then have "run tr c swtch_code s = s\<lparr>gpr := ?g, ram := ?m, pc_out := ld64 (ram s) b\<rparr>"
    unfolding swtch_code_def run_simps(3) st ld by simp
  moreover have "\<forall>(r, k) \<in> set sw_tab. ld64 ?m (a + unat k) = gpr s r" using fold_stores_same [OF sw_tab_tab] by blast
  ultimately show ?thesis by blast
qed

text \<open>The timer interrupt, in machine mode, where addresses are physical: every register is as before, the next
  deadline is one interval later, and a software interrupt is pending for the supervisor.\<close>

lemma timervec_run:
  assumes a: "a = unat (csrs s MSCRATCH)" "a + 40 \<le> 2 ^ 64" and q: "q = unat (ld64 (ram s) (a + 24))" "q + 8 \<le> a \<or> a + 40 \<le> q"
  shows "\<exists>m. run (\<lambda>_. unat) c timervec s = s\<lparr>csrs := (csrs s)(SIP := 2), ram := m, pc_out := csrs s MEPC\<rparr>
    \<and> ld64 m q = ld64 (ram s) q + ld64 (ram s) (a + 32)
    \<and> (\<forall>z. z + 8 \<le> a \<or> a + 40 \<le> z \<longrightarrow> z + 8 \<le> q \<or> q + 8 \<le> z \<longrightarrow> ld64 m z = ld64 (ram s) z)"
proof -
  have u: "unat (csrs s MSCRATCH + 8) = a + 8" "unat (csrs s MSCRATCH + 16) = a + 16" "unat (csrs s MSCRATCH + 24) = a + 24"
    "unat (csrs s MSCRATCH + 32) = a + 32"
    using a by (simp_all add: unat_word_ariths(1))
  let ?m = "st64 (st64 (st64 (st64 (ram s) a (gpr s A1)) (a + 8) (gpr s A2)) (a + 16) (gpr s A3)) q
      (ld64 (ram s) q + ld64 (ram s) (a + 32))"
  have l: "ld64 (st64 (st64 (st64 (ram s) a (gpr s A1)) (a + 8) (gpr s A2)) (a + 16) (gpr s A3)) q = ld64 (ram s) q"
    "ld64 (st64 (st64 (st64 (ram s) a (gpr s A1)) (a + 8) (gpr s A2)) (a + 16) (gpr s A3)) (a + 24) = ld64 (ram s) (a + 24)"
    "ld64 (st64 (st64 (st64 (ram s) a (gpr s A1)) (a + 8) (gpr s A2)) (a + 16) (gpr s A3)) (a + 32) = ld64 (ram s) (a + 32)"
    "ld64 ?m a = gpr s A1" "ld64 ?m (a + 8) = gpr s A2" "ld64 ?m (a + 16) = gpr s A3"
    using q(2) by (auto simp: ld64_st64_other)
  have "run (\<lambda>_. unat) c timervec s = s\<lparr>csrs := (csrs s)(SIP := 2), ram := ?m, pc_out := csrs s MEPC\<rparr>"
    by (rule rv.equality) (auto simp: timervec_def va_of_def u l a(1) [symmetric] q(1) [symmetric] fun_eq_iff)
  moreover have "ld64 ?m z = ld64 (ram s) z" if "z + 8 \<le> a \<or> a + 40 \<le> z" "z + 8 \<le> q \<or> q + 8 \<le> z" for z
    using that by (auto simp: ld64_st64_other)
  ultimately show ?thesis by (intro exI [of _ ?m]) simp
qed

text \<open>\<open>_entry\<close> gives every hart a stack of its own, below the pointer it starts with.\<close>

lemma entry_run:
  "gpr (run tr (\<lambda>_ x. x) (entry_code stack0) s) SP = stack0 + 4096 * (csrs s MHARTID + 1)"
  by (simp add: entry_code_def)

section \<open>The properties of the entry and switch code\<close>

text \<open>C31: Leaving the kernel and coming back. \<open>usertrapret\<close> passes the page table of the process to
  \<open>userret\<close>, which gives the user every register as the trapframe has it, at the saved program counter. Whatever
  the user then does, the next trap through \<open>uservec\<close>, with the trapframe as \<open>usertrapret\<close> left it, stores
  every register of the user in the trapframe and arrives at \<open>usertrap\<close> on the kernel stack of the process, with
  the hart number and the page table of the kernel.\<close>

theorem trap_round_trip:
  assumes c: "curproc s = Some p" and tf: "tf = p_trapframe (procs s p)" "unat tf + 288 \<le> 2 ^ 64"
    and us: "us = MAKE_SATP (p_pagetable (procs s p))" "area tr us TRAPFRAME (unat tf) 288"
  shows "\<exists>t. usertrapret s = Done (TRAPFRAME, us) t \<and>
    (\<forall>v. ram v = mem t \<and> gpr v A0 = TRAPFRAME \<and> gpr v A1 = us \<and> csrs v SEPC = r_sepc t \<longrightarrow>
      (let u = run tr callee userret v in gpr u = tf_reg (mem s) (unat tf) \<and> pc_out u = ld64 (mem s) (unat tf + 24)
        \<and> csrs u SATP = us \<and> csrs u SSCRATCH = TRAPFRAME \<and> ram u = ram v)) \<and>
    (\<forall>u. csrs u SATP = us \<and> csrs u SSCRATCH = TRAPFRAME \<and> (\<forall>k<288. ram u (unat tf + k) = mem t (unat tf + k)) \<longrightarrow>
      (let k = run tr callee uservec u in tf_reg (ram k) (unat tf) = gpr u \<and> pc_out k = sym_usertrap s
        \<and> gpr k SP = p_kstack (procs s p) + PGSIZE \<and> gpr k TP = r_tp s \<and> csrs k SATP = r_satp s))"
proof -
  let ?a = "unat tf"
  obtain t where t: "usertrapret s = Done (TRAPFRAME, us) t" "r_sepc t = ld64 (mem s) (?a + 24)"
    "ld64 (mem t) ?a = r_satp s" "ld64 (mem t) (?a + 8) = p_kstack (procs s p) + PGSIZE"
    "ld64 (mem t) (?a + 16) = sym_usertrap s" "ld64 (mem t) (?a + 32) = r_tp s"
    "\<And>r. tf_reg (mem t) ?a r = tf_reg (mem s) ?a r"
    using usertrapret_app [OF c tf] us(1) by blast
  have "run tr callee userret v = \<lparr>gpr = tf_reg (mem s) ?a, csrs = (csrs v)(SATP := us, SSCRATCH := TRAPFRAME), ram = ram v,
      pc_out = ld64 (mem s) (?a + 24), \<dots> = ()\<rparr>"
    if "ram v = mem t" "gpr v A0 = TRAPFRAME" "gpr v A1 = us" "csrs v SEPC = r_sepc t" for v
    using userret_run [of tr v ?a callee] us(2) that t(2,7) by (simp add: fun_eq_iff)
  moreover have "tf_reg (ram (run tr callee uservec u)) ?a = gpr u \<and> pc_out (run tr callee uservec u) = sym_usertrap s
      \<and> gpr (run tr callee uservec u) SP = p_kstack (procs s p) + PGSIZE \<and> gpr (run tr callee uservec u) TP = r_tp s
      \<and> csrs (run tr callee uservec u) SATP = r_satp s"
    if u: "csrs u SATP = us" "csrs u SSCRATCH = TRAPFRAME" "\<forall>k<288. ram u (?a + k) = mem t (?a + k)" for u
  proof -
    have "ld64 (ram u) (?a + k) = ld64 (mem t) (?a + k)" if "k < 40" for k
      using u(3) that by (intro ld64_cong) (simp add: add.assoc)
    from this [of 0] this [of 8] this [of 16] this [of 32] show ?thesis
      using uservec_run [of tr u ?a callee] us(2) u(1,2) t(3-6) by auto
  qed
  ultimately show ?thesis using t(1) by (intro exI [of _ t]) (simp add: Let_def)
qed

lemma area_id: "unat v + n \<le> 2 ^ 64 \<Longrightarrow> area (\<lambda>_. unat) satp v (unat v) n"
  by (simp add: area_def unat_plus_off)

theorem trap_round_trip_witness:
  "\<exists>t. usertrapret (demo\<lparr>procs := \<lambda>_. demo_proc\<lparr>p_trapframe := TRAPFRAME\<rparr>\<rparr>) = Done (TRAPFRAME, MAKE_SATP (p_pagetable demo_proc)) t"
proof -
  let ?s = "demo\<lparr>procs := \<lambda>_. demo_proc\<lparr>p_trapframe := TRAPFRAME\<rparr>\<rparr>"
  have "unat TRAPFRAME + 288 \<le> 2 ^ 64" by (simp add: TRAPFRAME_def TRAMPOLINE_def MAXVA_def PGSIZE_def)
  then show ?thesis using trap_round_trip [of ?s 0 TRAPFRAME "MAKE_SATP (p_pagetable demo_proc)" "\<lambda>_. unat" "\<lambda>_ x. x"]
      area_id [of TRAPFRAME 288] by auto
qed

text \<open>C32: An interrupt in the kernel is invisible to the code it interrupts: when \<open>kerneltrap\<close> keeps to the
  calling convention, \<open>kernelvec\<close> returns to the interrupted instruction with every register as it was; only the
  hart number in \<open>tp\<close> is what \<open>kerneltrap\<close> left, since the thread may have moved to another hart.\<close>

theorem kernelvec_transparent:
  assumes ar: "area tr (csrs s SATP) (gpr s SP - 256) a 256"
    and call: "c_call tr (callee ''kerneltrap'') 256 (run tr callee kernelvec_save s)"
  shows "let k = callee ''kerneltrap'' (run tr callee kernelvec_save s) in
    run tr callee kernelvec s = k\<lparr>gpr := (gpr s)(TP := gpr k TP), pc_out := csrs k SEPC\<rparr>"
proof -
  let ?g = "(gpr s)(SP := gpr s SP - 256)"
  define e where "e = run tr callee kernelvec_save s"
  define k where "k = callee ''kerneltrap'' e"
  obtain m where e: "e = s\<lparr>gpr := ?g, ram := m\<rparr>" "\<forall>(r, i) \<in> set kv_all. ld64 m (a + unat i) = ?g r"
    using kernelvec_save_run [OF ar] unfolding e_def by blast
  have k: "gpr k SP = gpr s SP - 256" "csrs k SATP = csrs s SATP"
    "\<And>i :: u64. unat i < 256 \<Longrightarrow> ram k (a + unat i) = m (a + unat i)"
    using call areaD [OF ar] unfolding e_def [symmetric] c_call_def k_def [symmetric] by (auto simp: e(1))
  have kn: "ram k (a + n) = m (a + n)" if "n < 256" for n
    using k(3) [of "of_nat n"] that by (simp add: unat_of_nat)
  have "ld64 (ram k) (a + unat i) = ?g r" if "(r, i) \<in> set kv_all" for r i
  proof -
    have "unat i + 8 \<le> 256" using that by (auto simp: kv_all_def kv_tab_def)
    then have "ld64 (ram k) (a + unat i) = ld64 m (a + unat i)"
      using kn by (intro ld64_cong) (simp add: add.assoc)
    with e(2) that show ?thesis by auto
  qed
  then have "run tr callee kernelvec_restore k = k\<lparr>gpr := (?g)(TP := gpr k TP, SP := gpr k SP + 256), pc_out := csrs k SEPC\<rparr>"
    using k ar by (intro kernelvec_restore_run [of tr k a]) auto
  moreover have "(?g)(TP := gpr k TP, SP := gpr k SP + 256) = (gpr s)(TP := gpr k TP)" using k(1) by (auto simp: fun_eq_iff)
  ultimately show ?thesis by (simp add: kernelvec_def Let_def flip: e_def k_def)
qed

definition demo_rv :: rv where
  "demo_rv = \<lparr>gpr = \<lambda>r. if r = SP then 0x80009000 else if r = A0 then 0x80001000 else if r = A1 then 0x80002000 else 5,
     csrs = \<lambda>_. 0, ram = \<lambda>_. 0, pc_out = 0\<rparr>"

theorem kernelvec_transparent_witness:
  "gpr (run (\<lambda>_. unat) (\<lambda>_ x. x\<lparr>gpr := (gpr x)(TP := 7, A0 := 9)\<rparr>) kernelvec demo_rv) = (gpr demo_rv)(TP := 7)"
proof -
  have "area (\<lambda>_. unat) (csrs demo_rv SATP) (gpr demo_rv SP - 256) (unat (0x80008f00 :: u64)) 256"
    using area_id [of "0x80008f00 :: u64" 256] by (simp add: demo_rv_def)
  from kernelvec_transparent [OF this, of "\<lambda>_ x. x\<lparr>gpr := (gpr x)(TP := 7, A0 := 9)\<rparr>"] show ?thesis
    by (simp add: c_call_def Let_def)
qed

text \<open>C33: A context switch is undone by switching back: the thread that called \<open>swtch\<close> in state \<open>s\<close> and is later
  switched to, with its saved context as it was, finds its return address, stack pointer and callee-saved registers
  as they were and returns from its call.\<close>

theorem swtch_resumes:
  assumes s: "area tr (csrs s SATP) (gpr s A0) a 112" "area tr (csrs s SATP) (gpr s A1) b 112" "a + 112 \<le> b \<or> b + 112 \<le> a"
    and t: "area tr (csrs t SATP) (gpr t A0) d 112" "area tr (csrs t SATP) (gpr t A1) a 112" "d + 112 \<le> a \<or> a + 112 \<le> d"
    and m: "\<forall>i<112. ram t (a + i) = ram (run tr callee swtch_code s) (a + i)"
  shows "let w = run tr callee swtch_code t in pc_out w = gpr s RA \<and>
    (\<forall>r \<in> {RA, SP, S0, S1, S2, S3, S4, S5, S6, S7, S8, S9, S10, S11}. gpr w r = gpr s r)"
proof -
  obtain m1 where m1: "ram (run tr callee swtch_code s) = m1" "\<forall>(r, k) \<in> set sw_tab. ld64 m1 (a + unat k) = gpr s r"
    using swtch_run [OF s, of callee] by auto
  have l: "ld64 (ram t) (a + unat k) = gpr s r" if "(r, k) \<in> set sw_tab" for r k
  proof -
    have "unat k + 8 \<le> 112" using that by (auto simp: sw_tab_def)
    then have "ld64 (ram t) (a + unat k) = ld64 m1 (a + unat k)" using m m1(1) by (intro ld64_cong) (simp add: add.assoc)
    with m1(2) that show ?thesis by auto
  qed
  have g: "gpr (run tr callee swtch_code t) r = (case map_of sw_tab r of Some k \<Rightarrow> ld64 (ram t) (a + unat k) | None \<Rightarrow> gpr t r)"
    "pc_out (run tr callee swtch_code t) = ld64 (ram t) a" for r
    using swtch_run [OF t(1,2), of callee] t(3) by auto
  have "gpr (run tr callee swtch_code t) r = gpr s r" if "r \<in> {RA, SP, S0, S1, S2, S3, S4, S5, S6, S7, S8, S9, S10, S11}" for r
  proof -
    obtain k where "map_of sw_tab r = Some k" using \<open>r \<in> _\<close> by (auto simp: sw_tab_def)
    then show ?thesis using g(1) [of r] l [of r k] by (simp add: map_of_SomeD)
  qed
  moreover have "ld64 (ram t) a = gpr s RA" using l [of RA 0] by (simp add: sw_tab_def)
  ultimately show ?thesis using g(2) by (simp only: Let_def) blast
qed

theorem swtch_resumes_witness:
  "let t = (run (\<lambda>_. unat) (\<lambda>_ x. x) swtch_code demo_rv)\<lparr>gpr := (gpr demo_rv)(A0 := 0x80002000, A1 := 0x80001000)\<rparr> in
    gpr (run (\<lambda>_. unat) (\<lambda>_ x. x) swtch_code t) SP = 0x80009000"
proof -
  let ?t = "(run (\<lambda>_. unat) (\<lambda>_ x. x) swtch_code demo_rv)\<lparr>gpr := (gpr demo_rv)(A0 := 0x80002000, A1 := 0x80001000)\<rparr>"
  have a: "area (\<lambda>_. unat) sp 0x80001000 (unat (0x80001000 :: u64)) 112" "area (\<lambda>_. unat) sp 0x80002000 (unat (0x80002000 :: u64)) 112" for sp
    by (rule area_id; simp)+
  have g: "gpr demo_rv A0 = 0x80001000" "gpr demo_rv A1 = 0x80002000" "gpr demo_rv SP = 0x80009000" by (simp_all add: demo_rv_def)
  show ?thesis
    using swtch_resumes [of "\<lambda>_. unat" demo_rv "unat (0x80001000 :: u64)" "unat (0x80002000 :: u64)" ?t "unat (0x80002000 :: u64)" "\<lambda>_ x. x"]
    by (simp add: a [simplified] g Let_def)
qed

end
