(* ===== verification/Ulib.thy ===== *)
theory Ulib
  imports Uart
begin

text \<open>
  The C library of the user programs: user/ulib.c and user/printf.c. A user program is a computation that makes
  requests to the kernel: \<open>os\<close>, an argument of every definition that makes a system call, answers a request from the
  state \<open>'w\<close> of the world with the result of the call and the bytes it stored in the caller's memory. \<^verbatim>\<open>fork\<close> is seen
  from one process: the answer 0 makes it the child. A successful \<^verbatim>\<open>exec\<close> ends the program
  (\<open>UGone\<close>); an argument of \<^verbatim>\<open>printf\<close> that does not fit its conversion is undefined (\<open>UUndef\<close>).
  A loop that ends only when the kernel says so has fuel, and \<open>UMore\<close> is the outcome when it is used up.
  A C string is the list of its bytes without the final null byte.
\<close>

section \<open>System calls\<close>

datatype req =
  Fork | Exit int | Wait | Pipe | Read int nat | Kill int | Exec "byte list" "byte list list" | Fstat int
| Chdir "byte list" | Dup int | Getpid | Sbrk int | Sleep int | Uptime | Open "byte list" u32 | Write int "byte list"
| Mknod "byte list" int int | Unlink "byte list" | Link "byte list" "byte list" | Mkdir "byte list" | Close int | Wait2
| Getprocs | Getpriority | Setpriority int

type_synonym 'w os = "req \<Rightarrow> 'w \<Rightarrow> (int \<times> byte list) \<times> 'w"

datatype 'a uout = URet 'a | UExit int | UGone | UMore | UUndef

type_synonym ('w, 'a) U = "'w \<Rightarrow> 'a uout \<times> 'w"

definition uret :: "'a \<Rightarrow> ('w, 'a) U" where
  "uret x = (\<lambda>w. (URet x, w))"

definition ubnd :: "('w, 'a) U \<Rightarrow> ('a \<Rightarrow> ('w, 'b) U) \<Rightarrow> ('w, 'b) U" where
  "ubnd m f = (\<lambda>w. case m w of
     (URet x, w') \<Rightarrow> f x w'
   | (UExit n, w') \<Rightarrow> (UExit n, w')
   | (UGone, w') \<Rightarrow> (UGone, w')
   | (UMore, w') \<Rightarrow> (UMore, w')
   | (UUndef, w') \<Rightarrow> (UUndef, w'))"

definition uthn :: "('w, 'a) U \<Rightarrow> ('w, 'b) U \<Rightarrow> ('w, 'b) U" where
  "uthn m n = ubnd m (\<lambda>_. n)"

definition ustop :: "'a uout \<Rightarrow> ('w, 'a) U" where
  "ustop r = (\<lambda>w. (r, w))"

primrec ueach :: "('i \<Rightarrow> ('w, unit) U) \<Rightarrow> 'i list \<Rightarrow> ('w, unit) U" where
  "ueach f [] = uret ()"
| "ueach f (x # xs) = uthn (f x) (ueach f xs)"

definition usys :: "'w os \<Rightarrow> req \<Rightarrow> ('w, int \<times> byte list) U" where
  "usys os r = (\<lambda>w. case os r w of (a, w') \<Rightarrow> (URet a, w'))"

definition ucall :: "'w os \<Rightarrow> req \<Rightarrow> ('w, int) U" where
  "ucall os r = ubnd (usys os r) (\<lambda>(n, _). uret n)"

definition uexit :: "'w os \<Rightarrow> int \<Rightarrow> ('w, 'a) U" where
  "uexit os n = (\<lambda>w. (UExit n, snd (os (Exit n) w)))"

definition uexec :: "'w os \<Rightarrow> byte list \<Rightarrow> byte list list \<Rightarrow> ('w, unit) U" where
  "uexec os file argv = ubnd (ucall os (Exec file argv)) (\<lambda>n. if n < 0 then uret () else ustop UGone)"

named_theorems user_simps \<open>running user programs\<close>

lemma u_run [user_simps]:
  "uret x w = (URet x, w)"
  "ubnd m f w = (case m w of
     (URet x, w') \<Rightarrow> f x w'
   | (UExit n, w') \<Rightarrow> (UExit n, w')
   | (UGone, w') \<Rightarrow> (UGone, w')
   | (UMore, w') \<Rightarrow> (UMore, w')
   | (UUndef, w') \<Rightarrow> (UUndef, w'))"
  "uthn m k w = ubnd m (\<lambda>_. k) w"
  "ustop r w = (r, w)"
  "usys os q w = (case os q w of (a, w') \<Rightarrow> (URet a, w'))"
  "ucall os q w = (case os q w of ((n, d), w') \<Rightarrow> (URet n, w'))"
  "uexit os n w = (UExit n, snd (os (Exit n) w))"
  by (simp_all add: uret_def ubnd_def uthn_def ustop_def usys_def ucall_def uexit_def split: prod.splits)

section \<open>ulib.c\<close>

fun strcpy_u :: "bytes \<Rightarrow> nat \<Rightarrow> byte list \<Rightarrow> bytes" where
  "strcpy_u m s [] = m(s := 0)"
| "strcpy_u m s (c # t) = strcpy_u (m(s := c)) (s + 1) t"

fun strcmp_u :: "byte list \<Rightarrow> byte list \<Rightarrow> int" where
  "strcmp_u (p # ps) (q # qs) = (if p = q then strcmp_u ps qs else uint p - uint q)"
| "strcmp_u (p # ps) [] = uint p"
| "strcmp_u [] (q # qs) = - uint q"
| "strcmp_u [] [] = 0"

fun strlen_u :: "byte list \<Rightarrow> u32" where
  "strlen_u [] = 0"
| "strlen_u (c # s) = strlen_u s + 1"

fun memset_u :: "bytes \<Rightarrow> nat \<Rightarrow> u32 \<Rightarrow> nat \<Rightarrow> bytes" where
  "memset_u m dst c 0 = m"
| "memset_u m dst c (Suc n) = (memset_u m dst c n)(dst + n := ucast c)"

text \<open>The position of the first \<open>c\<close>; a null byte is never found.\<close>

fun strchr_u :: "byte list \<Rightarrow> byte \<Rightarrow> nat option" where
  "strchr_u [] c = None"
| "strchr_u (x # s) c = (if x = c then Some 0 else map_option Suc (strchr_u s c))"

lemma strchr_u_None: "strchr_u s c = None \<longleftrightarrow> c \<notin> set s"
  by (induction s) auto

text \<open>The loop of \<^verbatim>\<open>gets\<close>, with \<open>n\<close> the room left for bytes.\<close>

fun gets_u :: "'w os \<Rightarrow> nat \<Rightarrow> ('w, byte list) U" where
  "gets_u os 0 = uret []"
| "gets_u os (Suc n) = ubnd (usys os (Read 0 1)) (\<lambda>(cc, d).
     if cc < 1 then uret []
     else let c = (case d of [] \<Rightarrow> 0 | c # _ \<Rightarrow> c) in
       if c = 10 \<or> c = 13 then uret [c]
       else ubnd (gets_u os n) (\<lambda>rest. uret (c # rest)))"

definition gets :: "'w os \<Rightarrow> nat \<Rightarrow> ('w, byte list) U" where
  "gets os n = gets_u os (n - 1)"

definition stat_u :: "'w os \<Rightarrow> byte list \<Rightarrow> ('w, int \<times> byte list) U" where
  "stat_u os n = ubnd (ucall os (Open n 0)) (\<lambda>fd.
     if fd < 0 then uret (- 1, [])
     else ubnd (usys os (Fstat fd)) (\<lambda>r. uthn (ucall os (Close fd)) (uret r)))"

fun atoi_u :: "u32 \<Rightarrow> byte list \<Rightarrow> u32" where
  "atoi_u n [] = n"
| "atoi_u n (c # s) = (if 48 \<le> c \<and> c \<le> 57 then atoi_u (n * 10 + ucast c - 48) s else n)"

definition atoi :: "byte list \<Rightarrow> int" where
  "atoi s = sint (atoi_u 0 s)"

definition memmove_u :: "bytes \<Rightarrow> nat \<Rightarrow> nat \<Rightarrow> nat \<Rightarrow> bytes" where
  "memmove_u m dst src n = (if src > dst then memmove_up m dst src n else memmove_down m (dst + n) (src + n) n)"

fun memcmp_u :: "bytes \<Rightarrow> bytes \<Rightarrow> nat \<Rightarrow> int" where
  "memcmp_u p1 p2 0 = 0"
| "memcmp_u p1 p2 (Suc n) =
     (if p1 0 \<noteq> p2 0 then uint (p1 0) - uint (p2 0) else memcmp_u (\<lambda>i. p1 (Suc i)) (\<lambda>i. p2 (Suc i)) n)"

definition memcpy_u :: "bytes \<Rightarrow> nat \<Rightarrow> nat \<Rightarrow> nat \<Rightarrow> bytes" where
  "memcpy_u m dst src n = memmove_u m dst src n"

section \<open>printf.c\<close>

definition digits_u :: "byte list" where
  "digits_u = str ''0123456789ABCDEF''"

definition putc :: "'w os \<Rightarrow> int \<Rightarrow> byte \<Rightarrow> ('w, unit) U" where
  "putc os fd c = uthn (ucall os (Write fd [c])) (uret ())"

text \<open>The digits in the order they are put in \<^verbatim>\<open>buf\<close>, with fuel for the 32 digits a number can have.\<close>

fun digs_u :: "nat \<Rightarrow> u32 \<Rightarrow> u32 \<Rightarrow> byte list" where
  "digs_u 0 x base = []"
| "digs_u (Suc k) x base = digits_u ! unat (x mod base) # (if x div base = 0 then [] else digs_u k (x div base) base)"

definition printint_u :: "u32 \<Rightarrow> u32 \<Rightarrow> bool \<Rightarrow> byte list" where
  "printint_u xx base sign =
     (let neg = sign \<and> sint xx < 0; x = (if neg then - xx else xx);
          buf = digs_u 32 x base @ (if neg then str ''-'' else []) in rev buf)"

fun hexits_u :: "nat \<Rightarrow> u64 \<Rightarrow> byte list" where
  "hexits_u 0 x = []"
| "hexits_u (Suc k) x = digits_u ! unat (drop_bit 60 x) # hexits_u k (push_bit 4 x)"

definition printptr_u :: "u64 \<Rightarrow> byte list" where
  "printptr_u x = str ''0x'' @ hexits_u 16 x"

text \<open>A conversion: what it prints, and the arguments left. \<^verbatim>\<open>%l\<close> passes a 64-bit argument to
  \<^verbatim>\<open>printint\<close>, which takes an \<^verbatim>\<open>int\<close>.\<close>

definition conversion_u :: "byte \<Rightarrow> parg list \<Rightarrow> (byte list \<times> parg list) option" where
  "conversion_u c args =
     (if c = of_char CHR ''d'' then
        (case args of AInt x # rest \<Rightarrow> Some (printint_u x 10 True, rest) | _ \<Rightarrow> None)
      else if c = of_char CHR ''l'' then
        (case args of APtr x # rest \<Rightarrow> Some (printint_u (ucast x) 10 False, rest) | _ \<Rightarrow> None)
      else if c = of_char CHR ''x'' then
        (case args of AInt x # rest \<Rightarrow> Some (printint_u x 16 False, rest) | _ \<Rightarrow> None)
      else if c = of_char CHR ''p'' then
        (case args of APtr x # rest \<Rightarrow> Some (printptr_u x, rest) | _ \<Rightarrow> None)
      else if c = of_char CHR ''s'' then
        (case args of
           AStr (Some bs) # rest \<Rightarrow> Some (bs, rest)
         | AStr None # rest \<Rightarrow> Some (str ''(null)'', rest)
         | _ \<Rightarrow> None)
      else if c = of_char CHR ''c'' then
        (case args of AInt x # rest \<Rightarrow> Some ([ucast x], rest) | _ \<Rightarrow> None)
      else if c = of_char CHR ''%'' then Some ([c], args)
      else Some ([of_char CHR ''%'', c], args))"

text \<open>The loop of \<^verbatim>\<open>vprintf\<close>; \<open>pct\<close> is \<open>state == '%'\<close>.\<close>

fun vprintf_u :: "bool \<Rightarrow> byte list \<Rightarrow> parg list \<Rightarrow> byte list option" where
  "vprintf_u pct [] args = Some []"
| "vprintf_u pct (c # fmt) args =
     (if \<not> pct then
        (if c = of_char CHR ''%'' then vprintf_u True fmt args
         else map_option (Cons c) (vprintf_u False fmt args))
      else
        (case conversion_u c args of
           None \<Rightarrow> None
         | Some (out, rest) \<Rightarrow> map_option (append out) (vprintf_u False fmt rest)))"

definition vprintf :: "'w os \<Rightarrow> int \<Rightarrow> byte list \<Rightarrow> parg list \<Rightarrow> ('w, unit) U" where
  "vprintf os fd fmt args = (case vprintf_u False fmt args of None \<Rightarrow> ustop UUndef | Some out \<Rightarrow> ueach (putc os fd) out)"

definition fprintf :: "'w os \<Rightarrow> int \<Rightarrow> byte list \<Rightarrow> parg list \<Rightarrow> ('w, unit) U" where
  "fprintf os fd fmt args = vprintf os fd fmt args"

definition printf_u :: "'w os \<Rightarrow> byte list \<Rightarrow> parg list \<Rightarrow> ('w, unit) U" where
  "printf_u os fmt args = vprintf os 1 fmt args"

text \<open>A string literal that ends in a newline.\<close>

definition line :: "string \<Rightarrow> byte list" where
  "line s = str s @ [10]"

end
