(* ===== verification/Grep.thy ===== *)
theory Grep
  imports Ulib
begin

text \<open>
  user/grep.c: the matcher for patterns with \<open>^ . * $\<close> and the program around it. A pattern and a line are
  lists of bytes without the null byte. The matcher is proved equivalent to the meaning of the pattern as a
  sequence of items (\<open>items\<close>, \<open>lang\<close>).
\<close>

section \<open>The matcher\<close>

abbreviation star :: byte where "star \<equiv> 42"
abbreviation dot :: byte where "dot \<equiv> 46"
abbreviation dollar :: byte where "dollar \<equiv> 36"
abbreviation caret :: byte where "caret \<equiv> 94"

function matchhere :: "byte list \<Rightarrow> byte list \<Rightarrow> bool"
  and matchstar :: "byte \<Rightarrow> byte list \<Rightarrow> byte list \<Rightarrow> bool" where
  "matchhere [] text = True"
| "matchhere (c # re) text =
     (if re \<noteq> [] \<and> hd re = star then matchstar c (tl re) text
      else if c = dollar \<and> re = [] then text = []
      else if text \<noteq> [] \<and> (c = dot \<or> c = hd text) then matchhere re (tl text)
      else False)"
| "matchstar c re text =
     (if matchhere re text then True
      else if text \<noteq> [] \<and> (hd text = c \<or> c = dot) then matchstar c re (tl text)
      else False)"
  by pat_completeness auto

termination
  by (relation "measures [case_sum (\<lambda>(re, text). 2 * length re) (\<lambda>(c, re, text). 2 * length re + 1),
        case_sum (\<lambda>(re, text). length text) (\<lambda>(c, re, text). length text)]") auto

declare matchstar.simps [simp del]

fun match_from :: "byte list \<Rightarrow> byte list \<Rightarrow> bool" where
  "match_from re [] = matchhere re []"
| "match_from re (x # text) = (if matchhere re (x # text) then True else match_from re text)"

definition match :: "byte list \<Rightarrow> byte list \<Rightarrow> bool" where
  "match re text = (if re \<noteq> [] \<and> hd re = caret then matchhere (tl re) text else match_from re text)"

section \<open>The program\<close>

text \<open>\<^verbatim>\<open>buf\<close> has 1024 bytes. The inner loop: \<open>p\<close> is what is left of the buffer, up to its end; the search for a newline
  stops at a null byte, and the text of the line ends there too. The result is what is left after the last line.\<close>

definition cstring :: "byte list \<Rightarrow> byte list" where
  "cstring p = takeWhile (\<lambda>c. c \<noteq> 0) p"

lemma strchr_u_less: "strchr_u s c = Some q \<Longrightarrow> q < length s"
  by (induction s arbitrary: q) (auto split: if_splits)

function grep_lines :: "'w os \<Rightarrow> byte list \<Rightarrow> byte list \<Rightarrow> ('w, byte list) U" where
  "grep_lines os pat p =
     (case strchr_u (cstring p) 10 of
        None \<Rightarrow> uret p
      | Some q \<Rightarrow>
          uthn (if match pat (take q p) then uthn (ucall os (Write 1 (take (q + 1) p))) (uret ()) else uret ())
            (grep_lines os pat (drop (q + 1) p)))"
  by pat_completeness auto

termination
proof (relation "measure (\<lambda>(os, pat, p). length p)")
  fix os :: "'w os" and pat p q
  assume "strchr_u (cstring p) 10 = Some q"
  then have "q < length p" using strchr_u_less length_takeWhile_le [of "\<lambda>c. c \<noteq> 0" p] unfolding cstring_def by fastforce
  then show "((os, pat, drop (q + 1) p), (os, pat, p)) \<in> measure (\<lambda>(os, pat, p). length p)" by simp
qed simp

declare grep_lines.simps [simp del]

text \<open>The outer loop; \<open>rest\<close> are the \<open>m\<close> bytes at the start of the buffer.\<close>

fun grep_loop :: "nat \<Rightarrow> 'w os \<Rightarrow> byte list \<Rightarrow> int \<Rightarrow> byte list \<Rightarrow> ('w, unit) U" where
  "grep_loop 0 os pat fd rest = ustop UMore"
| "grep_loop (Suc k) os pat fd rest = ubnd (usys os (Read fd (1024 - length rest - 1))) (\<lambda>(n, d).
     if n > 0 then ubnd (grep_lines os pat (rest @ take (nat n) d)) (grep_loop k os pat fd)
     else uret ())"

definition grep :: "nat \<Rightarrow> 'w os \<Rightarrow> byte list \<Rightarrow> int \<Rightarrow> ('w, unit) U" where
  "grep fuel os pat fd = grep_loop fuel os pat fd []"

fun grep_files :: "nat \<Rightarrow> 'w os \<Rightarrow> byte list \<Rightarrow> byte list list \<Rightarrow> ('w, unit) U" where
  "grep_files fuel os pat [] = uexit os 0"
| "grep_files fuel os pat (file # files) = ubnd (ucall os (Open file 0)) (\<lambda>fd.
     if fd < 0 then uthn (printf_u os (line ''grep: cannot open %s'') [AStr (Some file)]) (uexit os 1)
     else uthn (grep fuel os pat fd) (uthn (ucall os (Close fd)) (grep_files fuel os pat files)))"

definition grep_main :: "nat \<Rightarrow> 'w os \<Rightarrow> byte list list \<Rightarrow> ('w, unit) U" where
  "grep_main fuel os argv =
     (case argv of
        _ # pat # files \<Rightarrow>
          if files = [] then uthn (grep fuel os pat 0) (uexit os 0) else grep_files fuel os pat files
      | _ \<Rightarrow> uthn (fprintf os 2 (line ''usage: grep pattern [file ...]'') []) (uexit os 1))"

section \<open>What a pattern means\<close>

text \<open>An item is a byte (\<open>None\<close> for any byte), once or any number of times. A final \<open>$\<close> is an anchor.\<close>

datatype item = One "byte option" | Many "byte option"

definition sym :: "byte \<Rightarrow> byte option" where
  "sym c = (if c = dot then None else Some c)"

fun items :: "byte list \<Rightarrow> item list \<times> bool" where
  "items [] = ([], False)"
| "items [c] = (if c = dollar then ([], True) else ([One (sym c)], False))"
| "items (c # d # re) =
     (if d = star then apfst (Cons (Many (sym c))) (items re) else apfst (Cons (One (sym c))) (items (d # re)))"

definition fits :: "byte option \<Rightarrow> byte \<Rightarrow> bool" where
  "fits a x \<longleftrightarrow> (case a of None \<Rightarrow> True | Some c \<Rightarrow> x = c)"

fun lang :: "item list \<Rightarrow> byte list set" where
  "lang [] = {[]}"
| "lang (One a # is) = {x # w | x w. fits a x \<and> w \<in> lang is}"
| "lang (Many a # is) = {v @ w | v w. list_all (fits a) v \<and> w \<in> lang is}"

text \<open>A prefix of the text is in the language, and it is the whole text when the pattern is anchored.\<close>

definition here :: "item list \<times> bool \<Rightarrow> byte list \<Rightarrow> bool" where
  "here p text \<longleftrightarrow> (\<exists>w post. text = w @ post \<and> w \<in> lang (fst p) \<and> (snd p \<longrightarrow> post = []))"

lemma here_one: "here (One a # is, e) text \<longleftrightarrow> text \<noteq> [] \<and> fits a (hd text) \<and> here (is, e) (tl text)"
proof (cases "text")
  case Nil
  then show ?thesis by (auto simp: here_def)
next
  case (Cons x xs)
  have "here (One a # is, e) (x # xs)" if "fits a x" "here (is, e) xs"
  proof -
    from that(2) obtain w post where w: "xs = w @ post" "w \<in> lang is" "e \<longrightarrow> post = []" by (auto simp: here_def)
    then have "x # w \<in> lang (One a # is)" using that(1) by simp
    moreover have "x # xs = (x # w) @ post" using w(1) by simp
    ultimately show ?thesis using w(3) unfolding here_def by (metis fst_conv snd_conv)
  qed
  moreover have "fits a x \<and> here (is, e) xs" if "here (One a # is, e) (x # xs)"
  proof -
    from that obtain v post where v: "x # xs = v @ post" "v \<in> lang (One a # is)" "e \<longrightarrow> post = []"
      unfolding here_def by auto
    then obtain y w where "v = y # w" "fits a y" "w \<in> lang is" by auto
    with v(1,3) show ?thesis unfolding here_def by auto
  qed
  ultimately show ?thesis using Cons by auto
qed

lemma here_simps: "here ([], False) text" "here ([], True) text \<longleftrightarrow> text = []"
  by (auto simp: here_def)

lemma here_manyE:
  assumes "here (Many a # is, e) s"
  obtains v w post where "s = v @ w @ post" "list_all (fits a) v" "w \<in> lang is" "e \<longrightarrow> post = []"
proof -
  from assms obtain u post where u: "s = u @ post" "u \<in> lang (Many a # is)" "e \<longrightarrow> post = []" unfolding here_def by auto
  then obtain v w where "u = v @ w" "list_all (fits a) v" "w \<in> lang is" by auto
  with u that [of v w post] show thesis by simp
qed

lemma here_manyI: "list_all (fits a) v \<Longrightarrow> here (is, e) s \<Longrightarrow> here (Many a # is, e) (v @ s)"
  unfolding here_def by (simp, metis append.assoc)

lemma here_many:
  "here (Many a # is, e) s \<longleftrightarrow> here (is, e) s \<or> s \<noteq> [] \<and> fits a (hd s) \<and> here (Many a # is, e) (tl s)"
proof
  assume "here (Many a # is, e) s"
  then obtain v w post where t: "s = v @ w @ post" "list_all (fits a) v" "w \<in> lang is" "e \<longrightarrow> post = []"
    by (rule here_manyE)
  then have "here (is, e) (w @ post)" unfolding here_def by auto
  then show "here (is, e) s \<or> s \<noteq> [] \<and> fits a (hd s) \<and> here (Many a # is, e) (tl s)"
    using t(1,2) here_manyI [of a "tl v" "is" e "w @ post"] by (cases v) auto
next
  assume r: "here (is, e) s \<or> s \<noteq> [] \<and> fits a (hd s) \<and> here (Many a # is, e) (tl s)"
  show "here (Many a # is, e) s"
  proof (cases "here (is, e) s")
    case True
    then show ?thesis using here_manyI [of a "[]"] by simp
  next
    case False
    with r have s: "s \<noteq> []" "fits a (hd s)" "here (Many a # is, e) (tl s)" by blast+
    from s(3) obtain v w post where t: "tl s = v @ w @ post" "list_all (fits a) v" "w \<in> lang is" "e \<longrightarrow> post = []"
      by (rule here_manyE)
    then have "here (is, e) (w @ post)" unfolding here_def by auto
    then show ?thesis using here_manyI [of a "hd s # v" "is" e "w @ post"] s(1,2) t(1,2) by (cases s) auto
  qed
qed

lemma items_Cons:
  "re \<noteq> [] \<Longrightarrow> hd re = star \<Longrightarrow> items (c # re) = (Many (sym c) # fst (items (tl re)), snd (items (tl re)))"
  "\<not> (re \<noteq> [] \<and> hd re = star) \<Longrightarrow> c \<noteq> dollar \<or> re \<noteq> [] \<Longrightarrow>
    items (c # re) = (One (sym c) # fst (items re), snd (items re))"
  by (cases re; auto simp: apfst_def map_prod_def split: prod.splits)+

lemma fits_sym: "fits (sym c) x \<longleftrightarrow> c = dot \<or> c = x"
  by (auto simp: fits_def sym_def)

lemma matcher_here:
  "matchhere re text \<longleftrightarrow> here (items re) text"
  "matchstar c re text \<longleftrightarrow> here (Many (sym c) # fst (items re), snd (items re)) text"
proof (induction re "text" and c re "text" rule: matchhere_matchstar.induct)
  case (2 c re tx)
  show ?case
  proof (cases "re \<noteq> [] \<and> hd re = star")
    case True
    then show ?thesis using 2(1) by (simp add: items_Cons(1))
  next
    case F: False
    show ?thesis
    proof (cases "c = dollar \<and> re = []")
      case True
      then show ?thesis using F by (simp add: here_simps)
    next
      case False
      then show ?thesis using F 2(2) [OF F False] items_Cons(2) [OF F, of c] by (auto simp: here_one fits_sym)
    qed
  qed
next
  case (3 c re tx)
  then show ?case by (subst here_many) (auto simp: fits_sym matchstar.simps [of c re tx])
qed (simp_all add: here_simps)

text \<open>C34: \<open>match\<close> decides the meaning of the pattern: some part of the text is in the language of the items of the
  pattern, at its start when the pattern begins with \<open>^\<close>, at its end when it ends with \<open>$\<close>.\<close>

theorem match_decides_pattern:
  "match re text \<longleftrightarrow> (let anchored = (re \<noteq> [] \<and> hd re = caret); (is, e) = items (if anchored then tl re else re) in
     \<exists>pre w post. text = pre @ w @ post \<and> w \<in> lang is \<and> (anchored \<longrightarrow> pre = []) \<and> (e \<longrightarrow> post = []))"
proof -
  have "match_from re text \<longleftrightarrow> (\<exists>pre rest. text = pre @ rest \<and> here (items re) rest)"
  proof (induction "text")
    case (Cons x tx)
    then show ?case using matcher_here(1) [of re "x # tx"]
      by (auto simp: Cons_eq_append_conv)
  qed (simp add: matcher_here)
  then show ?thesis by (auto simp: match_def matcher_here here_def Let_def split: prod.splits)
qed

theorem match_decides_pattern_witness:
  "match (str ''^ab*$'') (str ''abb'') \<and>
    (\<exists>w post. str ''abb'' = w @ post \<and> w \<in> lang [One (Some 97), Many (Some 98)] \<and> post = [])"
proof -
  have "match (str ''^ab*$'') (str ''abb'')" by code_simp
  moreover have "items (tl (str ''^ab*$'')) = ([One (Some 97), Many (Some 98)], True)" "hd (str ''^ab*$'') = caret"
    "str ''^ab*$'' \<noteq> []" by code_simp+
  ultimately show ?thesis using match_decides_pattern [of "str ''^ab*$''" "str ''abb''"] by (simp add: Let_def)
qed

section \<open>What the program prints\<close>

text \<open>The complete lines of a file, without their newlines, and the rest after the last newline.\<close>

fun lines_acc :: "byte list \<Rightarrow> byte list \<Rightarrow> byte list list \<times> byte list" where
  "lines_acc l [] = ([], l)"
| "lines_acc l (c # s) = (if c = 10 then apfst (Cons l) (lines_acc [] s) else lines_acc (l @ [c]) s)"

definition selected :: "byte list \<Rightarrow> byte list list \<Rightarrow> byte list" where
  "selected pat ls = concat (map (\<lambda>l. if match pat l then l @ [10] else []) ls)"

text \<open>Reading \<open>fd\<close> delivers the bytes of \<open>inp\<close> from the front, in pieces of any size from 1 up to the
  size asked for, and 0 at the end; writing to file descriptor 1 appends to \<open>outp\<close>.\<close>

definition stream_io :: "'w os \<Rightarrow> int \<Rightarrow> ('w \<Rightarrow> byte list) \<Rightarrow> ('w \<Rightarrow> byte list) \<Rightarrow> bool" where
  "stream_io os fd inp outp \<longleftrightarrow>
    (\<forall>w n. 0 < n \<longrightarrow> (\<exists>k w'. os (Read fd n) w = ((int k, take k (inp w)), w') \<and> k \<le> n \<and> k \<le> length (inp w)
       \<and> (inp w \<noteq> [] \<longrightarrow> 0 < k) \<and> inp w' = drop k (inp w) \<and> outp w' = outp w)) \<and>
    (\<forall>w bs. \<exists>d w'. os (Write 1 bs) w = ((int (length bs), d), w') \<and> outp w' = outp w @ bs \<and> inp w' = inp w)"

lemma lines_acc_append:
  "lines_acc l (a @ b) = (let (ls, t) = lines_acc l a; (ms, u) = lines_acc t b in (ls @ ms, u))"
  by (induction l a rule: lines_acc.induct) (auto simp: Let_def split: prod.splits)

lemma lines_acc_noline: "10 \<notin> set s \<Longrightarrow> lines_acc l s = ([], l @ s)"
  by (induction l s rule: lines_acc.induct) auto

lemma lines_acc_tail: "10 \<notin> set l \<Longrightarrow> 10 \<notin> set (snd (lines_acc l s))"
  by (induction l s rule: lines_acc.induct) auto

lemma lines_acc_bytes: "set (snd (lines_acc l s)) \<subseteq> set l \<union> set s"
  by (induction l s rule: lines_acc.induct) auto

lemma strchr_u_Some: "strchr_u s c = Some q \<Longrightarrow> c \<notin> set (take q s) \<and> q < length s \<and> s = take q s @ c # drop (q + 1) s"
  by (induction s arbitrary: q) (auto split: if_splits)

lemma grep_lines_prints:
  assumes "stream_io os fd inp outp" "0 \<notin> set p"
  shows "\<exists>w'. grep_lines os pat p w = (URet (snd (lines_acc [] p)), w')
    \<and> outp w' = outp w @ selected pat (fst (lines_acc [] p)) \<and> inp w' = inp w"
  using assms(2)
proof (induction p arbitrary: w rule: length_induct)
  case (1 p)
  have c: "cstring p = p" using 1(2) by (auto simp: cstring_def takeWhile_eq_all_conv)
  show ?case
  proof (cases "strchr_u p 10")
    case None
    then have "10 \<notin> set p" using strchr_u_None by metis
    then show ?thesis
      by (subst grep_lines.simps) (simp add: c None user_simps(1) lines_acc_noline selected_def)
  next
    case (Some q)
    note q = strchr_u_Some [OF Some]
    let ?l = "take q p" and ?r = "drop (q + 1) p"
    have "lines_acc [] p = lines_acc [] (?l @ 10 # ?r)" using q by simp
    then have l: "lines_acc [] p = apfst (Cons ?l) (lines_acc [] ?r)"
      using lines_acc_noline [of ?l "[]"] q unfolding lines_acc_append by (auto simp: Let_def apfst_def split: prod.splits)
    have tk: "take (q + 1) p = ?l @ [10]" using q by (metis append_eq_conv_conj append_Cons append_Nil append_assoc length_append_singleton Suc_eq_plus1 length_take min.absorb4)
    obtain w1 where w1: "(if match pat ?l then uthn (ucall os (Write 1 (take (q + 1) p))) (uret ()) else uret ()) w = (URet (), w1)"
      "outp w1 = outp w @ (if match pat ?l then ?l @ [10] else [])" "inp w1 = inp w"
    proof (cases "match pat ?l")
      case True
      obtain d w' where "os (Write 1 (take (q + 1) p)) w = ((int (length (take (q + 1) p)), d), w')"
        "outp w' = outp w @ take (q + 1) p" "inp w' = inp w" using assms(1) unfolding stream_io_def by blast
      with True tk that [of w'] show ?thesis by (simp add: user_simps)
    next
      case False
      then show ?thesis using that [of w] by (simp add: user_simps)
    qed
    have "length ?r < length p" "0 \<notin> set ?r" using q 1(2) by (auto dest: in_set_dropD)
    with 1(1) obtain w2 where w2: "grep_lines os pat ?r w1 = (URet (snd (lines_acc [] ?r)), w2)"
      "outp w2 = outp w1 @ selected pat (fst (lines_acc [] ?r))" "inp w2 = inp w1" by blast
    have "grep_lines os pat p w = grep_lines os pat ?r w1"
      by (subst grep_lines.simps) (simp add: c Some user_simps(2,3) w1(1))
    with w1(2,3) w2 l show ?thesis by (auto simp: selected_def)
  qed
qed

lemma grep_loop_prints:
  assumes io: "stream_io os fd inp outp"
  shows "length (inp w) < fuel \<Longrightarrow> 0 \<notin> set rest \<union> set (inp w) \<Longrightarrow> 10 \<notin> set rest \<Longrightarrow>
     \<forall>n \<le> length (inp w). length (snd (lines_acc rest (take n (inp w)))) \<le> 1022 \<Longrightarrow>
     \<exists>w'. grep_loop fuel os pat fd rest w = (URet (), w') \<and> outp w' = outp w @ selected pat (fst (lines_acc rest (inp w)))"
proof (induction fuel arbitrary: rest w)
  case (Suc fuel)
  have r: "length rest \<le> 1022" using Suc.prems(4) by (auto dest: spec [of _ 0])
  then have "0 < 1024 - length rest - 1" by simp
  with io obtain k w1 where k: "os (Read fd (1024 - length rest - 1)) w = ((int k, take k (inp w)), w1)" "k \<le> length (inp w)"
    "inp w \<noteq> [] \<longrightarrow> 0 < k" "inp w1 = drop k (inp w)" "outp w1 = outp w"
    unfolding stream_io_def by blast
  show ?case
  proof (cases "k = 0")
    case True
    then show ?thesis using k by (auto simp: user_simps(1,2,5) selected_def)
  next
    case False
    let ?d = "take k (inp w)" and ?i = "drop k (inp w)"
    let ?rest = "snd (lines_acc rest ?d)"
    have l: "lines_acc [] (rest @ ?d) = lines_acc rest ?d"
      using lines_acc_noline [OF Suc.prems(3), of "[]"] unfolding lines_acc_append by (simp split: prod.splits)
    have "0 \<notin> set (rest @ ?d)" using Suc.prems(2) by (auto dest: in_set_takeD)
    from grep_lines_prints [OF io this, of pat w1] obtain w2 where w2: "grep_lines os pat (rest @ ?d) w1 = (URet ?rest, w2)"
      "outp w2 = outp w1 @ selected pat (fst (lines_acc rest ?d))" "inp w2 = inp w1" unfolding l by blast
    have ap: "lines_acc rest (?d @ s) = (fst (lines_acc rest ?d) @ fst (lines_acc ?rest s), snd (lines_acc ?rest s))" for s
      by (simp add: lines_acc_append Let_def split: prod.splits)
    have run: "grep_loop (Suc fuel) os pat fd rest w = grep_loop fuel os pat fd ?rest w2"
      using False k(1,2) w2(1) by (simp add: user_simps(2,5))
    have "length (snd (lines_acc ?rest (take n ?i))) \<le> 1022" if "n \<le> length ?i" for n
    proof -
      have "take (k + n) (inp w) = ?d @ take n ?i" by (simp add: take_add)
      then show ?thesis using Suc.prems(4) [rule_format, of "k + n"] that k(2) ap [of "take n ?i"] by simp
    qed
    moreover have "0 \<notin> set ?rest \<union> set ?i" "10 \<notin> set ?rest"
      using Suc.prems(2,3) lines_acc_bytes [of rest ?d] lines_acc_tail by (auto dest: in_set_takeD in_set_dropD)
    moreover have "length ?i < fuel" using Suc.prems(1) False k(2) by simp
    ultimately obtain w3 where "grep_loop fuel os pat fd ?rest w2 = (URet (), w3)"
      "outp w3 = outp w2 @ selected pat (fst (lines_acc ?rest ?i))"
      using Suc.IH [of w2 ?rest] w2(3) k(4) by auto
    moreover have "lines_acc rest (inp w) = lines_acc rest (?d @ ?i)" by simp
    ultimately show ?thesis using run w2(2) k(5) ap [of ?i] by (simp add: selected_def)
  qed
qed simp

text \<open>C35: \<open>grep\<close> prints exactly the lines of its input that match the pattern, in order and each with its newline,
  however the reads cut the input into pieces, and ends after at most one read more than there are bytes. The input
  has no null byte and no line, terminated or not, of more than 1022 bytes.\<close>

theorem grep_prints_matching_lines:
  assumes "stream_io os fd inp outp" "0 \<notin> set (inp w)" "length (inp w) < fuel"
    "\<forall>n \<le> length (inp w). length (snd (lines_acc [] (take n (inp w)))) \<le> 1022"
  shows "\<exists>w'. grep fuel os pat fd w = (URet (), w') \<and> outp w' = outp w @ selected pat (fst (lines_acc [] (inp w)))"
  using grep_loop_prints [OF assms(1,3), of "[]" pat] assms(2,4) by (simp add: grep_def)

definition pair_os :: "(byte list \<times> byte list) os" where
  "pair_os q w = (case q of
     Read fd n \<Rightarrow> ((int (length (take n (fst w))), take n (fst w)), (drop n (fst w), snd w))
   | Write fd bs \<Rightarrow> ((int (length bs), []), (fst w, snd w @ bs))
   | _ \<Rightarrow> ((- 1, []), w))"

lemma pair_os_stream: "stream_io pair_os fd fst snd"
  unfolding stream_io_def
proof (intro conjI allI impI)
  fix w :: "byte list \<times> byte list" and n :: nat
  assume "0 < n"
  then show "\<exists>k w'. pair_os (Read fd n) w = ((int k, take k (fst w)), w') \<and> k \<le> n \<and> k \<le> length (fst w)
       \<and> (fst w \<noteq> [] \<longrightarrow> 0 < k) \<and> fst w' = drop k (fst w) \<and> snd w' = snd w"
    by (intro exI [of _ "min n (length (fst w))"] exI [of _ "(drop n (fst w), snd w)"])
      (auto simp: pair_os_def min_def)
qed (simp add: pair_os_def)

theorem grep_prints_matching_lines_witness:
  "\<exists>w'. grep 20 pair_os (str ''b.'') 0 (str ''abc'' @ 10 # str ''xyz'' @ [10], []) = (URet (), w') \<and> snd w' = str ''abc'' @ [10]"
proof -
  let ?s = "str ''abc'' @ 10 # str ''xyz'' @ [10]"
  have "lines_acc [] ?s = ([str ''abc'', str ''xyz''], [])" "match (str ''b.'') (str ''abc'')" "\<not> match (str ''b.'') (str ''xyz'')"
    "0 \<notin> set ?s" by code_simp+
  moreover have "length (snd (lines_acc [] (take n ?s))) \<le> 1022" for n
  proof -
    have "length (snd (lines_acc l s)) \<le> length l + length s" for l s :: "byte list"
      by (induction l s rule: lines_acc.induct) auto
    from this [of "[]" "take n ?s"] show ?thesis by (simp add: str_def)
  qed
  ultimately show ?thesis
    using grep_prints_matching_lines [OF pair_os_stream, of "(?s, [])" 20 "str ''b.''" 0] by (simp add: selected_def str_def)
qed

end
