(* ===== verification/Umalloc.thy ===== *)
theory Umalloc
  imports Prelude
begin

text \<open>
  user/umalloc.c: the allocator of the user programs. A header is 16 bytes of memory, the link in the first eight and
  the size, in units of 16 bytes, in the next four. The links form a circle through all free blocks, ordered by address,
  which begins with the static header \<open>base\<close>. The address of \<open>base\<close> is an argument, and so is \<open>sbrk\<close>, which
  extends the data segment of the process: it gives the address of the new memory or -1. The loops follow links
  of the memory: a circle that is broken may never end, which is the value \<open>None\<close>.
\<close>

section \<open>The code\<close>

record heap =
  hmem :: bytes
  freep :: u64

abbreviation HDR :: u64 where "HDR \<equiv> 16"

definition s_ptr :: "heap \<Rightarrow> u64 \<Rightarrow> u64" where
  "s_ptr h p = ld64 (hmem h) (unat p)"

definition s_size :: "heap \<Rightarrow> u64 \<Rightarrow> u32" where
  "s_size h p = ld32 (hmem h) (unat (p + 8))"

definition set_ptr :: "u64 \<Rightarrow> u64 \<Rightarrow> heap \<Rightarrow> heap" where
  "set_ptr p v h = h\<lparr>hmem := st64 (hmem h) (unat p) v\<rparr>"

definition set_size :: "u64 \<Rightarrow> u32 \<Rightarrow> heap \<Rightarrow> heap" where
  "set_size p v h = h\<lparr>hmem := st32 (hmem h) (unat (p + 8)) v\<rparr>"

text \<open>The address \<open>n\<close> headers after \<open>p\<close>.\<close>

definition plus_hdr :: "u64 \<Rightarrow> u32 \<Rightarrow> u64" where
  "plus_hdr p n = p + HDR * ucast n"

partial_function (option) free_scan :: "heap \<Rightarrow> u64 \<Rightarrow> u64 \<Rightarrow> u64 option" where
  "free_scan h bp p =
     (if p < bp \<and> bp < s_ptr h p then Some p
      else if s_ptr h p \<le> p \<and> (p < bp \<or> bp < s_ptr h p) then Some p
      else free_scan h bp (s_ptr h p))"

definition free_link :: "u64 \<Rightarrow> u64 \<Rightarrow> heap \<Rightarrow> heap" where
  "free_link bp p h =
     (let h = (if plus_hdr bp (s_size h bp) = s_ptr h p
               then (let h = set_size bp (s_size h bp + s_size h (s_ptr h p)) h in set_ptr bp (s_ptr h (s_ptr h p)) h)
               else set_ptr bp (s_ptr h p) h);
          h = (if plus_hdr p (s_size h p) = bp
               then (let h = set_size p (s_size h p + s_size h bp) h in set_ptr p (s_ptr h bp) h)
               else set_ptr p bp h)
      in h\<lparr>freep := p\<rparr>)"

definition free :: "u64 \<Rightarrow> heap \<Rightarrow> heap option" where
  "free ap h = (let bp = ap - HDR in map_option (\<lambda>p. free_link bp p h) (free_scan h bp (freep h)))"

definition morecore :: "(u32 \<Rightarrow> 'w \<Rightarrow> u64 \<times> 'w) \<Rightarrow> u32 \<Rightarrow> heap \<Rightarrow> 'w \<Rightarrow> (u64 \<times> heap \<times> 'w) option" where
  "morecore sbrk nu h w =
     (let nu = (if nu < 4096 then 4096 else nu); (p, w) = sbrk (nu * 16) w in
      if p = - 1 then Some (0, h, w)
      else case free (p + HDR) (set_size p nu h) of
             None \<Rightarrow> None
           | Some h \<Rightarrow> Some (freep h, h, w))"

text \<open>Taking \<open>nunits\<close> from the free block at \<open>p\<close>, which follows \<open>prevp\<close>.\<close>

definition carve :: "u64 \<Rightarrow> u64 \<Rightarrow> u32 \<Rightarrow> heap \<Rightarrow> u64 \<times> heap" where
  "carve prevp p nunits h =
     (let (p, h) =
        (if s_size h p = nunits then (p, set_ptr prevp (s_ptr h p) h)
         else let h = set_size p (s_size h p - nunits) h; p = plus_hdr p (s_size h p) in (p, set_size p nunits h))
      in (p + HDR, h\<lparr>freep := prevp\<rparr>))"

partial_function (option) malloc_scan ::
  "(u32 \<Rightarrow> 'w \<Rightarrow> u64 \<times> 'w) \<Rightarrow> u32 \<Rightarrow> u64 \<Rightarrow> u64 \<Rightarrow> heap \<Rightarrow> 'w \<Rightarrow> (u64 \<times> heap \<times> 'w) option" where
  "malloc_scan sbrk nunits prevp p h w =
     (if s_size h p \<ge> nunits then (let (r, h) = carve prevp p nunits h in Some (r, h, w))
      else if p = freep h then
        (case morecore sbrk nunits h w of
           None \<Rightarrow> None
         | Some (p, h, w) \<Rightarrow> if p = 0 then Some (0, h, w) else malloc_scan sbrk nunits p (s_ptr h p) h w)
      else malloc_scan sbrk nunits p (s_ptr h p) h w)"

definition nunits_of :: "u32 \<Rightarrow> u32" where
  "nunits_of nbytes = ucast ((ucast nbytes + 16 - 1 :: u64) div 16 + 1)"

definition malloc_init :: "u64 \<Rightarrow> heap \<Rightarrow> heap" where
  "malloc_init base h = (if freep h = 0 then set_size base 0 (set_ptr base base (h\<lparr>freep := base\<rparr>)) else h)"

definition malloc :: "u64 \<Rightarrow> (u32 \<Rightarrow> 'w \<Rightarrow> u64 \<times> 'w) \<Rightarrow> u32 \<Rightarrow> heap \<Rightarrow> 'w \<Rightarrow> (u64 \<times> heap \<times> 'w) option" where
  "malloc base sbrk nbytes h w =
     (let nunits = nunits_of nbytes; h = malloc_init base h; prevp = freep h
      in malloc_scan sbrk nunits prevp (s_ptr h prevp) h w)"

section \<open>The circle of free blocks\<close>

text \<open>Addresses are below \<open>HLIM\<close>, so that sums of addresses and of sizes do not wrap: a process has at most the
  128 MB of the machine.\<close>

definition HLIM :: nat where
  "HLIM = 2 ^ 36"

definition hdr_at :: "heap \<Rightarrow> nat \<Rightarrow> nat \<Rightarrow> nat \<Rightarrow> bool" where
  "hdr_at h a nx n \<longleftrightarrow> ld64 (hmem h) a = of_nat nx \<and> ld32 (hmem h) (a + 8) = of_nat n"

text \<open>The blocks of a list, each linked to the next and the last to \<open>e\<close>.\<close>

fun chain :: "heap \<Rightarrow> (nat \<times> nat) list \<Rightarrow> nat \<Rightarrow> bool" where
  "chain h [] e = True"
| "chain h ((a, n) # xs) e = (hdr_at h a (case xs of [] \<Rightarrow> e | (b, _) # _ \<Rightarrow> b) n \<and> chain h xs e)"

definition spaced :: "(nat \<times> nat) list \<Rightarrow> bool" where
  "spaced xs \<longleftrightarrow> sorted_wrt (\<lambda>(a, n) (b, m). a + 16 * n < b \<and> a + 16 \<le> b) xs \<and>
    (\<forall>(a, n) \<in> set xs. 0 < a \<and> a + 16 \<le> HLIM \<and> a + 16 * n \<le> HLIM)"

definition free_list :: "heap \<Rightarrow> (nat \<times> nat) list \<Rightarrow> bool" where
  "free_list h xs \<longleftrightarrow> xs \<noteq> [] \<and> snd (hd xs) = 0 \<and> (\<forall>(a, n) \<in> set (tl xs). 0 < n) \<and> spaced xs
    \<and> chain h xs (fst (hd xs)) \<and> freep h \<in> of_nat ` fst ` set xs"

text \<open>The bytes of the free blocks, and those the allocator may change: the free blocks and the header \<open>base\<close>.\<close>

definition room :: "(nat \<times> nat) list \<Rightarrow> nat set" where
  "room xs = (\<Union>(a, n) \<in> set xs. {a..<a + 16 * n})"

definition own :: "(nat \<times> nat) list \<Rightarrow> nat set" where
  "own xs = room xs \<union> {fst (hd xs)..<fst (hd xs) + 16}"

lemma addr_lim: "a \<le> HLIM \<Longrightarrow> unat (of_nat a :: u64) = a" "a \<le> HLIM \<Longrightarrow> b \<le> HLIM \<Longrightarrow> (of_nat a :: u64) = of_nat b \<longleftrightarrow> a = b"
  "a \<le> HLIM \<Longrightarrow> b \<le> HLIM \<Longrightarrow> (of_nat a :: u64) < of_nat b \<longleftrightarrow> a < b"
  "a \<le> HLIM \<Longrightarrow> b \<le> HLIM \<Longrightarrow> (of_nat a :: u64) \<le> of_nat b \<longleftrightarrow> a \<le> b"
  by (simp_all add: HLIM_def unat_of_nat word_less_nat_alt word_le_nat_alt word_unat_eq_iff)

lemma size_lim: "0 < a \<Longrightarrow> a + 16 * n \<le> HLIM \<Longrightarrow> unat (of_nat n :: u32) = n"
  by (simp add: HLIM_def unat_of_nat)

lemma plus_hdr_nat:
  assumes "0 < a" "a + 16 * n \<le> HLIM"
  shows "plus_hdr (of_nat a) (of_nat n) = of_nat (a + 16 * n)"
proof -
  have "(ucast (of_nat n :: u32) :: u64) = of_nat n"
    using size_lim [OF assms] by (simp add: word_unat_eq_iff unsigned_ucast_eq unsigned_of_nat del: word_eq_iff_unsigned)
  then show ?thesis by (simp add: plus_hdr_def)
qed

lemma hdr_at_read:
  assumes "hdr_at h a nx n" "a + 16 \<le> HLIM"
  shows "s_ptr h (of_nat a) = of_nat nx" "s_size h (of_nat a) = of_nat n"
  using assms addr_lim(1) [of a] addr_lim(1) [of "a + 8"] by (auto simp: hdr_at_def s_ptr_def s_size_def)

lemma ld64_st32_other [bytes_simps]: "b + 8 \<le> a \<or> a + 4 \<le> b \<Longrightarrow> ld64 (st32 f a v) b = ld64 f b"
  "b + 4 \<le> a \<or> a + 8 \<le> b \<Longrightarrow> ld32 (st64 f a w) b = ld32 f b"
  by (simp_all add: ld64_def st32_def ld32_def st64_def le_load_le_store_other)

lemma set_hdr:
  assumes "a + 16 \<le> HLIM"
  shows "hdr_at h a x n \<Longrightarrow> hdr_at (set_ptr (of_nat a) (of_nat nx) h) a nx n"
    and "hdr_at h a nx x \<Longrightarrow> hdr_at (set_size (of_nat a) (of_nat n) h) a nx n"
    and "b + 16 \<le> a \<or> a + 16 \<le> b \<Longrightarrow> hdr_at (set_ptr (of_nat a) v h) b y m = hdr_at h b y m"
    and "b + 16 \<le> a \<or> a + 16 \<le> b \<Longrightarrow> hdr_at (set_size (of_nat a) k h) b y m = hdr_at h b y m"
  using addr_lim(1) [of a] addr_lim(1) [of "a + 8"] assms
  by (auto simp: hdr_at_def set_ptr_def set_size_def ld64_st64_other ld64_st32_other ld32_st32_other)

lemma chain_append:
  "chain h (xs @ ys) e \<longleftrightarrow> chain h xs (case ys of [] \<Rightarrow> e | (b, _) # _ \<Rightarrow> b) \<and> chain h ys e"
  by (induction h xs e rule: chain.induct) (auto split: list.splits)

lemma chain_cong:
  "(\<And>a n y. (a, n) \<in> set xs \<Longrightarrow> hdr_at h' a y n = hdr_at h a y n) \<Longrightarrow> chain h' xs e = chain h xs e"
  by (induction h xs e rule: chain.induct) (auto split: list.splits)

lemma chain_hdr: "chain h xs e \<Longrightarrow> (a, n) \<in> set xs \<Longrightarrow> \<exists>y. hdr_at h a y n"
  by (induction h xs e rule: chain.induct) auto

lemma spaced_append:
  "spaced (xs @ ys) \<longleftrightarrow> spaced xs \<and> spaced ys \<and> (\<forall>(a, n) \<in> set xs. \<forall>(b, m) \<in> set ys. a + 16 * n < b \<and> a + 16 \<le> b)"
  by (auto simp: spaced_def sorted_wrt_append)

lemma spaced_Cons:
  "spaced ((a, n) # xs) \<longleftrightarrow> spaced xs \<and> 0 < a \<and> a + 16 \<le> HLIM \<and> a + 16 * n \<le> HLIM
    \<and> (\<forall>(b, m) \<in> set xs. a + 16 * n < b \<and> a + 16 \<le> b)"
  by (auto simp: spaced_def)

lemma spaced_in: "spaced xs \<Longrightarrow> (a, n) \<in> set xs \<Longrightarrow> 0 < a \<and> a + 16 \<le> HLIM \<and> a + 16 * n \<le> HLIM"
  by (auto simp: spaced_def)

text \<open>The search of \<open>free\<close> for the predecessor \<open>a\<close> of the block at \<open>b\<close>.\<close>

lemma scan_up:
  assumes "chain h (seg @ (a, n) # vs) e" "spaced (seg @ (a, n) # vs)" "a < b" "b \<le> HLIM" "seg \<noteq> []"
  shows "free_scan h (of_nat b) (of_nat (fst (hd seg))) = free_scan h (of_nat b) (of_nat a)"
  using assms
proof (induction seg)
  case (Cons x seg)
  obtain c k where x: "x = (c, k)" by (cases x)
  let ?d = "case seg @ (a, n) # vs of [] \<Rightarrow> e | (y, _) # _ \<Rightarrow> y"
  have sp: "spaced (seg @ (a, n) # vs)" "0 < c" "c + 16 \<le> HLIM" "\<forall>(y, m) \<in> set (seg @ (a, n) # vs). c + 16 \<le> y"
    using Cons.prems(2) x by (auto simp: spaced_Cons)
  have h: "hdr_at h c ?d k" and ch: "chain h (seg @ (a, n) # vs) e" using Cons.prems(1) x by (simp_all split: list.splits)
  have d: "?d = (if seg = [] then a else fst (hd seg))" by (cases seg) auto
  have "c < ?d" using sp(4) unfolding d by (cases seg) auto
  have "?d \<le> a" using sp(1) unfolding d by (cases seg) (auto simp: spaced_Cons spaced_append)
  have dl: "?d \<le> HLIM" using \<open>?d \<le> a\<close> Cons.prems(3,4) by simp
  have "free_scan h (of_nat b) (of_nat c) = free_scan h (of_nat b) (of_nat ?d)"
    using \<open>c < ?d\<close> \<open>?d \<le> a\<close> Cons.prems(3,4) sp(3) dl
    by (subst free_scan.simps) (simp only: hdr_at_read(1) [OF h sp(3)], simp add: addr_lim)
  also have "\<dots> = free_scan h (of_nat b) (of_nat a)"
    using Cons.IH [OF ch sp(1) Cons.prems(3,4)] unfolding d by simp
  finally show ?case using x by simp
qed simp

lemma scan_over:
  assumes "chain h vs e" "spaced vs" "\<forall>(c, k) \<in> set vs. b < c" "e < b" "b \<le> HLIM" "vs \<noteq> []"
  shows "free_scan h (of_nat b) (of_nat (fst (hd vs))) = free_scan h (of_nat b) (of_nat e)"
  using assms
proof (induction vs)
  case (Cons x vs)
  obtain c k where x: "x = (c, k)" by (cases x)
  have sp: "spaced vs" "c + 16 \<le> HLIM" "\<forall>(y, m) \<in> set vs. c + 16 \<le> y" using Cons.prems(2) x by (auto simp: spaced_Cons)
  have h: "hdr_at h c (case vs of [] \<Rightarrow> e | (y, _) # _ \<Rightarrow> y) k" using Cons.prems(1) x by simp
  show ?case
  proof (cases vs)
    case Nil
    then show ?thesis using hdr_at_read(1) [OF h sp(2)] Cons.prems x sp(2)
      by (subst free_scan.simps) (simp add: addr_lim)
  next
    case Z: (Cons z zs)
    obtain d m where z: "z = (d, m)" by (cases z)
    have "c < d" "d \<le> HLIM" using sp Z z by (auto simp: spaced_Cons)
    then have "free_scan h (of_nat b) (of_nat c) = free_scan h (of_nat b) (of_nat d)"
      using hdr_at_read(1) [OF h sp(2)] Cons.prems(3,5) Z z x sp(2)
      by (subst free_scan.simps) (simp add: addr_lim)
    also have "\<dots> = free_scan h (of_nat b) (of_nat e)" using Cons.IH Cons.prems sp(1) Z z x by simp
    finally show ?thesis using x by simp
  qed
qed simp

lemma free_list_split:
  assumes "free_list h (us @ (a, n) # vs)"
  shows "chain h us a" "hdr_at h a (case vs of [] \<Rightarrow> fst (hd (us @ [(a, n)])) | (c, _) # _ \<Rightarrow> c) n"
    "chain h vs (fst (hd (us @ [(a, n)])))" "spaced us" "spaced vs" "0 < a" "a + 16 \<le> HLIM" "a + 16 * n \<le> HLIM"
    "\<forall>(c, k) \<in> set us. c + 16 * k < a \<and> c + 16 \<le> a" "\<forall>(c, k) \<in> set vs. a + 16 * n < c \<and> a + 16 \<le> c"
    "\<forall>(c, k) \<in> set us. \<forall>(d, l) \<in> set vs. c + 16 * k < d \<and> c + 16 \<le> d" "fst (hd (us @ [(a, n)])) \<le> a" "\<forall>(c, k) \<in> set vs. 0 < k"
    "us = [] \<longleftrightarrow> n = 0"
proof -
  let ?base = "fst (hd (us @ [(a, n)]))"
  have hd: "fst (hd (us @ (a, n) # vs)) = ?base" by (cases us) auto
  have c: "chain h us a \<and> chain h ((a, n) # vs) ?base"
    using assms unfolding free_list_def hd chain_append by simp
  then show "chain h us a" "hdr_at h a (case vs of [] \<Rightarrow> ?base | (c, _) # _ \<Rightarrow> c) n" "chain h vs ?base" by simp_all
  have s: "spaced us" "spaced ((a, n) # vs)"
    "\<forall>(c, k) \<in> set us. \<forall>(d, l) \<in> set ((a, n) # vs). c + 16 * k < d \<and> c + 16 \<le> d"
    using assms unfolding free_list_def spaced_append by blast+
  then show "spaced us" by blast
  show "spaced vs" "0 < a" "a + 16 \<le> HLIM" "a + 16 * n \<le> HLIM" "\<forall>(c, k) \<in> set vs. a + 16 * n < c \<and> a + 16 \<le> c"
    using s(2) unfolding spaced_Cons by blast+
  show u: "\<forall>(c, k) \<in> set us. c + 16 * k < a \<and> c + 16 \<le> a" using s(3) by fastforce
  show "\<forall>(c, k) \<in> set us. \<forall>(d, l) \<in> set vs. c + 16 * k < d \<and> c + 16 \<le> d" using s(3) by fastforce
  show "?base \<le> a" using u by (cases us) auto
  show "\<forall>(c, k) \<in> set vs. 0 < k" "us = [] \<longleftrightarrow> n = 0" using assms unfolding free_list_def by (cases us; auto)+
qed

lemma free_scan_finds:
  assumes f: "free_list h (us @ (a, n) # vs)" and b: "a < b" "b \<le> HLIM" "\<forall>(c, k) \<in> set vs. b < c"
  shows "free_scan h (of_nat b) (freep h) = Some (of_nat a)"
proof -
  note sp = free_list_split [OF f]
  let ?base = "fst (hd (us @ [(a, n)]))"
  have here: "free_scan h (of_nat b) (of_nat a) = Some (of_nat a)"
  proof (cases vs)
    case Nil
    then show ?thesis using hdr_at_read(1) [OF sp(2,7)] b sp(7,12)
      by (subst free_scan.simps) (simp add: addr_lim)
  next
    case (Cons z zs)
    obtain c k where z: "z = (c, k)" by (cases z)
    then have "b < c" "c \<le> HLIM" using b(3) Cons spaced_in [OF sp(5), of c k] by auto
    then show ?thesis using hdr_at_read(1) [OF sp(2,7)] b(1,2) sp(7) Cons z
      by (subst free_scan.simps) (simp add: addr_lim)
  qed
  have up: "free_scan h (of_nat b) (of_nat (fst (hd seg))) = Some (of_nat a)" if "us = u1 @ seg" "seg \<noteq> []" for u1 seg
  proof -
    have "chain h (u1 @ seg @ (a, n) # vs) (fst (hd (us @ (a, n) # vs)))" "spaced (u1 @ seg @ (a, n) # vs)"
      using f that(1) unfolding free_list_def by auto
    then have "chain h (seg @ (a, n) # vs) (fst (hd (us @ (a, n) # vs)))" "spaced (seg @ (a, n) # vs)"
      unfolding chain_append [of h u1] spaced_append [of u1] by blast+
    from scan_up [OF this b(1,2) that(2)] here show ?thesis by simp
  qed
  have "freep h \<in> of_nat ` fst ` set (us @ (a, n) # vs)" using f by (simp only: free_list_def)
  then obtain x where x: "freep h = of_nat (fst x)" "x \<in> set (us @ (a, n) # vs)" by blast
  obtain g m where "x = (g, m)" by (cases x)
  with x have g: "freep h = of_nat g" "(g, m) \<in> set (us @ (a, n) # vs)" by simp_all
  then consider "(g, m) \<in> set us" | "g = a" | "(g, m) \<in> set vs" by auto
  then show ?thesis
  proof cases
    case 1
    then obtain u1 u2 where "us = u1 @ (g, m) # u2" by (meson split_list)
    then show ?thesis using up [of u1 "(g, m) # u2"] g(1) by simp
  next
    case 2
    then show ?thesis using here g(1) by simp
  next
    case 3
    then obtain v1 v2 where v: "vs = v1 @ (g, m) # v2" by (meson split_list)
    then have "free_scan h (of_nat b) (of_nat g) = free_scan h (of_nat b) (of_nat ?base)"
      using scan_over [of h "(g, m) # v2" ?base b] sp(3,5,12) b by (simp add: chain_append spaced_append)
    also have "\<dots> = Some (of_nat a)" using up [of "[]" us] here by (cases us) auto
    finally show ?thesis using g(1) by simp
  qed
qed

text \<open>The block at \<open>b\<close> of \<open>m\<close> units, which lies between the free blocks \<open>a\<close> and \<open>vs\<close>.\<close>

definition between :: "nat \<Rightarrow> nat \<Rightarrow> nat \<times> nat \<Rightarrow> (nat \<times> nat) list \<Rightarrow> bool" where
  "between b m x vs \<longleftrightarrow> fst x + 16 \<le> b \<and> fst x + 16 * snd x \<le> b \<and> 0 < m \<and> b + 16 * m \<le> HLIM \<and> (\<forall>(c, k) \<in> set vs. b + 16 * m \<le> c)"

text \<open>The first half of \<open>free_link\<close>: the block absorbs the one after it, or is linked to it.\<close>

lemma join_next:
  assumes f: "free_list h (us @ (a, n) # vs)" and b: "between b m (a, n) vs" "hdr_at h b y m"
    and h': "h' = (if plus_hdr (of_nat b) (s_size h (of_nat b)) = s_ptr h (of_nat a)
         then (let h = set_size (of_nat b) (s_size h (of_nat b) + s_size h (s_ptr h (of_nat a))) h
               in set_ptr (of_nat b) (s_ptr h (s_ptr h (of_nat a))) h)
         else set_ptr (of_nat b) (s_ptr h (of_nat a)) h)"
  shows "\<exists>m1 vs1. hdr_at h' b (case vs1 of [] \<Rightarrow> fst (hd (us @ [(a, n)])) | (c, _) # _ \<Rightarrow> c) m1 \<and> chain h' us a
     \<and> (\<exists>y. hdr_at h' a y n)
     \<and> chain h' vs1 (fst (hd (us @ [(a, n)]))) \<and> set vs1 \<subseteq> set vs \<and> spaced ((b, m1) # vs1) \<and> m \<le> m1
     \<and> room ((b, m1) # vs1) = room vs \<union> {b..<b + 16 * m}"
proof -
  note sp = free_list_split [OF f]
  let ?base = "fst (hd (us @ [(a, n)]))"
  let ?nx = "case vs of [] \<Rightarrow> ?base | (c, _) # _ \<Rightarrow> c"
  have bb: "a + 16 \<le> b" "a + 16 * n \<le> b" "0 < m" "b + 16 * m \<le> HLIM" "b + 16 \<le> HLIM" "\<And>c k. (c, k) \<in> set vs \<Longrightarrow> b + 16 * m \<le> c"
    using b(1) by (auto simp: between_def)
  have apart: "c + 16 \<le> b \<or> b + 16 \<le> c" if "(c, k) \<in> set (us @ (a, n) # vs)" for c k
    using that bb(1,3) bb(6) [of c k] sp(9) by fastforce
  have keep: "hdr_at (set_ptr (of_nat b) v g) c y l = hdr_at g c y l" "hdr_at (set_size (of_nat b) w g) c y l = hdr_at g c y l"
    if "(c, k) \<in> set (us @ (a, n) # vs)" for c k y l v w g
    using set_hdr(3,4) [OF bb(5) apart [OF that]] by simp_all
  have chains: "chain (set_ptr (of_nat b) v g) xs e = chain g xs e" "chain (set_size (of_nat b) w g) xs e = chain g xs e"
    if "set xs \<subseteq> set (us @ (a, n) # vs)" for xs v w g e
    by (rule chain_cong, rule keep, rule subsetD [OF that], assumption)+
  have sub: "set us \<subseteq> set (us @ (a, n) # vs)" "set vs \<subseteq> set (us @ (a, n) # vs)" by auto
  have rb: "s_size h (of_nat b) = of_nat m" "s_ptr h (of_nat a) = of_nat ?nx"
    using hdr_at_read(2) [OF b(2) bb(5)] hdr_at_read(1) [OF sp(2,7)] by simp_all
  have b0: "0 < b" using bb(1) by simp
  have nx: "?nx \<le> HLIM" using sp(12,7) spaced_in [OF sp(5), of "fst (hd vs)" "snd (hd vs)"] by (cases vs) auto
  have cond: "plus_hdr (of_nat b) (s_size h (of_nat b)) = s_ptr h (of_nat a) \<longleftrightarrow> b + 16 * m = ?nx"
    unfolding rb plus_hdr_nat [OF b0 bb(4)] using addr_lim(2) [OF bb(4) nx] by simp
  have sp_b: "spaced ((b, m) # vs)" if "\<forall>(c, k) \<in> set vs. b + 16 * m < c"
    using that sp(5) b0 bb(3,4,5) by (auto simp: spaced_Cons)
  show ?thesis
  proof (cases "b + 16 * m = ?nx")
    case False
    then have h1: "h' = set_ptr (of_nat b) (of_nat ?nx) h" using h' cond rb(2) by simp
    have "b + 16 * m < c" if "(c, k) \<in> set vs" for c k
    proof (cases vs)
      case (Cons z zs)
      then have "c = ?nx \<or> ?nx < c" "b + 16 * m \<le> ?nx" using that sp(5) bb(6) by (cases z; auto simp: spaced_Cons)+
      with False show ?thesis by linarith
    qed (use that in simp)
    then have "spaced ((b, m) # vs)" using sp_b by blast
    moreover have "hdr_at h' b ?nx m" unfolding h1 by (rule set_hdr(1) [OF bb(5) b(2)])
    moreover have "chain h' us a" "chain h' vs ?base" "hdr_at h' a ?nx n"
      unfolding h1 chains(1) [OF sub(1)] chains(1) [OF sub(2)] using sp(1-3) keep(1) [of a n] by simp_all
    ultimately show ?thesis by (intro exI [of _ m] exI [of _ vs]) (auto simp: room_def)
  next
    case True
    have "?base < b" using sp(12) bb(1) by simp
    then obtain c k vs' where vs: "vs = (c, k) # vs'" using True by (cases vs) auto
    let ?nx' = "case vs' of [] \<Rightarrow> ?base | (d, _) # _ \<Rightarrow> d"
    have c: "hdr_at h c ?nx' k" "c + 16 \<le> HLIM" "b + 16 * m = c" "c + 16 * k \<le> HLIM" "spaced vs'"
      "\<forall>(d, l) \<in> set vs'. c + 16 * k < d \<and> c + 16 \<le> d"
      using sp(3,5) True unfolding vs by (auto simp: spaced_Cons)
    let ?h1 = "set_size (of_nat b) (of_nat (m + k)) h"
    have in_c: "(c, k) \<in> set (us @ (a, n) # vs)" "(a, n) \<in> set (us @ (a, n) # vs)" using vs by auto
    have sub3: "set vs' \<subseteq> set (us @ (a, n) # vs)" using vs by auto
    have "s_ptr ?h1 (of_nat a) = of_nat c" "s_ptr ?h1 (of_nat c) = of_nat ?nx'"
      using hdr_at_read(1) [of ?h1 a c n] hdr_at_read(1) [of ?h1 c ?nx' k] keep(2) [OF in_c(1)] keep(2) [OF in_c(2)] c(1,2) sp(2,7) vs
      by simp_all
    then have h1: "h' = set_ptr (of_nat b) (of_nat ?nx') ?h1"
      using h' cond True rb vs hdr_at_read(2) [OF c(1,2)] by (simp add: Let_def)
    have "hdr_at h' b ?nx' (m + k)" unfolding h1 using set_hdr(1,2) [OF bb(5)] b(2) by blast
    moreover have "chain h' us a" "chain h' vs' ?base" "hdr_at h' a c n"
      using sp(1-3) keep [OF in_c(2)] chains [OF sub(1)] chains [OF sub3] vs unfolding h1 by auto
    moreover have "spaced ((b, m + k) # vs')" using c b0 bb(3,5) by (auto simp: spaced_Cons)
    moreover have "{b..<b + 16 * (m + k)} = {c..<c + 16 * k} \<union> {b..<b + 16 * m}" using c(3) by auto
    then have "room ((b, m + k) # vs') = room vs \<union> {b..<b + 16 * m}" by (auto simp: room_def vs)
    ultimately show ?thesis by (intro exI [of _ "m + k"] exI [of _ vs']) (auto simp: vs)
  qed
qed

lemma room_simps: "room [] = {}" "room ((a, n) # xs) = {a..<a + 16 * n} \<union> room xs" "room (xs @ ys) = room xs \<union> room ys"
  by (auto simp: room_def)

lemma set_outside:
  "a + 16 \<le> HLIM \<Longrightarrow> x \<notin> {a..<a + 16} \<Longrightarrow> hmem (set_ptr (of_nat a) v h) x = hmem h x \<and> hmem (set_size (of_nat a) w h) x = hmem h x"
  using addr_lim(1) [of a] addr_lim(1) [of "a + 8"]
  by (auto simp: set_ptr_def set_size_def st64_def st32_def intro!: le_store_outside)

lemma freep_simps [simp]: "hdr_at (h\<lparr>freep := p\<rparr>) a y n = hdr_at h a y n" "chain (h\<lparr>freep := p\<rparr>) xs e = chain h xs e"
proof -
  show "hdr_at (h\<lparr>freep := p\<rparr>) a y n = hdr_at h a y n" for a y n by (simp add: hdr_at_def)
  then show "chain (h\<lparr>freep := p\<rparr>) xs e = chain h xs e" by (intro chain_cong)
qed

lemma free_link_ok:
  assumes f: "free_list h (us @ (a, n) # vs)" and b: "between b m (a, n) vs" "hdr_at h b y m"
  shows "\<exists>xs. free_list (free_link (of_nat b) (of_nat a) h) xs \<and> room xs = room (us @ (a, n) # vs) \<union> {b..<b + 16 * m}
    \<and> fst (hd xs) = fst (hd (us @ (a, n) # vs)) \<and> (\<exists>(c, k) \<in> set xs. m \<le> k)
    \<and> (\<forall>x. x \<notin> {a..<a + 16} \<union> {b..<b + 16} \<longrightarrow> hmem (free_link (of_nat b) (of_nat a) h) x = hmem h x)"
proof -
  note sp = free_list_split [OF f]
  let ?base = "fst (hd (us @ [(a, n)]))"
  define h1 where "h1 = (if plus_hdr (of_nat b) (s_size h (of_nat b)) = s_ptr h (of_nat a)
         then (let h = set_size (of_nat b) (s_size h (of_nat b) + s_size h (s_ptr h (of_nat a))) h
               in set_ptr (of_nat b) (s_ptr h (s_ptr h (of_nat a))) h)
         else set_ptr (of_nat b) (s_ptr h (of_nat a)) h)"
  obtain m1 vs1 y where j: "hdr_at h1 b (case vs1 of [] \<Rightarrow> ?base | (c, _) # _ \<Rightarrow> c) m1" "chain h1 us a" "hdr_at h1 a y n"
    "chain h1 vs1 ?base" "set vs1 \<subseteq> set vs" "spaced ((b, m1) # vs1)" "m \<le> m1" "room ((b, m1) # vs1) = room vs \<union> {b..<b + 16 * m}"
    using join_next [OF f b h1_def] by blast
  let ?nx = "case vs1 of [] \<Rightarrow> ?base | (c, _) # _ \<Rightarrow> c"
  have bb: "a + 16 \<le> b" "a + 16 * n \<le> b" "0 < m" "b + 16 \<le> HLIM" using b(1) by (auto simp: between_def)
  have o1: "hmem h1 x = hmem h x" if "x \<notin> {b..<b + 16}" for x
    using set_outside [OF bb(4) that] unfolding h1_def by (simp add: Let_def)
  have apart: "c + 16 \<le> a \<or> a + 16 \<le> c" if "(c, k) \<in> set us \<union> set ((b, m1) # vs1)" for c k
    using that bb(1) sp(9,10) j(5) by fastforce
  have keep: "hdr_at (set_ptr (of_nat a) v g) c y l = hdr_at g c y l" "hdr_at (set_size (of_nat a) w g) c y l = hdr_at g c y l"
    if "(c, k) \<in> set us \<union> set ((b, m1) # vs1)" for c k y l v w g
    using set_hdr(3,4) [OF sp(7) apart [OF that]] by simp_all
  have chains: "chain (set_ptr (of_nat a) v g) xs e = chain g xs e" "chain (set_size (of_nat a) w g) xs e = chain g xs e"
    if "set xs \<subseteq> set us \<union> set ((b, m1) # vs1)" for xs v w g e
    by (rule chain_cong, rule keep, rule subsetD [OF that], assumption)+
  have sub: "set us \<subseteq> set us \<union> set ((b, m1) # vs1)" "set vs1 \<subseteq> set us \<union> set ((b, m1) # vs1)"
    "(b, m1) \<in> set us \<union> set ((b, m1) # vs1)" by auto
  have base: "fst (hd (us @ (a, n) # zs)) = ?base" "snd (hd (us @ (a, k) # zs)) = 0 \<longleftrightarrow> us = [] \<longrightarrow> k = 0" for zs k
    using f sp(14) unfolding free_list_def by (cases us; auto)+
  have pos: "\<forall>(c, k) \<in> set (tl (us @ [(a, n)])). 0 < k" using f unfolding free_list_def by (cases us) auto
  have cond: "plus_hdr (of_nat a) (s_size h1 (of_nat a)) = of_nat b \<longleftrightarrow> a + 16 * n = b"
    using hdr_at_read(2) [OF j(3) sp(7)] plus_hdr_nat [OF sp(6,8)] addr_lim(2) [OF sp(8), of b] bb(4) by simp
  have spu: "\<forall>(c, k) \<in> set us. \<forall>(d, l) \<in> set ((b, m1) # vs1). c + 16 * k < d \<and> c + 16 \<le> d"
    using sp(9,11) j(5) bb(1,2) by fastforce
  have link: "free_link (of_nat b) (of_nat a) h =
      (if a + 16 * n = b
       then (let h = set_size (of_nat a) (s_size h1 (of_nat a) + s_size h1 (of_nat b)) h1 in set_ptr (of_nat a) (s_ptr h (of_nat b)) h)
       else set_ptr (of_nat a) (of_nat b) h1)\<lparr>freep := of_nat a\<rparr>"
    unfolding free_link_def h1_def [symmetric] cond [symmetric] by (simp add: Let_def)
  show ?thesis
  proof (cases "a + 16 * n = b")
    case True
    let ?h2 = "set_size (of_nat a) (of_nat (n + m1)) h1"
    let ?h3 = "set_ptr (of_nat a) (of_nat ?nx) ?h2"
    let ?xs = "us @ (a, n + m1) # vs1"
    have us: "us \<noteq> []" using True bb(1) sp(14) by auto
    have "s_ptr ?h2 (of_nat b) = of_nat ?nx" using hdr_at_read(1) [of ?h2 b ?nx m1] keep(2) [OF sub(3)] j(1) bb(4) by simp
    then have eq: "free_link (of_nat b) (of_nat a) h = ?h3\<lparr>freep := of_nat a\<rparr>"
      unfolding link using True hdr_at_read(2) [OF j(3) sp(7)] hdr_at_read(2) [OF j(1) bb(4)] by (simp add: Let_def)
    have "hdr_at ?h3 a ?nx (n + m1)" using set_hdr(1,2) [OF sp(7)] j(3) by blast
    then have ch: "chain ?h3 ?xs ?base" unfolding chain_append using chains [OF sub(1)] chains [OF sub(2)] j(2,4) by simp
    have "spaced ((a, n + m1) # vs1)" using sp(6,7) j(6) True bb(1) unfolding spaced_Cons by fastforce
    moreover have "\<forall>(c, k) \<in> set us. \<forall>(d, l) \<in> set ((a, n + m1) # vs1). c + 16 * k < d \<and> c + 16 \<le> d"
      using spu sp(9) by fastforce
    ultimately have spx: "spaced ?xs" unfolding spaced_append using sp(4) by blast
    have po: "\<forall>(c, k) \<in> set (tl ?xs). 0 < k" using us f j(5) sp(13) bb(3) j(7) unfolding free_list_def by (cases us) auto
    have "fst (hd ?xs) = ?base" using us by (cases us) auto
    then have "free_list (?h3\<lparr>freep := of_nat a\<rparr>) ?xs"
      unfolding free_list_def using us ch spx po base(2) [of "n + m1" vs1] by auto
    moreover have "{a..<a + 16 * (n + m1)} = {a..<a + 16 * n} \<union> {b..<b + 16 * m1}" using True by auto
    then have "room ?xs = room (us @ (a, n) # vs) \<union> {b..<b + 16 * m}" using j(8) unfolding room_simps by blast
    moreover have "hmem (?h3\<lparr>freep := of_nat a\<rparr>) x = hmem h x" if "x \<notin> {a..<a + 16} \<union> {b..<b + 16}" for x
      using that o1 [of x] set_outside [OF sp(7), of x] by simp
    ultimately show ?thesis unfolding eq using us j(7) by (intro exI [of _ ?xs]) (cases us, auto)
  next
    case False
    let ?h2 = "set_ptr (of_nat a) (of_nat b) h1"
    let ?xs = "us @ (a, n) # (b, m1) # vs1"
    have eq: "free_link (of_nat b) (of_nat a) h = ?h2\<lparr>freep := of_nat a\<rparr>" unfolding link using False by simp
    have "hdr_at ?h2 a b n" "hdr_at ?h2 b ?nx m1" using set_hdr(1) [OF sp(7) j(3)] keep(1) [OF sub(3)] j(1) by simp_all
    then have ch: "chain ?h2 ?xs ?base" unfolding chain_append using chains [OF sub(1)] chains [OF sub(2)] j(2,4) by simp
    have "spaced ((a, n) # (b, m1) # vs1)"
      using sp(6-8) j(6) False bb(1,2) unfolding spaced_Cons [of a] unfolding spaced_Cons by fastforce
    moreover have "\<forall>(c, k) \<in> set us. \<forall>(d, l) \<in> set ((a, n) # (b, m1) # vs1). c + 16 * k < d \<and> c + 16 \<le> d"
      using spu sp(9) by fastforce
    ultimately have spx: "spaced ?xs" unfolding spaced_append using sp(4) by blast
    have po: "\<forall>(c, k) \<in> set (tl ?xs). 0 < k" using f j(5) sp(13) bb(3) j(7) unfolding free_list_def by (cases us) auto
    have "free_list (?h2\<lparr>freep := of_nat a\<rparr>) ?xs"
      unfolding free_list_def base(1) [of "(b, m1) # vs1"] base(2) [of n "(b, m1) # vs1"] using ch spx po sp(14) by simp
    moreover have "room ?xs = room (us @ (a, n) # vs) \<union> {b..<b + 16 * m}" using j(8) unfolding room_simps by blast
    moreover have "hmem (?h2\<lparr>freep := of_nat a\<rparr>) x = hmem h x" if "x \<notin> {a..<a + 16} \<union> {b..<b + 16}" for x
      using that o1 [of x] set_outside [OF sp(7), of x] by simp
    moreover have "fst (hd ?xs) = fst (hd (us @ (a, n) # vs))" using base(1) by metis
    ultimately show ?thesis unfolding eq using j(7) by (intro exI [of _ ?xs]) auto
  qed
qed

section \<open>free\<close>

text \<open>A block that is not free: above \<open>base\<close> and apart from every free block.\<close>

definition busy_block :: "(nat \<times> nat) list \<Rightarrow> nat \<Rightarrow> nat \<Rightarrow> bool" where
  "busy_block xs b m \<longleftrightarrow> 0 < m \<and> b + 16 * m \<le> HLIM \<and> fst (hd xs) + 16 \<le> b \<and> {b..<b + 16 * m} \<inter> room xs = {}"

lemma busy_between:
  assumes f: "free_list h xs" and b: "busy_block xs b m"
  obtains us a n vs where "xs = us @ (a, n) # vs" "between b m (a, n) vs" "\<forall>(c, k) \<in> set vs. b < c"
proof -
  let ?P = "\<lambda>x. fst x < b"
  have bb: "0 < m" "b + 16 * m \<le> HLIM" "fst (hd xs) + 16 \<le> b" "{b..<b + 16 * m} \<inter> room xs = {}" using b by (auto simp: busy_block_def)
  obtain x xs' where x: "xs = x # xs'" using f by (cases xs) (auto simp: free_list_def)
  have srt: "sorted_wrt (\<lambda>x y. fst x < fst y) xs"
    using f unfolding free_list_def spaced_def by (auto elim!: sorted_wrt_mono_rel [rotated])
  have "takeWhile ?P xs \<noteq> []" using x bb(3) by simp
  then obtain us a n where us: "takeWhile ?P xs = us @ [(a, n)]" by (metis append_butlast_last_id surj_pair)
  define vs where "vs = dropWhile ?P xs"
  have xs: "xs = us @ (a, n) # vs" using us takeWhile_dropWhile_id [of ?P xs] unfolding vs_def by simp
  note sp = free_list_split [OF f [unfolded xs]]
  have ab: "a < b" using us set_takeWhileD [of "(a, n)" ?P xs] by auto
  have room: "{c..<c + 16 * k} \<subseteq> room xs" if "(c, k) \<in> set xs" for c k using that by (auto simp: room_def)
  have n: "n = 0 \<and> a = fst (hd xs) \<or> 0 < n" using sp(14) xs by auto
  have "a + 16 \<le> b \<and> a + 16 * n \<le> b"
  proof (cases "n = 0")
    case False
    then have "b \<notin> {a..<a + 16 * n}" using room [of a n] xs bb(1,4) by fastforce
    then show ?thesis using ab False by auto
  qed (use n bb(3) in auto)
  moreover have v: "b + 16 * m \<le> c" if "(c, k) \<in> set vs" for c k
  proof -
    have "vs \<noteq> []" using that by auto
    then have "\<not> fst (hd vs) < b" unfolding vs_def by (rule hd_dropWhile)
    moreover have "fst (hd vs) \<le> c"
    proof -
      have "sorted_wrt (\<lambda>x y. fst x < fst y) vs" using srt xs by (simp add: sorted_wrt_append)
      then show ?thesis using that by (cases vs) auto
    qed
    moreover have "0 < k" using sp(13) that by auto
    then have "c \<in> room xs" using room [of c k] that xs by auto
    then have "c \<notin> {b..<b + 16 * m}" using bb(4) by blast
    ultimately show ?thesis by auto
  qed
  ultimately have "between b m (a, n) vs" using bb by (auto simp: between_def)
  moreover have "\<forall>(c, k) \<in> set vs. b < c" using v bb(1) by fastforce
  ultimately show thesis using that xs by blast
qed

lemma own_headers: "free_list h xs \<Longrightarrow> (a, n) \<in> set xs \<Longrightarrow> {a..<a + 16} \<subseteq> own xs"
proof -
  assume f: "free_list h xs" and a: "(a, n) \<in> set xs"
  show ?thesis
  proof (cases "n = 0")
    case True
    then have "a = fst (hd xs)" using f a unfolding free_list_def by (cases xs) auto
    then show ?thesis by (auto simp: own_def)
  next
    case False
    then have "{a..<a + 16} \<subseteq> {a..<a + 16 * n}" by auto
    then show ?thesis using a by (force simp: own_def room_def)
  qed
qed

lemma free_ok:
  assumes f: "free_list h xs" and b: "busy_block xs b m" "hdr_at h b y m"
  shows "\<exists>h' xs'. free (of_nat (b + 16)) h = Some h' \<and> free_list h' xs' \<and> room xs' = room xs \<union> {b..<b + 16 * m}
    \<and> fst (hd xs') = fst (hd xs) \<and> (\<exists>(c, k) \<in> set xs'. m \<le> k) \<and> (\<forall>x. x \<notin> own xs' \<longrightarrow> hmem h' x = hmem h x)"
proof -
  obtain us a n vs where s: "xs = us @ (a, n) # vs" "between b m (a, n) vs" "\<forall>(c, k) \<in> set vs. b < c"
    by (rule busy_between [OF f b(1)])
  have ab: "a < b" "b \<le> HLIM" "{b..<b + 16} \<subseteq> {b..<b + 16 * m}" using s(2) by (auto simp: between_def)
  let ?h = "free_link (of_nat b) (of_nat a) h"
  obtain xs' where x: "free_list ?h xs'" "room xs' = room xs \<union> {b..<b + 16 * m}" "fst (hd xs') = fst (hd xs)"
    "\<exists>(c, k) \<in> set xs'. m \<le> k" "\<And>x. x \<notin> {a..<a + 16} \<union> {b..<b + 16} \<Longrightarrow> hmem ?h x = hmem h x"
    using free_link_ok [OF f [unfolded s(1)] s(2) b(2)] unfolding s(1) by blast
  have run: "free (of_nat (b + 16)) h = Some ?h"
    using free_scan_finds [OF f [unfolded s(1)] ab(1,2) s(3)] by (simp add: free_def)
  have "{a..<a + 16} \<subseteq> own xs'" using own_headers [OF f, of a n] s(1) x(2,3) by (auto simp: own_def)
  moreover have "{b..<b + 16} \<subseteq> own xs'" using x(2) ab(3) unfolding own_def by blast
  ultimately have "hmem ?h z = hmem h z" if "z \<notin> own xs'" for z using x(5) [of z] that by blast
  with run x show ?thesis by blast
qed

section \<open>malloc\<close>

lemma carve_ok:
  assumes f: "free_list h (us @ (q, l) # (a, n) # vs)" and k: "0 < k" "k \<le> n"
  defines "c \<equiv> a + 16 * (n - k)"
  shows "\<exists>h' xs' y. carve (of_nat q) (of_nat a) (of_nat k) h = (of_nat (c + 16), h') \<and> free_list h' xs' \<and> hdr_at h' c y k
    \<and> fst (hd xs') = fst (hd (us @ [(q, l)])) \<and> room xs' = room (us @ (q, l) # (a, n) # vs) - {c..<c + 16 * k}
    \<and> {c..<c + 16 * k} \<subseteq> {a..<a + 16 * n}
    \<and> (\<forall>x. x \<notin> own (us @ (q, l) # (a, n) # vs) \<longrightarrow> hmem h' x = hmem h x)"
proof -
  let ?xs = "us @ (q, l) # (a, n) # vs"
  note sq = free_list_split [OF f]
  have f': "free_list h ((us @ [(q, l)]) @ (a, n) # vs)" using f by simp
  note sa = free_list_split [OF f']
  let ?base = "fst (hd (us @ [(q, l)]))"
  have base: "fst (hd (us @ (q, l) # zs)) = ?base" "snd (hd (us @ (q, l) # zs)) = 0" for zs
    using f unfolding free_list_def by (cases us; auto)+
  let ?nx = "case vs of [] \<Rightarrow> ?base | (d, _) # _ \<Rightarrow> d"
  have hb: "fst (hd ((us @ [(q, l)]) @ [(a, n)])) = ?base" by (cases us) auto
  have ha: "hdr_at h a ?nx n" and cv: "chain h vs ?base" using sa(2,3) unfolding hb by blast+
  have qa: "q + 16 \<le> a" "q + 16 * l < a" using sq(10) by auto
  have sz: "s_size h (of_nat a) = of_nat n" "s_ptr h (of_nat a) = of_nat ?nx"
    using hdr_at_read [OF ha sa(7)] by simp_all
  have k32: "unat (of_nat k :: u32) = k" "unat (of_nat n :: u32) = n" using size_lim [OF sa(6,8)] size_lim [OF sa(6), of k] k(2) sa(8) by simp_all
  then have eqk: "(of_nat n :: u32) = of_nat k \<longleftrightarrow> n = k" by (simp add: word_unat_eq_iff)
  have sub: "{c..<c + 16 * k} \<subseteq> {a..<a + 16 * n}" using k unfolding c_def by auto
  have room_a: "{a..<a + 16 * n} \<subseteq> own ?xs" by (auto simp: own_def room_simps)
  have cl: "c + 16 \<le> HLIM" "a \<le> c" using k sa(8) unfolding c_def by auto
  have dj: "{a..<a + 16 * n} \<inter> (room us \<union> {q..<q + 16 * l} \<union> room vs) = {}"
    using sq(9) qa sa(9,10) by (fastforce simp: room_def)
  show ?thesis
  proof (cases "n = k")
    case True
    then have c: "c = a" unfolding c_def by simp
    let ?h = "set_ptr (of_nat q) (of_nat ?nx) h"
    have eq: "carve (of_nat q) (of_nat a) (of_nat k) h = (of_nat (c + 16), ?h\<lparr>freep := of_nat q\<rparr>)"
      unfolding carve_def sz using True c by simp
    have apart: "d + 16 \<le> q \<or> q + 16 \<le> d" if "(d, m) \<in> set (us @ (a, n) # vs)" for d m
      using that sq(9,10) by fastforce
    have keep: "chain ?h zs e = chain h zs e" if "set zs \<subseteq> set (us @ (a, n) # vs)" for zs e
      by (rule chain_cong, rule set_hdr(3) [OF sq(7)], rule apart, rule subsetD [OF that], assumption)
    have "hdr_at ?h q ?nx l" by (rule set_hdr(1) [OF sq(7) sq(2)])
    then have "chain ?h (us @ (q, l) # vs) ?base"
      unfolding chain_append using keep [of us] keep [of vs] sq(1) cv by auto
    moreover have "spaced (us @ (q, l) # vs)" using f unfolding free_list_def spaced_append by (auto simp: spaced_Cons)
    moreover have "\<forall>(d, m) \<in> set (tl (us @ (q, l) # vs)). 0 < m" using f unfolding free_list_def by (cases us) auto
    ultimately have "free_list (?h\<lparr>freep := of_nat q\<rparr>) (us @ (q, l) # vs)" unfolding free_list_def base [of vs] by simp
    moreover have "hdr_at ?h a ?nx k" using set_hdr(3) [OF sq(7), of a "of_nat ?nx" h ?nx k] qa(1) ha True by simp
    moreover have "room (us @ (q, l) # vs) = room ?xs - {c..<c + 16 * k}" using dj unfolding room_simps c True [symmetric] by blast
    moreover have "hmem (?h\<lparr>freep := of_nat q\<rparr>) x = hmem h x" if "x \<notin> own ?xs" for x
    proof -
      have "x \<notin> {q..<q + 16}" using own_headers [OF f, of q l] that by auto
      from set_outside [OF sq(7) this] show ?thesis by simp
    qed
    ultimately show ?thesis unfolding eq using sub base(1) [of vs] c
      by (intro exI [of _ "?h\<lparr>freep := of_nat q\<rparr>"] exI [of _ "us @ (q, l) # vs"] exI [of _ ?nx]) auto
  next
    case False
    let ?h1 = "set_size (of_nat a) (of_nat (n - k)) h"
    let ?h = "set_size (of_nat c) (of_nat k) ?h1"
    have nk: "0 < n - k" "a + 16 \<le> c" "a + 16 * (n - k) \<le> HLIM" using False k sa(8) unfolding c_def by auto
    have "(of_nat n - of_nat k :: u32) = of_nat (n - k)" using k(2) by (simp add: of_nat_diff)
    moreover have h1a: "hdr_at ?h1 a ?nx (n - k)" by (rule set_hdr(2) [OF sa(7) ha])
    moreover have "plus_hdr (of_nat a) (of_nat (n - k)) = of_nat c" unfolding c_def using plus_hdr_nat [OF sa(6) nk(3)] by simp
    ultimately have eq: "carve (of_nat q) (of_nat a) (of_nat k) h = (of_nat (c + 16), ?h\<lparr>freep := of_nat q\<rparr>)"
      unfolding carve_def sz eqk using False hdr_at_read(2) [OF h1a sa(7)] by (simp add: Let_def)
    have apart: "(d + 16 \<le> a \<or> a + 16 \<le> d) \<and> (d + 16 \<le> c \<or> c + 16 \<le> d)" if "(d, m) \<in> set (us @ (q, l) # vs)" for d m
    proof -
      have "d + 16 \<le> a \<or> a + 16 * n < d" using that sa(9,10) by fastforce
      then show ?thesis using cl(2) k unfolding c_def by auto
    qed
    have keep: "chain ?h zs e = chain h zs e" if "set zs \<subseteq> set (us @ (q, l) # vs)" for zs e
    proof (rule chain_cong)
      fix d m y assume "(d, m) \<in> set zs"
      with that apart [of d m] show "hdr_at ?h d y m = hdr_at h d y m"
        using set_hdr(4) [OF cl(1)] set_hdr(4) [OF sa(7)] by blast
    qed
    have "hdr_at ?h a ?nx (n - k)" using set_hdr(4) [OF cl(1)] nk(2) h1a by blast
    moreover have "hdr_at h q a l" using sq(2) by simp
    then have "chain h [(q, l)] a" by simp
    then have "chain ?h [(q, l)] a" using keep [of "[(q, l)]"] by simp
    ultimately have "chain ?h (us @ [(q, l)] @ (a, n - k) # vs) ?base"
      unfolding chain_append using keep [of us] keep [of vs] sq(1) cv by auto
    moreover have "spaced (us @ (q, l) # (a, n - k) # vs)" using f nk unfolding free_list_def spaced_append by (auto simp: spaced_Cons)
    moreover have "\<forall>(d, m) \<in> set (tl (us @ (q, l) # (a, n - k) # vs)). 0 < m" using f nk(1) unfolding free_list_def by (cases us) auto
    ultimately have "free_list (?h\<lparr>freep := of_nat q\<rparr>) (us @ (q, l) # (a, n - k) # vs)"
      unfolding free_list_def base [of "(a, n - k) # vs"] by simp
    moreover have "hdr_at ?h c (unat (ld64 (hmem ?h1) c)) k" 
      by (rule set_hdr(2) [OF cl(1), of _ _ "unat (ld32 (hmem ?h1) (c + 8))"]) (simp add: hdr_at_def)
    moreover have "{a..<a + 16 * (n - k)} = {a..<a + 16 * n} - {c..<c + 16 * k}" using k unfolding c_def by auto
    then have "room (us @ (q, l) # (a, n - k) # vs) = room ?xs - {c..<c + 16 * k}" using dj sub unfolding room_simps by blast
    moreover have "hmem (?h\<lparr>freep := of_nat q\<rparr>) x = hmem h x" if "x \<notin> own ?xs" for x
    proof -
      have "x \<notin> {a..<a + 16 * n}" using room_a that by blast
      moreover have "{a..<a + 16} \<subseteq> {a..<a + 16 * n}" "{c..<c + 16} \<subseteq> {a..<a + 16 * n}" using k sub by auto
      ultimately have "x \<notin> {c..<c + 16}" "x \<notin> {a..<a + 16}" by blast+
      from set_outside [OF cl(1) this(1)] set_outside [OF sa(7) this(2)] show ?thesis by simp
    qed
    ultimately show ?thesis unfolding eq using sub base(1) [of "(a, n - k) # vs"]
      by (intro exI [of _ "?h\<lparr>freep := of_nat q\<rparr>"] exI [of _ "us @ (q, l) # (a, n - k) # vs"] exI [of _ "unat (ld64 (hmem ?h1) c)"]) auto
  qed
qed

text \<open>The walk of \<open>malloc\<close> over blocks that are too small, from \<open>q\<close> on.\<close>

lemma malloc_walk:
  assumes "chain h ((q, l) # ws) e" "\<forall>(a, n) \<in> set ws. n < k \<and> of_nat a \<noteq> freep h \<and> 0 < a \<and> a + 16 \<le> HLIM \<and> a + 16 * n \<le> HLIM"
    "k < 2 ^ 32"
  shows "malloc_scan sbrk (of_nat k) (of_nat q) (of_nat (fst (hd (ws @ [(e, 0)])))) h w =
    malloc_scan sbrk (of_nat k) (of_nat (fst (last ((q, l) # ws)))) (of_nat e) h w"
  using assms(1,2)
proof (induction ws arbitrary: q l)
  case (Cons x ws)
  obtain a n where x: "x = (a, n)" by (cases x)
  let ?nx = "fst (hd (ws @ [(e, 0)]))"
  have a: "n < k" "of_nat a \<noteq> freep h" "0 < a" "a + 16 \<le> HLIM" "a + 16 * n \<le> HLIM" using Cons.prems(2) x by auto
  have "hdr_at h a (case ws of [] \<Rightarrow> e | (b, _) # _ \<Rightarrow> b) n" using Cons.prems(1) x by simp
  then have ha: "hdr_at h a ?nx n" by (cases ws) auto
  have "\<not> of_nat k \<le> (of_nat n :: u32)" using a(1) size_lim [OF a(3,5)] assms(3) by (simp add: word_le_nat_alt unat_of_nat)
  then have "malloc_scan sbrk (of_nat k) (of_nat q) (of_nat a) h w = malloc_scan sbrk (of_nat k) (of_nat a) (of_nat ?nx) h w"
    using hdr_at_read [OF ha a(4)] a(2) by (subst malloc_scan.simps) simp
  also have "\<dots> = malloc_scan sbrk (of_nat k) (of_nat (fst (last ((a, n) # ws)))) (of_nat e) h w"
    using Cons.IH [of a n] Cons.prems x by simp
  finally show ?case using x by simp
qed simp

lemma circle_from_freep:
  assumes f: "free_list h xs"
  shows "\<exists>g m us vs. freep h = of_nat g \<and> xs = us @ (g, m) # vs \<and> chain h ((g, m) # vs @ us) g \<and>
    (\<forall>(c, l) \<in> set (vs @ us). of_nat c \<noteq> freep h \<and> 0 < c \<and> c + 16 \<le> HLIM \<and> c + 16 * l \<le> HLIM)"
proof -
  have "freep h \<in> of_nat ` fst ` set xs" using f by (simp only: free_list_def)
  then obtain x where x: "freep h = of_nat (fst x)" "x \<in> set xs" by blast
  obtain g m where "x = (g, m)" by (cases x)
  with x obtain us vs where g: "freep h = of_nat g" and xs: "xs = us @ (g, m) # vs" by (metis fst_conv split_list)
  note sp = free_list_split [OF f [unfolded xs]]
  have base: "fst (hd (us @ [(g, m)])) = (case us of [] \<Rightarrow> g | (b, _) # _ \<Rightarrow> b)" by (cases us) auto
  have "chain h (((g, m) # vs) @ us) g" unfolding chain_append using sp(1-3) unfolding base by simp
  moreover have "of_nat c \<noteq> freep h \<and> 0 < c \<and> c + 16 \<le> HLIM \<and> c + 16 * l \<le> HLIM" if "(c, l) \<in> set (vs @ us)" for c l
  proof -
    have "c \<noteq> g" using that sp(9,10) by fastforce
    moreover have "0 < c \<and> c + 16 \<le> HLIM \<and> c + 16 * l \<le> HLIM" using that spaced_in [OF sp(4)] spaced_in [OF sp(5)] by auto
    ultimately show ?thesis using g addr_lim(2) [of c g] sp(7) by auto
  qed
  ultimately show ?thesis using g xs by (intro exI [of _ g] exI [of _ m] exI [of _ us] exI [of _ vs]) auto
qed

text \<open>A block that is big enough is found, wherever the search begins.\<close>

lemma malloc_scan_finds:
  assumes f: "free_list h xs" and k: "0 < k" "k < 2 ^ 32" and big: "\<exists>(c, n) \<in> set xs. k \<le> n"
  shows "\<exists>us q l a n vs. xs = us @ (q, l) # (a, n) # vs \<and> k \<le> n \<and>
    malloc_scan sbrk (of_nat k) (freep h) (s_ptr h (freep h)) h w =
      (let (r, h') = carve (of_nat q) (of_nat a) (of_nat k) h in Some (r, h', w))"
proof -
  obtain g m us vs where g: "freep h = of_nat g" and xs: "xs = us @ (g, m) # vs" and rot: "chain h ((g, m) # vs @ us) g"
    and apart: "\<And>c l. (c, l) \<in> set (vs @ us) \<Longrightarrow> of_nat c \<noteq> freep h \<and> 0 < c \<and> c + 16 \<le> HLIM \<and> c + 16 * l \<le> HLIM"
    using circle_from_freep [OF f] by blast
  note sp = free_list_split [OF f [unfolded xs]]
  have "\<exists>x \<in> set xs. k \<le> snd x" using big by force
  then have "\<exists>x \<in> set (vs @ us @ [(g, m)]). k \<le> snd x" unfolding xs by auto
  then obtain w1 x w2 where w: "vs @ us @ [(g, m)] = w1 @ x # w2" "k \<le> snd x" "\<forall>y \<in> set w1. \<not> k \<le> snd y"
    by (rule split_list_first_propE)
  obtain a n where xa: "x = (a, n)" by (cases x)
  have ch: "chain h ((g, m) # w1) a"
  proof (cases w2 rule: rev_cases)
    case Nil
    then show ?thesis using w(1) xa rot by auto
  next
    case (snoc w2' z)
    then have "(vs @ us) @ [(g, m)] = (w1 @ (a, n) # w2') @ [z]" using w(1) xa by simp
    then have "vs @ us = w1 @ (a, n) # w2'" unfolding append1_eq_conv by blast
    then show ?thesis using rot chain_append [of h "(g, m) # w1" "(a, n) # w2'" g] by simp
  qed
  have w1: "set w1 \<subseteq> set (vs @ us)"
  proof (cases w2 rule: rev_cases)
    case Nil
    then show ?thesis using w(1) by auto
  next
    case (snoc w2' z)
    then have "(vs @ us) @ [(g, m)] = (w1 @ x # w2') @ [z]" using w(1) by simp
    then have "vs @ us = w1 @ x # w2'" unfolding append1_eq_conv by blast
    then show ?thesis by (metis Un_upper1 set_append)
  qed
  have "\<exists>us2 l vs2. xs = us2 @ (fst (last ((g, m) # w1)), l) # (a, n) # vs2"
  proof -
    have last: "\<exists>us2 l. ys @ z = us2 @ (fst (last ys), l) # z" if "ys \<noteq> []" for ys z :: "(nat \<times> nat) list"
      using append_butlast_last_id [OF that] by (intro exI [of _ "butlast ys"] exI [of _ "snd (last ys)"]) simp
    from w(1) obtain z where "vs = w1 @ z \<and> z @ us @ [(g, m)] = x # w2 \<or> vs @ z = w1 \<and> us @ [(g, m)] = z @ x # w2"
      unfolding append_eq_append_conv2 by blast
    then consider w2' where "vs = w1 @ (a, n) # w2'" | w1' where "w1 = vs @ w1'" "us @ [(g, m)] = w1' @ (a, n) # w2"
      using xa by (cases z) auto
    then show ?thesis
    proof cases
      case 1
      from last [of "(g, m) # w1" "(a, n) # w2'"] obtain us2 l where "((g, m) # w1) @ (a, n) # w2' = us2 @ (fst (last ((g, m) # w1)), l) # (a, n) # w2'"
        by blast
      then show ?thesis using xs 1 by (intro exI [of _ "us @ us2"] exI [of _ l] exI [of _ w2']) simp
    next
      case 2
      have "w1' \<noteq> []"
      proof
        assume "w1' = []"
        then have "hd xs = (a, n)" using 2(2) xs by (cases us) auto
        then show False using f w(2) xa k(1) by (simp add: free_list_def)
      qed
      from last [OF this, of "(a, n) # w2 @ vs"] obtain us2 l where "w1' @ (a, n) # w2 @ vs = us2 @ (fst (last w1'), l) # (a, n) # w2 @ vs"
        by blast
      moreover have "xs = w1' @ (a, n) # w2 @ vs" using xs 2(2) by (metis append.assoc append_Cons append_Nil)
      ultimately show ?thesis using 2(1) \<open>w1' \<noteq> []\<close> by (intro exI [of _ us2] exI [of _ l] exI [of _ "w2 @ vs"]) simp
    qed
  qed
  then obtain us2 l vs2 where pos: "xs = us2 @ (fst (last ((g, m) # w1)), l) # (a, n) # vs2" by blast
  have "(a, n) \<in> set xs" using pos by auto
  then have an: "0 < a" "a + 16 \<le> HLIM" "a + 16 * n \<le> HLIM" "\<exists>y. hdr_at h a y n"
    using f spaced_in [of xs a n] chain_hdr [of h xs _ a n] unfolding free_list_def by auto
  then have sz: "s_size h (of_nat a) = of_nat n" using hdr_at_read(2) by blast
  have "s_ptr h (freep h) = of_nat (fst (hd (w1 @ [(a, 0)])))"
    using ch hdr_at_read(1) [of h g "case w1 of [] \<Rightarrow> a | (b, _) # _ \<Rightarrow> b" m] sp(7) g by (cases w1) auto
  then have "malloc_scan sbrk (of_nat k) (freep h) (s_ptr h (freep h)) h w =
      malloc_scan sbrk (of_nat k) (of_nat (fst (last ((g, m) # w1)))) (of_nat a) h w"
    using malloc_walk [OF ch _ k(2), of sbrk w] w(3) w1 apart unfolding g by fastforce
  also have "of_nat k \<le> (of_nat n :: u32)" using w(2) xa size_lim [OF an(1,3)] k(2) by (simp add: word_le_nat_alt unat_of_nat)
  then have "malloc_scan sbrk (of_nat k) (of_nat (fst (last ((g, m) # w1)))) (of_nat a) h w =
      (let (r, h') = carve (of_nat (fst (last ((g, m) # w1)))) (of_nat a) (of_nat k) h in Some (r, h', w))"
    using sz by (subst malloc_scan.simps) simp
  finally show ?thesis using pos w(2) xa by (metis snd_conv)
qed

text \<open>When every block is too small, the search comes back to where it began and asks for more memory.\<close>

lemma malloc_scan_none:
  assumes f: "free_list h xs" and k: "0 < k" "k < 2 ^ 32" and small: "\<forall>(c, n) \<in> set xs. n < k"
  shows "malloc_scan sbrk (of_nat k) (freep h) (s_ptr h (freep h)) h w =
    (case morecore sbrk (of_nat k) h w of
       None \<Rightarrow> None
     | Some (p, h, w) \<Rightarrow> if p = 0 then Some (0, h, w) else malloc_scan sbrk (of_nat k) p (s_ptr h p) h w)"
proof -
  obtain g m us vs where g: "freep h = of_nat g" and xs: "xs = us @ (g, m) # vs" and rot: "chain h ((g, m) # vs @ us) g"
    and apart: "\<And>c l. (c, l) \<in> set (vs @ us) \<Longrightarrow> of_nat c \<noteq> freep h \<and> 0 < c \<and> c + 16 \<le> HLIM \<and> c + 16 * l \<le> HLIM"
    using circle_from_freep [OF f] by blast
  note sp = free_list_split [OF f [unfolded xs]]
  have ptr: "s_ptr h (freep h) = of_nat (fst (hd ((vs @ us) @ [(g, 0)])))"
    using rot hdr_at_read(1) [of h g "case vs @ us of [] \<Rightarrow> g | (b, _) # _ \<Rightarrow> b" m] sp(7) g by (cases "vs @ us") auto
  have "malloc_scan sbrk (of_nat k) (freep h) (s_ptr h (freep h)) h w =
      malloc_scan sbrk (of_nat k) (of_nat (fst (last ((g, m) # vs @ us)))) (of_nat g) h w"
    unfolding ptr unfolding g by (rule malloc_walk [OF rot _ k(2)]) (use small apart xs in fastforce)
  also have "\<not> of_nat k \<le> (of_nat m :: u32)"
    using small xs size_lim [OF sp(6,8)] k(2) by (simp add: word_le_nat_alt unat_of_nat)
  then have "malloc_scan sbrk (of_nat k) (of_nat (fst (last ((g, m) # vs @ us)))) (of_nat g) h w =
    (case morecore sbrk (of_nat k) h w of
       None \<Rightarrow> None
     | Some (p, h, w) \<Rightarrow> if p = 0 then Some (0, h, w) else malloc_scan sbrk (of_nat k) p (s_ptr h p) h w)"
    using hdr_at_read(2) [OF sp(2,7)] g by (subst malloc_scan.simps) simp
  finally show ?thesis .
qed

lemma morecore_ok:
  assumes f: "free_list h xs" and k: "k < 2 ^ 32"
    and sb: "sbrk (of_nat (16 * max k 4096)) w = (of_nat b, w1)" "busy_block xs b (max k 4096)"
  shows "\<exists>h' xs'. morecore sbrk (of_nat k) h w = Some (freep h', h', w1) \<and> freep h' \<noteq> 0 \<and> free_list h' xs'
    \<and> room xs' = room xs \<union> {b..<b + 16 * max k 4096} \<and> fst (hd xs') = fst (hd xs) \<and> (\<exists>(c, n) \<in> set xs'. k \<le> n)
    \<and> (\<forall>x. x \<notin> own xs' \<longrightarrow> hmem h' x = hmem h x)"
proof -
  let ?m = "max k 4096"
  have nu: "(if of_nat k < (4096 :: u32) then 4096 else of_nat k) = (of_nat ?m :: u32)"
    using k by (auto simp: word_less_nat_alt unat_of_nat max_def)
  have sz: "of_nat ?m * 16 = (of_nat (16 * ?m) :: u32)" by simp
  have b: "b + 16 \<le> HLIM" "fst (hd xs) + 16 \<le> b" "{b..<b + 16 * ?m} \<inter> room xs = {}" using sb(2) by (auto simp: busy_block_def)
  have bsub: "{b..<b + 16} \<subseteq> {b..<b + 16 * ?m}" by auto
  have ne: "(of_nat b :: u64) \<noteq> - 1"
  proof
    assume "(of_nat b :: u64) = - 1"
    then have "unat (of_nat b :: u64) = 2 ^ 64 - 1" by (simp only: unsigned_minus_1_eq_mask mask_eq_exp_minus_1) simp
    then show False using addr_lim(1) [of b] b(1) by (simp add: HLIM_def)
  qed
  let ?h = "set_size (of_nat b) (of_nat ?m) h"
  have "hdr_at ?h b (unat (ld64 (hmem h) b)) ?m"
    by (rule set_hdr(2) [OF b(1), of _ _ "unat (ld32 (hmem h) (b + 8))"]) (simp add: hdr_at_def)
  moreover have "free_list ?h xs"
  proof -
    have "c + 16 \<le> b \<or> b + 16 \<le> c" if "(c, n) \<in> set xs" for c n
    proof -
      have "{b..<b + 16} \<inter> own xs = {}" using b(2,3) bsub unfolding own_def by fastforce
      then have "{c..<c + 16} \<inter> {b..<b + 16} = {}" using own_headers [OF f that] by blast
      then have "b \<notin> {c..<c + 16}" "c \<notin> {b..<b + 16}" by auto
      then show ?thesis by auto
    qed
    then have "chain ?h xs e = chain h xs e" for e by (intro chain_cong set_hdr(4) [OF b(1)])
    then show ?thesis using f by (simp add: free_list_def set_size_def)
  qed
  ultimately obtain h' xs' where r: "free (of_nat (b + 16)) ?h = Some h'" "free_list h' xs'"
    "room xs' = room xs \<union> {b..<b + 16 * ?m}" "fst (hd xs') = fst (hd xs)" "\<exists>(c, n) \<in> set xs'. ?m \<le> n"
    "\<And>x. x \<notin> own xs' \<Longrightarrow> hmem h' x = hmem ?h x"
    using free_ok [OF _ sb(2)] by blast
  have "freep h' \<noteq> 0"
  proof -
    have "freep h' \<in> of_nat ` fst ` set xs'" using r(2) by (simp only: free_list_def)
    then obtain x where x: "freep h' = of_nat (fst x)" "x \<in> set xs'" by blast
    then have "0 < fst x" "fst x + 16 \<le> HLIM" using r(2) spaced_in [of xs' "fst x" "snd x"] by (auto simp: free_list_def)
    then show ?thesis using x(1) addr_lim(2) [of "fst x" 0] by simp
  qed
  moreover have "morecore sbrk (of_nat k) h w = Some (freep h', h', w1)"
    using r(1) ne unfolding morecore_def Let_def nu sz sb(1) by simp
  moreover have "hmem h' x = hmem h x" if "x \<notin> own xs'" for x
  proof -
    have "x \<notin> {b..<b + 16}" using that r(3) unfolding own_def by auto
    then show ?thesis using r(6) [OF that] set_outside [OF b(1)] by simp
  qed
  ultimately show ?thesis using r by (intro exI [of _ h'] exI [of _ xs']) force
qed

lemma nunits_nat: "unat (nunits_of nbytes) = (unat nbytes + 15) div 16 + 1"
proof -
  have n: "unat nbytes < 2 ^ 32" using unsigned_less [of nbytes, where ?'a = nat] by simp
  then have "unat (ucast nbytes + 16 - 1 :: u64) = unat nbytes + 15"
    by (simp add: unat_word_ariths(1) unsigned_ucast_eq take_bit_nat_eq_self)
  then have "unat ((ucast nbytes + 16 - 1 :: u64) div 16 + 1) = (unat nbytes + 15) div 16 + 1"
    using n by (simp add: unat_word_ariths(1) unat_div)
  then show ?thesis using n unfolding nunits_of_def by (simp add: unsigned_ucast_eq take_bit_nat_eq_self)
qed

text \<open>C36: \<open>malloc\<close> returns, and what it returns is a block of its own. Either no free block is large enough and
  \<open>sbrk\<close> fails, and the result is 0; or the result points into free memory, or into memory that
  \<open>sbrk\<close> has just given: the block has room for the header and the bytes asked for, its header has its size,
  it is no longer free, the free blocks still form an ordered circle, and every byte outside the free blocks, the
  header \<open>base\<close> and the new memory is as it was, so that no other allocated block is touched.\<close>

theorem malloc_gives_own_block:
  assumes f: "free_list (malloc_init base h) xs" and k: "k = unat (nunits_of nbytes)"
    and sb: "sbrk (of_nat (16 * max k 4096)) w = (p, w1)" "p = - 1 \<or> (\<exists>b. p = of_nat b \<and> busy_block xs b (max k 4096))"
  shows "\<exists>r h' w'. malloc base sbrk nbytes h w = Some (r, h', w') \<and>
    (r = 0 \<and> p = - 1 \<and> h' = malloc_init base h \<and> (\<forall>(c, n) \<in> set xs. n < k) \<or>
     (\<exists>b y xs' fresh. r = of_nat (b + 16) \<and> 0 < b \<and> b + 16 * k \<le> HLIM \<and> unat nbytes + 16 \<le> 16 * k \<and> hdr_at h' b y k
        \<and> free_list h' xs' \<and> fresh \<in> {{}, {unat p..<unat p + 16 * max k 4096}}
        \<and> {b..<b + 16 * k} \<subseteq> room xs \<union> fresh \<and> room xs' = room xs \<union> fresh - {b..<b + 16 * k}
        \<and> (\<forall>x. x \<notin> own xs \<union> fresh \<longrightarrow> hmem h' x = hmem (malloc_init base h) x)))"
proof -
  let ?h = "malloc_init base h"
  have kk: "0 < k" "k < 2 ^ 32" "nunits_of nbytes = of_nat k" "unat nbytes + 16 \<le> 16 * k"
  proof -
    show "nunits_of nbytes = of_nat k" unfolding k by simp
  qed (use k nunits_nat [of nbytes] unsigned_less [of "nunits_of nbytes", where ?'a = nat] in simp_all)
  have run: "malloc base sbrk nbytes h w = malloc_scan sbrk (of_nat k) (freep ?h) (s_ptr ?h (freep ?h)) ?h w"
    unfolding malloc_def Let_def kk(3) ..
  have found: "\<exists>r h' b y zs. malloc_scan sbrk (of_nat k) (freep g) (s_ptr g (freep g)) g v = Some (r, h', v)
      \<and> r = of_nat (b + 16) \<and> 0 < b \<and> b + 16 * k \<le> HLIM \<and> hdr_at h' b y k \<and> free_list h' zs \<and> {b..<b + 16 * k} \<subseteq> room ys
      \<and> room zs = room ys - {b..<b + 16 * k} \<and> (\<forall>x. x \<notin> own ys \<longrightarrow> hmem h' x = hmem g x)"
    if g: "free_list g ys" "\<exists>(c, n) \<in> set ys. k \<le> n" for g ys v
  proof -
    obtain us q l a n vs where c: "ys = us @ (q, l) # (a, n) # vs" "k \<le> n"
      "malloc_scan sbrk (of_nat k) (freep g) (s_ptr g (freep g)) g v = (let (r, h') = carve (of_nat q) (of_nat a) (of_nat k) g in Some (r, h', v))"
      using malloc_scan_finds [OF g(1) kk(1,2) g(2)] by metis
    have a: "0 < a" "a + 16 * n \<le> HLIM" "{a..<a + 16 * n} \<subseteq> room ys"
      using spaced_in [of ys a n] g(1) c(1) by (auto simp: free_list_def room_def)
    define b where "b = a + 16 * (n - k)"
    have b: "0 < b" "b + 16 * k \<le> HLIM" using a c(2) unfolding b_def by simp_all
    obtain h' zs y where z: "carve (of_nat q) (of_nat a) (of_nat k) g = (of_nat (b + 16), h')" "free_list h' zs" "hdr_at h' b y k"
      "room zs = room ys - {b..<b + 16 * k}" "{b..<b + 16 * k} \<subseteq> {a..<a + 16 * n}" "\<forall>x. x \<notin> own ys \<longrightarrow> hmem h' x = hmem g x"
      using carve_ok [OF g(1) [unfolded c(1)] kk(1) c(2)] unfolding b_def [symmetric] c(1) [symmetric] by blast
    have "malloc_scan sbrk (of_nat k) (freep g) (s_ptr g (freep g)) g v = Some (of_nat (b + 16), h', v)"
      unfolding c(3) z(1) by simp
    moreover have "{b..<b + 16 * k} \<subseteq> room ys" using z(5) a(3) by (rule order_trans)
    ultimately show ?thesis using b z(2-4,6) by blast
  qed
  show ?thesis
  proof (cases "\<exists>(c, n) \<in> set xs. k \<le> n")
    case True
    from found [OF f True, of w] show ?thesis unfolding run using kk(4) by blast
  next
    case False
    then have small: "\<forall>(c, n) \<in> set xs. n < k" by force
    note none = malloc_scan_none [OF f kk(1,2) small, of sbrk w]
    show ?thesis
    proof (cases "p = - 1")
      case True
      have "(if of_nat k < (4096 :: u32) then 4096 else of_nat k) = (of_nat (max k 4096) :: u32)"
        using kk(2) by (auto simp: word_less_nat_alt unat_of_nat max_def)
      then have "morecore sbrk (of_nat k) ?h w = Some (0, ?h, w1)"
        using sb(1) True unfolding morecore_def Let_def by (simp add: mult.commute)
      then show ?thesis unfolding run none using True small by simp
    next
      case F: False
      then obtain b where b: "p = of_nat b" "busy_block xs b (max k 4096)" using sb(2) by blast
      have pb: "unat p = b" using b addr_lim(1) [of b] by (simp add: busy_block_def)
      obtain h1 ys where m: "morecore sbrk (of_nat k) ?h w = Some (freep h1, h1, w1)" "freep h1 \<noteq> 0" "free_list h1 ys"
        "room ys = room xs \<union> {b..<b + 16 * max k 4096}" "fst (hd ys) = fst (hd xs)" "\<exists>(c, n) \<in> set ys. k \<le> n"
        "\<And>x. x \<notin> own ys \<Longrightarrow> hmem h1 x = hmem ?h x"
        using morecore_ok [of ?h xs k sbrk w b w1, OF f kk(2) sb(1) [unfolded b(1)] b(2)] by blast
      have ow: "own ys = own xs \<union> {b..<b + 16 * max k 4096}" using m(4,5) by (auto simp: own_def)
      have run2: "malloc base sbrk nbytes h w = malloc_scan sbrk (of_nat k) (freep h1) (s_ptr h1 (freep h1)) h1 w1"
        unfolding run none using m(1,2) by simp
      from found [OF m(3,6), of w1] obtain r h' c y zs where r: "malloc base sbrk nbytes h w = Some (r, h', w1)"
        "r = of_nat (c + 16)" "0 < c" "c + 16 * k \<le> HLIM" "hdr_at h' c y k" "free_list h' zs" "{c..<c + 16 * k} \<subseteq> room ys"
        "room zs = room ys - {c..<c + 16 * k}" "\<forall>x. x \<notin> own ys \<longrightarrow> hmem h' x = hmem h1 x"
        unfolding run2 by blast
      have mem: "\<forall>x. x \<notin> own ys \<longrightarrow> hmem h' x = hmem ?h x" using r(9) m(7) by simp
      show ?thesis unfolding pb
        by (rule exI [of _ r], rule exI [of _ h'], rule exI [of _ w1], intro conjI r(1) disjI2, rule exI [of _ c], rule exI [of _ y],
            rule exI [of _ zs], rule exI [of _ "{b..<b + 16 * max k 4096}"])
          (use r kk(4) m(4) ow mem in simp)
    qed
  qed
qed

lemma first_heap:
  assumes "freep h = 0" "0 < a" "a + 16 \<le> HLIM"
  shows "free_list (malloc_init (of_nat a) h) [(a, 0)]"
proof -
  let ?h = "h\<lparr>freep := of_nat a\<rparr>"
  have "hdr_at (set_ptr (of_nat a) (of_nat a) ?h) a a (unat (ld32 (hmem h) (a + 8)))"
    by (rule set_hdr(1) [OF assms(3), of _ "unat (ld64 (hmem h) a)"]) (simp add: hdr_at_def)
  then have "hdr_at (set_size (of_nat a) (of_nat 0) (set_ptr (of_nat a) (of_nat a) ?h)) a a 0" by (rule set_hdr(2) [OF assms(3)])
  then show ?thesis using assms by (simp add: free_list_def malloc_init_def spaced_def set_size_def set_ptr_def)
qed

theorem malloc_gives_own_block_witness:
  "\<exists>r h' w'. malloc 4096 (\<lambda>n w. (of_nat w, w + unat n)) 100 \<lparr>hmem = \<lambda>_. 0, freep = 0\<rparr> (8192::nat) = Some (r, h', w') \<and> r \<noteq> 0"
proof -
  let ?h = "\<lparr>hmem = \<lambda>_. 0, freep = 0\<rparr>"
  let ?sbrk = "\<lambda>n w. (of_nat w :: u64, w + unat (n :: u32))"
  have f: "free_list (malloc_init 4096 ?h) [(4096, 0)]" using first_heap [of ?h 4096] by (simp add: HLIM_def)
  have k: "8 = unat (nunits_of 100)" by (simp add: nunits_nat)
  have s: "?sbrk (of_nat (16 * max 8 4096)) 8192 = (8192, 73728)" by simp
  have b: "(8192 :: u64) = - 1 \<or> (\<exists>b. (8192 :: u64) = of_nat b \<and> busy_block [(4096, 0)] b (max 8 4096))"
    by (rule disjI2, rule exI [of _ 8192]) (simp add: busy_block_def HLIM_def room_def)
  from malloc_gives_own_block [of 4096 ?h _ _ _ ?sbrk, OF f k s b] obtain r h' w'
    where m: "malloc 4096 ?sbrk 100 ?h 8192 = Some (r, h', w')" "r = 0 \<and> (8192 :: u64) = - 1 \<or> (\<exists>b. r = of_nat (b + 16) \<and> 0 < b \<and> b + 16 * 8 \<le> HLIM)"
    by blast
  have "r \<noteq> 0"
  proof
    assume "r = 0"
    with m(2) obtain b where "(of_nat (b + 16) :: u64) = of_nat 0" "b + 16 \<le> HLIM" by auto
    then show False using addr_lim(2) [of "b + 16" 0] by simp
  qed
  with m(1) show ?thesis by blast
qed

end
