(* ===== verification/Sh.thy ===== *)
theory Sh
  imports Ulib
begin

text \<open>
  user/sh.c, the shell. The command line is the list \<open>t\<close> of the bytes before its null byte, and a pointer into it is a
  position; \<open>es\<close> is \<open>length t\<close>. A command is a value of the datatype \<open>cmd\<close>, with a word of the line as the pair of
  its start and its end, where \<open>nulterminate\<close> puts a null byte. The parsers return the command and the new
  position or the message of a panic. The four that call each other have fuel; \<open>parsecmd\<close> gives them enough
  (\<open>parse_fuel\<close>).
\<close>

section \<open>Tokens\<close>

definition chr_at :: "byte list \<Rightarrow> nat \<Rightarrow> byte" where
  "chr_at t i = (if i < length t then t ! i else 0)"

definition whitespace :: "byte list" where
  "whitespace = [32, 9, 13, 10, 11]"

definition symbols :: "byte list" where
  "symbols = str ''<|>&;()''"

function skip_ws :: "byte list \<Rightarrow> nat \<Rightarrow> nat" where
  "skip_ws t s = (if s < length t \<and> strchr_u whitespace (chr_at t s) \<noteq> None then skip_ws t (s + 1) else s)"
  by pat_completeness auto
termination by (relation "measure (\<lambda>(t, s). length t - s)") auto

function skip_word :: "byte list \<Rightarrow> nat \<Rightarrow> nat" where
  "skip_word t s =
     (if s < length t \<and> strchr_u whitespace (chr_at t s) = None \<and> strchr_u symbols (chr_at t s) = None
      then skip_word t (s + 1) else s)"
  by pat_completeness auto
termination by (relation "measure (\<lambda>(t, s). length t - s)") auto

declare skip_ws.simps [simp del] skip_word.simps [simp del]

text \<open>The kind of the token, its start and end, and the new position.\<close>

definition gettoken :: "byte list \<Rightarrow> nat \<Rightarrow> byte \<times> nat \<times> nat \<times> nat" where
  "gettoken t ps =
     (let q = skip_ws t ps; c = chr_at t q;
          (tok, s) =
            (if c = 0 then (0, q)
             else if c \<in> {of_char CHR ''|'', of_char CHR ''('', of_char CHR '')'', of_char CHR '';'', of_char CHR ''&'', of_char CHR ''<''}
             then (c, q + 1)
             else if c = of_char CHR ''>'' then
               (if chr_at t (q + 1) = of_char CHR ''>'' then (of_char CHR ''+'', q + 2) else (c, q + 1))
             else (of_char CHR ''a'', skip_word t q))
      in (tok, q, s, skip_ws t s))"

definition peek :: "byte list \<Rightarrow> nat \<Rightarrow> byte list \<Rightarrow> nat \<times> bool" where
  "peek t ps toks = (let s = skip_ws t ps in (s, chr_at t s \<noteq> 0 \<and> strchr_u toks (chr_at t s) \<noteq> None))"

section \<open>Commands\<close>

datatype cmd =
  EXEC "(nat \<times> nat) list"
| REDIR cmd "nat \<times> nat" u32 int
| PIPE cmd cmd
| LIST cmd cmd
| BACK cmd

datatype pres = POk cmd nat | PPanic "byte list" | PFuel

definition MAXARGS :: nat where
  "MAXARGS = 10"

text \<open>The arguments that \<open>parseexec\<close> stores in the command it has already wrapped in redirections.\<close>

fun set_argv :: "(nat \<times> nat) list \<Rightarrow> cmd \<Rightarrow> cmd" where
  "set_argv argv (REDIR c w mode fd) = REDIR (set_argv argv c) w mode fd"
| "set_argv argv (EXEC _) = EXEC argv"
| "set_argv argv c = c"

definition redir_mode :: "byte \<Rightarrow> u32 \<times> int" where
  "redir_mode tok = (if tok = of_char CHR ''<'' then (0, 0) else if tok = of_char CHR ''>'' then (0x001 OR 0x200 OR 0x400, 1) else (0x001 OR 0x200, 1))"

section \<open>Positions move forward\<close>

lemma skip_ws_le: "s \<le> skip_ws t s" "s \<le> length t \<Longrightarrow> skip_ws t s \<le> length t"
  by (induction t s rule: skip_ws.induct) (subst skip_ws.simps; auto)+

lemma skip_word_le: "s \<le> skip_word t s" "s \<le> length t \<Longrightarrow> skip_word t s \<le> length t"
  by (induction t s rule: skip_word.induct) (subst skip_word.simps; auto)+

lemma chr_at_0: "0 \<notin> set t \<Longrightarrow> chr_at t s = 0 \<longleftrightarrow> length t \<le> s"
  by (auto simp: chr_at_def in_set_conv_nth)

lemma skip_ws_stop: "skip_ws t s < length t \<Longrightarrow> t ! skip_ws t s \<notin> set whitespace"
proof (induction t s rule: skip_ws.induct)
  case (1 t s)
  then show ?case by (subst (asm) skip_ws.simps, subst skip_ws.simps) (auto simp: strchr_u_None chr_at_def split: if_splits)
qed

lemma skip_ws_idem [simp]: "skip_ws t (skip_ws t s) = skip_ws t s"
  using skip_ws_stop [of t s] by (subst skip_ws.simps) (auto simp: strchr_u_None chr_at_def)

lemma gettoken_forward:
  assumes "gettoken t s = (tok, q, e, s')"
  shows "s \<le> q" "q \<le> e" "e \<le> s'" "s \<le> length t \<Longrightarrow> s' \<le> length t" "tok \<noteq> 0 \<Longrightarrow> q < e" "q < length t \<or> tok = 0"
proof -
  have q: "q = skip_ws t s" "s' = skip_ws t e" using assms by (auto simp: gettoken_def Let_def split: if_splits)
  show "s \<le> q" "e \<le> s'" using q skip_ws_le(1) by simp_all
  show lt: "q < length t \<or> tok = 0" using assms by (auto simp: gettoken_def Let_def chr_at_def split: if_splits)
  show "tok \<noteq> 0 \<Longrightarrow> q < e"
  proof -
    assume "tok \<noteq> 0"
    then have "q < length t" using lt by blast
    then have "t ! q \<notin> set whitespace" using skip_ws_stop [of t s] q by simp
    then have w: "q < skip_word t q" if "t ! q \<notin> set symbols"
      using that \<open>q < length t\<close> skip_word_le(1) [of "q + 1" t]
      by (subst skip_word.simps) (simp add: strchr_u_None chr_at_def)
    have "t ! q \<in> set symbols \<longleftrightarrow> t ! q \<in> {of_char CHR ''|'', of_char CHR ''('', of_char CHR '')'', of_char CHR '';'', of_char CHR ''&'', of_char CHR ''<'', of_char CHR ''>''}"
      by (auto simp: symbols_def str_def)
    then show "q < e" using assms w \<open>q < length t\<close> \<open>tok \<noteq> 0\<close>
      by (auto simp: gettoken_def Let_def chr_at_def q(1) [symmetric] split: if_splits)
  qed
  have el: "q \<le> e \<and> (s \<le> length t \<longrightarrow> e \<le> length t)"
    using assms skip_ws_le(2) [of s t] skip_word_le [of q t] lt
    by (auto simp: gettoken_def Let_def chr_at_def q(1) [symmetric] split: if_splits)
  then show "q \<le> e" by blast
  show "s \<le> length t \<Longrightarrow> s' \<le> length t" using el q(2) skip_ws_le(2) by auto
qed

lemma peek_forward:
  assumes "peek t s toks = (s', b)"
  shows "s \<le> s'" "s \<le> length t \<Longrightarrow> s' \<le> length t" "b \<Longrightarrow> s' < length t" "s' = skip_ws t s"
  using assms skip_ws_le [of s t] by (auto simp: peek_def Let_def chr_at_def split: if_splits)

text \<open>A token at a position where \<open>peek\<close> has seen a symbol is not empty.\<close>

lemma gettoken_at:
  assumes "peek t s toks = (s1, True)" "gettoken t s1 = (tok, q, e, s2)"
  shows "s1 < s2" "tok \<noteq> 0"
proof -
  have q: "q = s1" using assms peek_forward(4) [OF assms(1)] by (auto simp: gettoken_def Let_def split: if_splits)
  have "chr_at t s1 \<noteq> 0" using assms(1) by (auto simp: peek_def Let_def)
  then show "tok \<noteq> 0" using assms(2) q by (auto simp: gettoken_def Let_def split: if_splits)
  then show "s1 < s2" using gettoken_forward(3,5) [OF assms(2)] q by simp
qed

section \<open>The parsers\<close>

function parse_back :: "byte list \<Rightarrow> cmd \<Rightarrow> nat \<Rightarrow> cmd \<times> nat" where
  "parse_back t c s = (let (s, b) = peek t s (str ''&'') in
     if b then (let (_, _, _, s) = gettoken t s in parse_back t (BACK c) s) else (c, s))"
  by pat_completeness auto
termination
proof (relation "measure (\<lambda>(t, c, s). length t - s)", goal_cases)
  case (2 t c s x s1 b y tok z q z' e s2)
  then show ?case using gettoken_at [of t s "str ''&''" s1 tok q e s2] peek_forward [of t s "str ''&''" s1 b] by auto
qed simp

lemma redir_forward:
  assumes "peek t s toks = (s1, True)" "gettoken t s1 = (tok, q, e, s2)" "gettoken t s2 = (tok2, q2, e2, s3)"
  shows "s < s3" "s < length t"
  using gettoken_at [OF assms(1,2)] peek_forward [OF assms(1)] gettoken_forward [OF assms(3)] by auto

function parseredirs :: "byte list \<Rightarrow> cmd \<Rightarrow> nat \<Rightarrow> pres" where
  "parseredirs t c s = (case peek t s (str ''<>'') of (s, b) \<Rightarrow>
     if b then
       (case gettoken t s of (tok, _, _, s) \<Rightarrow> case gettoken t s of (tok2, q, eq, s) \<Rightarrow>
        if tok2 \<noteq> of_char CHR ''a'' then PPanic (str ''missing file for redirection'')
        else case redir_mode tok of (mode, fd) \<Rightarrow> parseredirs t (REDIR c (q, eq) mode fd) s)
     else POk c s)"
  by pat_completeness auto
termination
proof (relation "measure (\<lambda>(t, c, s). length t - s)", goal_cases)
  case (2 t c s s1 b tok y q y' e s2 tok2 y2 q2 y2' e2 s3)
  then have "peek t s (str ''<>'') = (s1, True)" "gettoken t s1 = (tok, q, e, s2)" "gettoken t s2 = (tok2, q2, e2, s3)" by auto
  from redir_forward [OF this] show ?case by simp
qed simp

text \<open>The loop over the arguments in \<open>parseexec\<close>.\<close>

function parse_args :: "byte list \<Rightarrow> cmd \<Rightarrow> (nat \<times> nat) list \<Rightarrow> nat \<Rightarrow> pres" where
  "parse_args t c argv s = (case peek t s (str ''|)&;'') of (s, b) \<Rightarrow>
     if b then POk (set_argv argv c) s
     else case gettoken t s of (tok, q, eq, s) \<Rightarrow>
       if tok = 0 then POk (set_argv argv c) s
       else if tok \<noteq> of_char CHR ''a'' then PPanic (str ''syntax'')
       else if length argv + 1 \<ge> MAXARGS then PPanic (str ''too many args'')
       else case parseredirs t c s of
         POk c s \<Rightarrow> parse_args t c (argv @ [(q, eq)]) s
       | r \<Rightarrow> r)"
  by pat_completeness auto
termination by (relation "measure (\<lambda>(t, c, argv, s). MAXARGS - length argv)") auto

declare parse_back.simps [simp del] parseredirs.simps [simp del] parse_args.simps [simp del]

fun parseline :: "nat \<Rightarrow> byte list \<Rightarrow> nat \<Rightarrow> pres"
  and parsepipe :: "nat \<Rightarrow> byte list \<Rightarrow> nat \<Rightarrow> pres"
  and parseblock :: "nat \<Rightarrow> byte list \<Rightarrow> nat \<Rightarrow> pres"
  and parseexec :: "nat \<Rightarrow> byte list \<Rightarrow> nat \<Rightarrow> pres" where
  "parseline 0 t s = PFuel"
| "parseline (Suc k) t s =
     (case parsepipe k t s of
        POk c s \<Rightarrow>
          (case parse_back t c s of (c, s) \<Rightarrow> case peek t s (str '';'') of (s, b) \<Rightarrow>
           if b then
             (case gettoken t s of (_, _, _, s) \<Rightarrow> case parseline k t s of POk d s \<Rightarrow> POk (LIST c d) s | r \<Rightarrow> r)
           else POk c s)
      | r \<Rightarrow> r)"
| "parsepipe 0 t s = PFuel"
| "parsepipe (Suc k) t s =
     (case parseexec k t s of
        POk c s \<Rightarrow>
          (case peek t s (str ''|'') of (s, b) \<Rightarrow>
           if b then
             (case gettoken t s of (_, _, _, s) \<Rightarrow> case parsepipe k t s of POk d s \<Rightarrow> POk (PIPE c d) s | r \<Rightarrow> r)
           else POk c s)
      | r \<Rightarrow> r)"
| "parseblock 0 t s = PFuel"
| "parseblock (Suc k) t s =
     (case peek t s (str ''('') of (s, b) \<Rightarrow>
      if \<not> b then PPanic (str ''parseblock'')
      else case gettoken t s of (_, _, _, s) \<Rightarrow> case parseline k t s of
        POk c s \<Rightarrow>
          (case peek t s (str '')'') of (s, b) \<Rightarrow>
           if \<not> b then PPanic (str ''syntax - missing )'')
           else case gettoken t s of (_, _, _, s) \<Rightarrow> parseredirs t c s)
      | r \<Rightarrow> r)"
| "parseexec 0 t s = PFuel"
| "parseexec (Suc k) t s =
     (case peek t s (str ''('') of (s, b) \<Rightarrow>
      if b then parseblock k t s
      else case parseredirs t (EXEC []) s of
        POk c s \<Rightarrow> parse_args t c [] s
      | r \<Rightarrow> r)"

definition parse_fuel :: "byte list \<Rightarrow> nat" where
  "parse_fuel t = 4 * length t + 4"

text \<open>\<open>nulterminate\<close> on the buffer, the line with its null byte; every word of the command ends in a null byte.\<close>

fun nulterminate :: "cmd \<Rightarrow> byte list \<Rightarrow> byte list" where
  "nulterminate (EXEC argv) buf = fold (\<lambda>(q, eq) b. b[eq := 0]) argv buf"
| "nulterminate (REDIR c (q, eq) mode fd) buf = (nulterminate c buf)[eq := 0]"
| "nulterminate (PIPE c d) buf = nulterminate d (nulterminate c buf)"
| "nulterminate (LIST c d) buf = nulterminate d (nulterminate c buf)"
| "nulterminate (BACK c) buf = nulterminate c buf"

text \<open>The command and the buffer, or the messages printed before the shell exits.\<close>

definition parsecmd :: "byte list \<Rightarrow> (byte list list, cmd \<times> byte list) sum option" where
  "parsecmd t =
     (case parseline (parse_fuel t) t 0 of
        PFuel \<Rightarrow> None
      | PPanic m \<Rightarrow> Some (Inl [m])
      | POk c s \<Rightarrow>
          (case peek t s [] of (s, _) \<Rightarrow>
           if s \<noteq> length t then Some (Inl [str ''leftovers: '' @ drop s t, str ''syntax''])
           else Some (Inr (c, nulterminate c (t @ [0])))))"

section \<open>Running commands\<close>

definition panic_u :: "'w os \<Rightarrow> byte list \<Rightarrow> ('w, 'a) U" where
  "panic_u os s = uthn (fprintf os 2 (line ''%s'') [AStr (Some s)]) (uexit os 1)"

definition fork1 :: "'w os \<Rightarrow> ('w, int) U" where
  "fork1 os = ubnd (ucall os Fork) (\<lambda>pid. if pid = - 1 then panic_u os (str ''fork'') else uret pid)"

text \<open>The C string at the start of a word, and the two file descriptors that \<^verbatim>\<open>pipe\<close> stores.\<close>

definition word_at :: "byte list \<Rightarrow> nat \<times> nat \<Rightarrow> byte list" where
  "word_at buf w = takeWhile (\<lambda>c. c \<noteq> 0) (drop (fst w) buf)"

definition int_at :: "byte list \<Rightarrow> nat \<Rightarrow> int" where
  "int_at d i = sint (ld32 (\<lambda>j. if j < length d then d ! j else 0) (4 * i))"

fun runcmd :: "'w os \<Rightarrow> byte list \<Rightarrow> cmd \<Rightarrow> ('w, unit) U" where
  "runcmd os buf (EXEC argv) =
     (case argv of
        [] \<Rightarrow> uexit os 1
      | w # _ \<Rightarrow>
          uthn (uexec os (word_at buf w) (map (word_at buf) argv)) (
          uthn (fprintf os 2 (line ''exec %s failed'') [AStr (Some (word_at buf w))])
               (uexit os 0)))"
| "runcmd os buf (REDIR c w mode fd) =
     uthn (ucall os (Close fd)) (
     ubnd (ucall os (Open (word_at buf w) mode)) (\<lambda>n.
     if n < 0 then uthn (fprintf os 2 (line ''open %s failed'') [AStr (Some (word_at buf w))]) (uexit os 1)
     else uthn (runcmd os buf c) (uexit os 0)))"
| "runcmd os buf (LIST c d) =
     ubnd (fork1 os) (\<lambda>pid.
     uthn (if pid = 0 then runcmd os buf c else uret ()) (
     uthn (ucall os Wait) (
     uthn (runcmd os buf d) (uexit os 0))))"
| "runcmd os buf (PIPE c d) =
     ubnd (usys os Pipe) (\<lambda>(n, p).
     if n < 0 then panic_u os (str ''pipe'')
     else
       ubnd (fork1 os) (\<lambda>pid.
       uthn (if pid = 0 then
               uthn (ucall os (Close 1)) (uthn (ucall os (Dup (int_at p 1))) (uthn (ucall os (Close (int_at p 0)))
                 (uthn (ucall os (Close (int_at p 1))) (runcmd os buf c))))
             else uret ()) (
       ubnd (fork1 os) (\<lambda>pid.
       uthn (if pid = 0 then
               uthn (ucall os (Close 0)) (uthn (ucall os (Dup (int_at p 0))) (uthn (ucall os (Close (int_at p 0)))
                 (uthn (ucall os (Close (int_at p 1))) (runcmd os buf d))))
             else uret ()) (
       uthn (ucall os (Close (int_at p 0))) (
       uthn (ucall os (Close (int_at p 1))) (
       uthn (ucall os Wait) (
       uthn (ucall os Wait) (uexit os 0)))))))))"
| "runcmd os buf (BACK c) =
     ubnd (fork1 os) (\<lambda>pid.
     uthn (if pid = 0 then runcmd os buf c else uret ()) (uexit os 0))"

text \<open>The line that \<open>getcmd\<close> has read; it is empty at the end of the input.\<close>

definition getcmd :: "'w os \<Rightarrow> nat \<Rightarrow> ('w, byte list) U" where
  "getcmd os nbuf =
     uthn (fprintf os 2 (str ''$ '') []) (
     ubnd (gets os nbuf) (\<lambda>l. uret (takeWhile (\<lambda>c. c \<noteq> 0) l)))"

fun sh_console :: "nat \<Rightarrow> 'w os \<Rightarrow> ('w, unit) U" where
  "sh_console 0 os = ustop UMore"
| "sh_console (Suc k) os = ubnd (ucall os (Open (str ''console'') 2)) (\<lambda>fd.
     if fd \<ge> 0 then (if fd \<ge> 3 then uthn (ucall os (Close fd)) (uret ()) else sh_console k os) else uret ())"

fun sh_loop :: "nat \<Rightarrow> 'w os \<Rightarrow> ('w, unit) U" where
  "sh_loop 0 os = ustop UMore"
| "sh_loop (Suc k) os = ubnd (getcmd os 100) (\<lambda>buf.
     if buf = [] then uexit os 0
     else if take 3 buf = str ''cd '' then
       (let dir = drop 3 (butlast buf) in
        ubnd (ucall os (Chdir dir)) (\<lambda>n.
        uthn (if n < 0 then fprintf os 2 (line ''cannot cd %s'') [AStr (Some dir)] else uret ())
             (sh_loop k os)))
     else
       ubnd (fork1 os) (\<lambda>pid.
       uthn (if pid = 0 then
               (case parsecmd buf of
                  None \<Rightarrow> ustop UMore
                | Some (Inl msgs) \<Rightarrow> uthn (ueach (\<lambda>m. fprintf os 2 (line ''%s'') [AStr (Some m)]) msgs) (uexit os 1)
                | Some (Inr (c, b)) \<Rightarrow> runcmd os b c)
             else uret ()) (
       uthn (ucall os Wait) (sh_loop k os))))"

definition sh_main :: "nat \<Rightarrow> 'w os \<Rightarrow> ('w, unit) U" where
  "sh_main fuel os = uthn (sh_console fuel os) (sh_loop fuel os)"

section \<open>The words of a command\<close>

definition sep :: "byte set" where
  "sep = set whitespace \<union> set symbols"

text \<open>A word of the line: a maximal run of bytes that are neither blank nor a symbol.\<close>

definition word_ok :: "byte list \<Rightarrow> nat \<times> nat \<Rightarrow> bool" where
  "word_ok t w \<longleftrightarrow> (case w of (q, e) \<Rightarrow> q < e \<and> e \<le> length t \<and> (\<forall>i. q \<le> i \<and> i < e \<longrightarrow> t ! i \<notin> sep) \<and> (e < length t \<longrightarrow> t ! e \<in> sep))"

fun words :: "cmd \<Rightarrow> (nat \<times> nat) list" where
  "words (EXEC argv) = argv"
| "words (REDIR c w mode fd) = words c @ [w]"
| "words (PIPE c d) = words c @ words d"
| "words (LIST c d) = words c @ words d"
| "words (BACK c) = words c"

fun few_args :: "cmd \<Rightarrow> bool" where
  "few_args (EXEC argv) = (length argv < MAXARGS)"
| "few_args (REDIR c w mode fd) = few_args c"
| "few_args (PIPE c d) = (few_args c \<and> few_args d)"
| "few_args (LIST c d) = (few_args c \<and> few_args d)"
| "few_args (BACK c) = few_args c"

definition cmd_ok :: "byte list \<Rightarrow> cmd \<Rightarrow> bool" where
  "cmd_ok t c \<longleftrightarrow> list_all (word_ok t) (words c) \<and> few_args c"

lemma cmd_ok_simps [simp]:
  "cmd_ok t (EXEC argv) \<longleftrightarrow> list_all (word_ok t) argv \<and> length argv < MAXARGS"
  "cmd_ok t (REDIR c w mode fd) \<longleftrightarrow> cmd_ok t c \<and> word_ok t w"
  "cmd_ok t (PIPE c d) \<longleftrightarrow> cmd_ok t c \<and> cmd_ok t d"
  "cmd_ok t (LIST c d) \<longleftrightarrow> cmd_ok t c \<and> cmd_ok t d"
  "cmd_ok t (BACK c) \<longleftrightarrow> cmd_ok t c"
  by (auto simp: cmd_ok_def)

lemma cmd_ok_set_argv: "cmd_ok t c \<Longrightarrow> list_all (word_ok t) argv \<Longrightarrow> length argv < MAXARGS \<Longrightarrow> cmd_ok t (set_argv argv c)"
  by (induction argv c rule: set_argv.induct) auto

lemma skip_word_span:
  "q \<le> i \<Longrightarrow> i < skip_word t q \<Longrightarrow> t ! i \<notin> sep" "skip_word t q < length t \<Longrightarrow> t ! skip_word t q \<in> sep"
proof (induction t q rule: skip_word.induct)
  case (1 t s)
  { case 1
    then show ?case using "1.IH"(1) by (subst (asm) skip_word.simps) (cases "i = s"; auto simp: strchr_u_None chr_at_def sep_def split: if_splits)
  next
    case 2
    then show ?case using "1.IH"(2)
      by (subst skip_word.simps, subst (asm) skip_word.simps) (auto simp: strchr_u_None chr_at_def sep_def split: if_splits) }
qed

lemma gettoken_word: "gettoken t s = (of_char CHR ''a'', q, e, s') \<Longrightarrow> word_ok t (q, e)"
proof -
  assume g: "gettoken t s = (of_char CHR ''a'', q, e, s')"
  then have e: "e = skip_word t q" by (auto simp: gettoken_def Let_def split: if_splits)
  have "q < e" "q < length t" using gettoken_forward(5,6) [OF g] by auto
  moreover have "t ! i \<notin> sep" if "q \<le> i" "i < e" for i using skip_word_span(1) that e by blast
  moreover have "e < length t \<Longrightarrow> t ! e \<in> sep" using skip_word_span(2) e by blast
  ultimately show ?thesis using skip_word_le(2) [of q t] e by (simp add: word_ok_def)
qed

text \<open>What every parser promises from position \<open>s\<close>.\<close>

fun pres_ok :: "byte list \<Rightarrow> nat \<Rightarrow> pres \<Rightarrow> bool" where
  "pres_ok t s (POk c s') = (cmd_ok t c \<and> s \<le> s' \<and> s' \<le> length t)"
| "pres_ok t s (PPanic m) = True"
| "pres_ok t s PFuel = False"

lemma pres_ok_mono: "pres_ok t s' r \<Longrightarrow> s \<le> s' \<Longrightarrow> pres_ok t s r"
  by (cases r) auto

lemma parse_back_ok: "cmd_ok t c \<Longrightarrow> s \<le> length t \<Longrightarrow> parse_back t c s = (c', s') \<Longrightarrow> cmd_ok t c' \<and> s \<le> s' \<and> s' \<le> length t"
proof (induction t c s arbitrary: c' s' rule: parse_back.induct)
  case (1 t c s)
  obtain s1 b where p: "peek t s (str ''&'') = (s1, b)" by (cases "peek t s (str ''&'')")
  obtain tok q e s2 where g: "gettoken t s1 = (tok, q, e, s2)" by (cases "gettoken t s1")
  note f = peek_forward [OF p] gettoken_forward [OF g]
  show ?case
  proof (cases b)
    case True
    then have "parse_back t (BACK c) s2 = (c', s')" using 1(4) p g by (subst (asm) parse_back.simps) simp
    then have "cmd_ok t c' \<and> s2 \<le> s' \<and> s' \<le> length t" using 1(1) [OF p [symmetric] refl True g [symmetric] refl refl refl] 1(2,3) f by auto
    then show ?thesis using f 1(3) by auto
  next
    case False
    then show ?thesis using 1(2-4) p f by (subst (asm) parse_back.simps) auto
  qed
qed

lemma parseredirs_ok: "cmd_ok t c \<Longrightarrow> s \<le> length t \<Longrightarrow> pres_ok t s (parseredirs t c s)"
proof (induction t c s rule: parseredirs.induct)
  case (1 t c s)
  obtain s1 b where p: "peek t s (str ''<>'') = (s1, b)" by (cases "peek t s (str ''<>'')")
  obtain tok q e s2 where g: "gettoken t s1 = (tok, q, e, s2)" by (cases "gettoken t s1")
  obtain tok2 q2 e2 s3 where g2: "gettoken t s2 = (tok2, q2, e2, s3)" by (cases "gettoken t s2")
  obtain mode fd where m: "redir_mode tok = (mode, fd)" by (cases "redir_mode tok")
  note f = peek_forward [OF p] gettoken_forward [OF g] gettoken_forward [OF g2]
  show ?case
  proof (cases "b \<and> tok2 = of_char CHR ''a''")
    case True
    then have eq: "parseredirs t c s = parseredirs t (REDIR c (q2, e2) mode fd) s3" using p g g2 m by (subst parseredirs.simps) simp
    have "word_ok t (q2, e2)" using gettoken_word [of t s2 q2 e2 s3] g2 True by simp
    then have "pres_ok t s3 (parseredirs t (REDIR c (q2, e2) mode fd) s3)"
      using 1(1) [OF p [symmetric] _ g [symmetric] refl refl g2 [symmetric] refl refl _ m [symmetric]] True 1(2,3) f by simp
    then show ?thesis unfolding eq using f 1(3) by (elim pres_ok_mono) auto
  next
    case False
    then show ?thesis using p g g2 f 1(2,3) by (subst parseredirs.simps) auto
  qed
qed

lemma parse_args_ok:
  "cmd_ok t c \<Longrightarrow> list_all (word_ok t) argv \<Longrightarrow> length argv < MAXARGS \<Longrightarrow> s \<le> length t \<Longrightarrow> pres_ok t s (parse_args t c argv s)"
proof (induction t c argv s rule: parse_args.induct)
  case (1 t c argv s)
  obtain s1 b where p: "peek t s (str ''|)&;'') = (s1, b)" by (cases "peek t s (str ''|)&;'')")
  obtain tok q e s2 where g: "gettoken t s1 = (tok, q, e, s2)" by (cases "gettoken t s1")
  note f = peek_forward [OF p] gettoken_forward [OF g]
  have c: "cmd_ok t (set_argv argv c)" using 1(2-4) by (rule cmd_ok_set_argv)
  show ?case
  proof (cases "b \<or> tok \<noteq> of_char CHR ''a'' \<or> length argv + 1 \<ge> MAXARGS")
    case True
    then show ?thesis using p g f c 1(5) by (subst parse_args.simps) auto
  next
    case False
    have w: "word_ok t (q, e)" using gettoken_word [of t s1 q e s2] g False by simp
    have r: "pres_ok t s2 (parseredirs t c s2)" using parseredirs_ok [OF 1(2)] f 1(5) by auto
    have eq: "parse_args t c argv s = (case parseredirs t c s2 of POk c s \<Rightarrow> parse_args t c (argv @ [(q, e)]) s | r \<Rightarrow> r)"
      using p g False by (subst parse_args.simps) simp
    show ?thesis
    proof (cases "parseredirs t c s2")
      case (POk c' s')
      have "pres_ok t s' (parse_args t c' (argv @ [(q, e)]) s')"
        using 1(1) [OF p [symmetric] _ g [symmetric] refl refl _ _ _ POk] False r POk w 1(3) by auto
      then show ?thesis unfolding eq POk using r POk f 1(5) by (auto elim: pres_ok_mono)
    qed (use eq r in auto)
  qed
qed

text \<open>Between two calls of \<open>parseline\<close> at the same position there is a symbol; four steps of fuel for each byte are enough.\<close>

lemma parsers_ok:
  "s \<le> length t \<Longrightarrow> 4 * (length t - s) + 4 \<le> k \<Longrightarrow> pres_ok t s (parseline k t s)"
  "s \<le> length t \<Longrightarrow> 4 * (length t - s) + 3 \<le> k \<Longrightarrow> pres_ok t s (parsepipe k t s)"
  "s \<le> length t \<Longrightarrow> 4 * (length t - s) + 1 \<le> k \<Longrightarrow> pres_ok t s (parseblock k t s)"
  "s \<le> length t \<Longrightarrow> 4 * (length t - s) + 2 \<le> k \<Longrightarrow> pres_ok t s (parseexec k t s)"
proof (induction k arbitrary: s)
  case (Suc k)
  {
    case 1
    have c: "pres_ok t s (parsepipe k t s)" using Suc.IH(2) 1 by simp
    show ?case
    proof (cases "parsepipe k t s")
      case (POk c s1)
      obtain c2 s2 where b: "parse_back t c s1 = (c2, s2)" by (cases "parse_back t c s1")
      obtain s3 p where p: "peek t s2 (str '';'') = (s3, p)" by (cases "peek t s2 (str '';'')")
      obtain tok q e s4 where g: "gettoken t s3 = (tok, q, e, s4)" by (cases "gettoken t s3")
      have f: "cmd_ok t c2" "s \<le> s2" "s2 \<le> length t" "s2 \<le> s3" "s3 \<le> length t"
        using parse_back_ok [OF _ _ b] c POk peek_forward [OF p] by auto
      have "pres_ok t s4 (parseline k t s4) \<and> s < s4" if p
        using gettoken_at(1) [of t s2 "str '';''" s3, OF _ g] p that gettoken_forward(4) [OF g] f 1 Suc.IH(1) [of s4] by auto
      then show ?thesis using POk b p g f by (auto split: pres.splits)
    qed (use c in auto)
  next
    case 2
    have c: "pres_ok t s (parseexec k t s)" using Suc.IH(4) 2 by simp
    show ?case
    proof (cases "parseexec k t s")
      case (POk c s1)
      obtain s3 p where p: "peek t s1 (str ''|'') = (s3, p)" by (cases "peek t s1 (str ''|'')")
      obtain tok q e s4 where g: "gettoken t s3 = (tok, q, e, s4)" by (cases "gettoken t s3")
      have f: "cmd_ok t c" "s \<le> s1" "s1 \<le> length t" "s1 \<le> s3" "s3 \<le> length t" using c POk peek_forward [OF p] by auto
      have "pres_ok t s4 (parsepipe k t s4) \<and> s < s4" if p
        using gettoken_at(1) [of t s1 "str ''|''" s3, OF _ g] p that gettoken_forward(4) [OF g] f 2 Suc.IH(2) [of s4] by auto
      then show ?thesis using POk p g f by (auto split: pres.splits)
    qed (use c in auto)
  next
    case 3
    obtain s1 p where p: "peek t s (str ''('') = (s1, p)" by (cases "peek t s (str ''('')")
    obtain tok q e s2 where g: "gettoken t s1 = (tok, q, e, s2)" by (cases "gettoken t s1")
    show ?case
    proof (cases p)
      case True
      then have f: "s \<le> s1" "s1 < s2" "s2 \<le> length t"
        using gettoken_at(1) [of t s "str ''(''" s1, OF _ g] p peek_forward [OF p] gettoken_forward(4) [OF g] 3 by auto
      have c: "pres_ok t s2 (parseline k t s2)" using Suc.IH(1) [of s2] f 3 by auto
      show ?thesis
      proof (cases "parseline k t s2")
        case (POk c s3)
        obtain s4 p' where p': "peek t s3 (str '')'') = (s4, p')" by (cases "peek t s3 (str '')'')")
        obtain tok' q' e' s5 where g': "gettoken t s4 = (tok', q', e', s5)" by (cases "gettoken t s4")
        have s5: "s5 \<le> length t" "s \<le> s5" using peek_forward [OF p'] gettoken_forward [OF g'] \<open>pres_ok t s2 _\<close> POk f by auto
        have "pres_ok t s5 (parseredirs t c s5)" using parseredirs_ok [OF _ s5(1)] \<open>pres_ok t s2 _\<close> POk by simp
        then show ?thesis using True p g POk p' g' s5 by (auto elim: pres_ok_mono)
      qed (use c True p g in auto)
    qed (use p in simp)
  next
    case 4
    obtain s1 p where p: "peek t s (str ''('') = (s1, p)" by (cases "peek t s (str ''('')")
    have f: "s \<le> s1" "s1 \<le> length t" using peek_forward [OF p] 4 by auto
    have b: "pres_ok t s1 (parseblock k t s1)" using Suc.IH(3) [of s1] f 4 by auto
    have r: "pres_ok t s1 (parseredirs t (EXEC []) s1)" using parseredirs_ok [of t "EXEC []" s1] f by (simp add: MAXARGS_def)
    have a: "pres_ok t s2 (parse_args t c [] s2)" if "parseredirs t (EXEC []) s1 = POk c s2" for c s2
      using parse_args_ok [of t c "[]" s2] r that by (simp add: MAXARGS_def)
    have a': "pres_ok t s (parse_args t c [] s2)" if "parseredirs t (EXEC []) s1 = POk c s2" for c s2
      using pres_ok_mono [OF a [OF that]] r that f(1) by simp
    show ?case using p pres_ok_mono [OF b f(1)] r a' by (auto split: pres.splits)
  }
qed simp_all

lemma fold_ends:
  "length (fold (\<lambda>(q, e) b. b[e := 0]) argv buf) = length buf"
  "i < length buf \<Longrightarrow> fold (\<lambda>(q, e) b. b[e := 0]) argv buf ! i = (if i \<in> snd ` set argv then 0 else buf ! i)"
proof (induction argv arbitrary: buf)
  case (Cons x argv)
  { case 1
    show ?case using Cons.IH(1) by (cases x) simp
  next
    case 2
    then show ?case using Cons.IH(2) by (cases x; cases "i \<in> snd ` set argv") (simp_all add: nth_list_update) }
qed simp_all

lemma nulterminate_length [simp]: "length (nulterminate c buf) = length buf"
  by (induction c buf rule: nulterminate.induct) (simp_all add: fold_ends(1))

lemma nulterminate_nth:
  "i < length buf \<Longrightarrow> nulterminate c buf ! i = (if i \<in> snd ` set (words c) then 0 else buf ! i)"
proof (induction c buf rule: nulterminate.induct)
  case (2 c q e mode fd buf)
  then show ?case by (cases "i \<in> snd ` set (words c)"; cases "e = i") simp_all
qed (simp_all add: fold_ends(2) image_Un)

text \<open>C37: The parser of the shell ends on every command line, with an error or with a command whose words are
  maximal runs of ordinary bytes of the line, fewer than \<open>MAXARGS\<close> for each program; and the null bytes that
  \<open>nulterminate\<close> writes leave every word as the C string that starts where the word does.\<close>

theorem parsecmd_ends_with_words:
  assumes "0 \<notin> set t"
  shows "(\<exists>msgs. parsecmd t = Some (Inl msgs)) \<or>
    (\<exists>c buf. parsecmd t = Some (Inr (c, buf)) \<and> cmd_ok t c \<and> length buf = length t + 1 \<and>
       (\<forall>(q, e) \<in> set (words c). takeWhile (\<lambda>x. x \<noteq> 0) (drop q buf) = take (e - q) (drop q t)))"
proof -
  have r: "pres_ok t 0 (parseline (parse_fuel t) t 0)" using parsers_ok(1) [of 0 t] by (simp add: parse_fuel_def)
  show ?thesis
  proof (cases "parseline (parse_fuel t) t 0")
    case (POk c s)
    obtain s1 b where p: "peek t s [] = (s1, b)" by (cases "peek t s []")
    let ?buf = "nulterminate c (t @ [0])"
    have c: "cmd_ok t c" using r POk by simp
    have w: "takeWhile (\<lambda>x. x \<noteq> 0) (drop q ?buf) = take (e - q) (drop q t)" if "(q, e) \<in> set (words c)" for q e
    proof -
      have ok: "q < e" "e \<le> length t" "\<And>i. q \<le> i \<Longrightarrow> i < e \<Longrightarrow> t ! i \<notin> sep"
        using c that by (auto simp: cmd_ok_def list_all_iff word_ok_def)
      have "i \<notin> snd ` set (words c)" if "q \<le> i" "i < e" for i
        using ok(2) ok(3) [OF that] that(2) c by (force simp: cmd_ok_def list_all_iff word_ok_def)
      then have in_w: "?buf ! i = t ! i" if "q \<le> i" "i < e" for i
        using nulterminate_nth [of i "t @ [0]" c] ok(2) that by (simp add: nth_append)
      have end_w: "?buf ! e = 0" using nulterminate_nth [of e "t @ [0]" c] ok(2) that by force
      have l: "length (drop q ?buf) = length t + 1 - q" by simp
      have "takeWhile (\<lambda>x. x \<noteq> 0) (drop q ?buf) = take (e - q) (drop q ?buf)"
        using in_w end_w ok l assms by (intro takeWhile_eq_take_P_nth) (auto simp: in_set_conv_nth)
      also have "\<dots> = take (e - q) (drop q t)"
        using in_w ok l by (intro nth_equalityI) (auto simp: min_def split: if_splits)
      finally show ?thesis .
    qed
    have "parsecmd t = (if s1 \<noteq> length t then Some (Inl [str ''leftovers: '' @ drop s1 t, str ''syntax'']) else Some (Inr (c, ?buf)))"
      using POk p by (simp add: parsecmd_def)
    then show ?thesis using c w by auto
  qed (use r in \<open>auto simp: parsecmd_def\<close>)
qed

theorem parsecmd_ends_with_words_witness:
  "parsecmd (str ''ls x>f'') = Some (Inr (REDIR (EXEC [(0, 2), (3, 4)]) (5, 6) 0x601 1, str ''ls'' @ 0 # str ''x'' @ 0 # str ''f'' @ [0]))
    \<and> takeWhile (\<lambda>x. x \<noteq> 0) (drop 3 (str ''ls'' @ 0 # str ''x'' @ 0 # str ''f'' @ [0])) = str ''x''"
proof -
  let ?t = "str ''ls x>f''"
  let ?c = "REDIR (EXEC [(0, 2), (3, 4)]) (5, 6) 0x601 1" and ?b = "str ''ls'' @ 0 # str ''x'' @ 0 # str ''f'' @ [0]"
  have p: "parsecmd ?t = Some (Inr (?c, ?b))" by code_simp
  have "0 \<notin> set ?t" by code_simp
  from parsecmd_ends_with_words [OF this] p have "takeWhile (\<lambda>x. x \<noteq> 0) (drop 3 ?b) = take (4 - 3) (drop 3 ?t)" by auto
  moreover have "take (4 - 3) (drop 3 ?t) = str ''x''" by code_simp
  ultimately show ?thesis using p by simp
qed

section \<open>runcmd never returns\<close>

definition noret :: "('w, 'a) U \<Rightarrow> bool" where
  "noret m \<longleftrightarrow> (\<forall>w x. fst (m w) \<noteq> URet x)"

lemma noret_intros:
  "noret (uexit os n)" "(\<And>x. noret (f x)) \<Longrightarrow> noret (ubnd m f)" "noret m' \<Longrightarrow> noret (uthn m m')"
  by (auto simp: noret_def u_run split: prod.splits uout.splits)

lemma runcmd_never_returns: "noret (runcmd os buf c)"
  by (induction os buf c rule: runcmd.induct)
    (auto simp: panic_u_def split: list.splits prod.splits intro!: noret_intros)

end
