(* ===== verification/Uprogs.thy ===== *)
theory Uprogs
  imports Grep
begin

text \<open>
  The small user programs: cat, echo, wc, ls, kill, ln, rm, mkdir, sleep, time, time1, ps, pexec, uptime, init, zombie,
  stressfs and forktest, and the random number generator of grind. A \<^verbatim>\<open>main\<close> takes its argument strings; loops that
  end only when the kernel says so have fuel.
\<close>

section \<open>cat.c, echo.c, wc.c\<close>

fun cat :: "nat \<Rightarrow> 'w os \<Rightarrow> int \<Rightarrow> ('w, unit) U" where
  "cat 0 os fd = ustop UMore"
| "cat (Suc k) os fd = ubnd (usys os (Read fd 512)) (\<lambda>(n, buf).
     if n > 0 then
       ubnd (ucall os (Write 1 (take (nat n) buf))) (\<lambda>m.
       if m \<noteq> n then uthn (fprintf os 2 (line ''cat: write error'') []) (uexit os 1)
       else cat k os fd)
     else if n < 0 then uthn (fprintf os 2 (line ''cat: read error'') []) (uexit os 1)
     else uret ())"

fun cat_files :: "nat \<Rightarrow> 'w os \<Rightarrow> byte list list \<Rightarrow> ('w, unit) U" where
  "cat_files fuel os [] = uexit os 0"
| "cat_files fuel os (file # files) = ubnd (ucall os (Open file 0)) (\<lambda>fd.
     if fd < 0 then uthn (fprintf os 2 (line ''cat: cannot open %s'') [AStr (Some file)]) (uexit os 1)
     else uthn (cat fuel os fd) (uthn (ucall os (Close fd)) (cat_files fuel os files)))"

definition cat_main :: "nat \<Rightarrow> 'w os \<Rightarrow> byte list list \<Rightarrow> ('w, unit) U" where
  "cat_main fuel os argv =
     (if length argv \<le> 1 then uthn (cat fuel os 0) (uexit os 0) else cat_files fuel os (tl argv))"

fun echo_args :: "'w os \<Rightarrow> byte list list \<Rightarrow> ('w, unit) U" where
  "echo_args os [] = uret ()"
| "echo_args os (a # as) =
     uthn (ucall os (Write 1 a)) (
     uthn (ucall os (Write 1 (if as \<noteq> [] then [32] else [10]))) (echo_args os as))"

definition echo_main :: "'w os \<Rightarrow> byte list list \<Rightarrow> ('w, unit) U" where
  "echo_main os argv = uthn (echo_args os (tl argv)) (uexit os 0)"

record counts =
  c_l :: u32
  c_w :: u32
  c_c :: u32
  inword :: bool

definition wc_byte :: "byte \<Rightarrow> counts \<Rightarrow> counts" where
  "wc_byte b s =
     (let s = s\<lparr>c_c := c_c s + 1\<rparr>; s = (if b = 10 then s\<lparr>c_l := c_l s + 1\<rparr> else s) in
      if strchr_u [32, 13, 9, 10, 11] b \<noteq> None then s\<lparr>inword := False\<rparr>
      else if \<not> inword s then s\<lparr>c_w := c_w s + 1, inword := True\<rparr>
      else s)"

fun wc_loop :: "nat \<Rightarrow> 'w os \<Rightarrow> int \<Rightarrow> byte list \<Rightarrow> counts \<Rightarrow> ('w, unit) U" where
  "wc_loop 0 os fd name s = ustop UMore"
| "wc_loop (Suc k) os fd name s = ubnd (usys os (Read fd 512)) (\<lambda>(n, buf).
     if n > 0 then wc_loop k os fd name (fold wc_byte (take (nat n) buf) s)
     else if n < 0 then uthn (printf_u os (line ''wc: read error'') []) (uexit os 1)
     else printf_u os (line ''%d %d %d %s'') [AInt (c_l s), AInt (c_w s), AInt (c_c s), AStr (Some name)])"

definition wc :: "nat \<Rightarrow> 'w os \<Rightarrow> int \<Rightarrow> byte list \<Rightarrow> ('w, unit) U" where
  "wc fuel os fd name = wc_loop fuel os fd name \<lparr>c_l = 0, c_w = 0, c_c = 0, inword = False\<rparr>"

fun wc_files :: "nat \<Rightarrow> 'w os \<Rightarrow> byte list list \<Rightarrow> ('w, unit) U" where
  "wc_files fuel os [] = uexit os 0"
| "wc_files fuel os (file # files) = ubnd (ucall os (Open file 0)) (\<lambda>fd.
     if fd < 0 then uthn (printf_u os (line ''wc: cannot open %s'') [AStr (Some file)]) (uexit os 1)
     else uthn (wc fuel os fd file) (uthn (ucall os (Close fd)) (wc_files fuel os files)))"

definition wc_main :: "nat \<Rightarrow> 'w os \<Rightarrow> byte list list \<Rightarrow> ('w, unit) U" where
  "wc_main fuel os argv =
     (if length argv \<le> 1 then uthn (wc fuel os 0 []) (uexit os 0) else wc_files fuel os (tl argv))"

section \<open>ls.c\<close>

text \<open>The name after the last slash, padded with blanks to \<open>DIRSIZ\<close> bytes. The padded name is followed by the
  byte of the static buffer that nothing writes, a null byte.\<close>

definition fmtname :: "byte list \<Rightarrow> byte list" where
  "fmtname file =
     (let p = rev (takeWhile (\<lambda>c. c \<noteq> 47) (rev file)) in
      if length p \<ge> 14 then p else p @ replicate (14 - length p) 32)"

text \<open>The fields of \<^verbatim>\<open>struct stat\<close> and \<^verbatim>\<open>struct dirent\<close> in the bytes that the kernel stored.\<close>

definition at :: "byte list \<Rightarrow> bytes" where
  "at d = (\<lambda>i. if i < length d then d ! i else 0)"

definition stat_ino :: "byte list \<Rightarrow> u32" where
  "stat_ino d = ld32 (at d) 4"

definition stat_type :: "byte list \<Rightarrow> u16" where
  "stat_type d = ld16 (at d) 8"

definition stat_size :: "byte list \<Rightarrow> u64" where
  "stat_size d = ld64 (at d) 16"

text \<open>The loop over the directory; \<open>buf\<close> is the path with its slash. \<^verbatim>\<open>%d\<close> takes a 64-bit size as an \<^verbatim>\<open>int\<close>.\<close>

fun ls_dir :: "nat \<Rightarrow> 'w os \<Rightarrow> int \<Rightarrow> byte list \<Rightarrow> ('w, unit) U" where
  "ls_dir 0 os fd buf = ustop UMore"
| "ls_dir (Suc k) os fd buf = ubnd (usys os (Read fd 16)) (\<lambda>(n, de).
     if n \<noteq> 16 then uret ()
     else if ld16 (at de) 0 = 0 then ls_dir k os fd buf
     else
       (let name = buf @ takeWhile (\<lambda>c. c \<noteq> 0) (take 14 (drop 2 de)) in
        ubnd (stat_u os name) (\<lambda>(r, st).
        uthn (if r < 0 then printf_u os (line ''ls: cannot stat %s'') [AStr (Some name)]
              else printf_u os (line ''%s %d %d %d'')
                [AStr (Some (fmtname name)), AInt (scast (stat_type st)), AInt (stat_ino st), AInt (ucast (stat_size st))])
             (ls_dir k os fd buf))))"

definition ls :: "nat \<Rightarrow> 'w os \<Rightarrow> byte list \<Rightarrow> ('w, unit) U" where
  "ls fuel os file = ubnd (ucall os (Open file 0)) (\<lambda>fd.
     if fd < 0 then fprintf os 2 (line ''ls: cannot open %s'') [AStr (Some file)]
     else ubnd (usys os (Fstat fd)) (\<lambda>(r, st).
       if r < 0 then
         uthn (fprintf os 2 (line ''ls: cannot stat %s'') [AStr (Some file)]) (uthn (ucall os (Close fd)) (uret ()))
       else
         uthn (if stat_type st = 2 then
                 printf_u os (line ''%s %d %d %l'')
                   [AStr (Some (fmtname file)), AInt (scast (stat_type st)), AInt (stat_ino st), APtr (stat_size st)]
               else if stat_type st = 1 then
                 (if length file + 1 + 14 + 1 > 512 then printf_u os (line ''ls: path too long'') []
                  else ls_dir fuel os fd (file @ [47]))
               else uret ())
              (uthn (ucall os (Close fd)) (uret ()))))"

definition ls_main :: "nat \<Rightarrow> 'w os \<Rightarrow> byte list list \<Rightarrow> ('w, unit) U" where
  "ls_main fuel os argv =
     uthn (if length argv < 2 then ls fuel os (str ''.'') else ueach (ls fuel os) (tl argv)) (uexit os 0)"

section \<open>kill.c, ln.c, rm.c, mkdir.c, sleep.c\<close>

definition kill_main :: "'w os \<Rightarrow> byte list list \<Rightarrow> ('w, unit) U" where
  "kill_main os argv =
     (if length argv < 2 then uthn (fprintf os 2 (line ''usage: kill pid...'') []) (uexit os 1)
      else uthn (ueach (\<lambda>a. uthn (ucall os (Kill (atoi a))) (uret ())) (tl argv)) (uexit os 0))"

definition ln_main :: "'w os \<Rightarrow> byte list list \<Rightarrow> ('w, unit) U" where
  "ln_main os argv =
     (case argv of
        [_, old, new] \<Rightarrow>
          ubnd (ucall os (Link old new)) (\<lambda>n.
          uthn (if n < 0 then fprintf os 2 (line ''link %s %s: failed'') [AStr (Some old), AStr (Some new)] else uret ())
               (uexit os 0))
      | _ \<Rightarrow> uthn (fprintf os 2 (line ''Usage: ln old new'') []) (uexit os 1))"

fun rm_files :: "'w os \<Rightarrow> byte list list \<Rightarrow> ('w, unit) U" where
  "rm_files os [] = uret ()"
| "rm_files os (f # fs) = ubnd (ucall os (Unlink f)) (\<lambda>n.
     if n < 0 then fprintf os 2 (line ''rm: %s failed to delete'') [AStr (Some f)] else rm_files os fs)"

definition rm_main :: "'w os \<Rightarrow> byte list list \<Rightarrow> ('w, unit) U" where
  "rm_main os argv =
     (if length argv < 2 then uthn (fprintf os 2 (line ''Usage: rm files...'') []) (uexit os 1)
      else uthn (rm_files os (tl argv)) (uexit os 0))"

fun mkdir_files :: "'w os \<Rightarrow> byte list list \<Rightarrow> ('w, unit) U" where
  "mkdir_files os [] = uret ()"
| "mkdir_files os (f # fs) = ubnd (ucall os (Mkdir f)) (\<lambda>n.
     if n < 0 then fprintf os 2 (line ''mkdir: %s failed to create'') [AStr (Some f)] else mkdir_files os fs)"

definition mkdir_main :: "'w os \<Rightarrow> byte list list \<Rightarrow> ('w, unit) U" where
  "mkdir_main os argv =
     (if length argv < 2 then uthn (fprintf os 2 (line ''Usage: mkdir files...'') []) (uexit os 1)
      else uthn (mkdir_files os (tl argv)) (uexit os 0))"

definition sleep_main :: "'w os \<Rightarrow> byte list list \<Rightarrow> ('w, unit) U" where
  "sleep_main os argv =
     (case argv of
        [_, n] \<Rightarrow> uthn (ucall os (Sleep (atoi n))) (uexit os 0)
      | _ \<Rightarrow> uthn (fprintf os 2 (line ''usage: sleep <ticks>'') []) (uexit os 1))"

section \<open>time.c, time1.c, ps.c, pexec.c, uptime.c\<close>

text \<open>A child whose \<^verbatim>\<open>exec\<close> fails prints a message and exits. The division by the elapsed time is undefined when no
  tick has passed.\<close>

definition time_main :: "'w os \<Rightarrow> byte list list \<Rightarrow> ('w, unit) U" where
  "time_main os argv =
     (if length argv < 2 then uthn (printf_u os (line ''Missing arguments'') []) (uexit os 1)
      else
        ubnd (ucall os Uptime) (\<lambda>start.
        ubnd (ucall os Fork) (\<lambda>pid.
        if pid = 0 then
          uthn (uexec os (argv ! 1) (tl argv)) (uthn (printf_u os (line ''Executing child process'') []) (uexit os 1))
        else if pid = - 1 then uthn (printf_u os (line ''ERROR: no process created'') []) (uexit os 1)
        else
          ubnd (usys os Wait2) (\<lambda>(wait_pid, ru).
          ubnd (ucall os Uptime) (\<lambda>end_time.
          if wait_pid < 0 then uthn (printf_u os (str ''Child process didn'' @ [39] @ line ''t return'') []) (uexit os 1)
          else
            (let cputime = ld32 (at ru) 0; elapsed = of_int end_time - of_int start :: u32 in
             if elapsed = 0 then ustop UUndef
             else uthn (fprintf os 1 (line ''elapsed time: %d ticks, cpu time: %d ticks, %d%% CPU'')
                    [AInt elapsed, AInt cputime, AInt (cputime * 100 div elapsed)]) (uexit os 0)))))))"

text \<open>When \<^verbatim>\<open>wait\<close> fails, \<open>status\<close> is read uninitialised.\<close>

definition time1_main :: "'w os \<Rightarrow> byte list list \<Rightarrow> ('w, unit) U" where
  "time1_main os argv =
     (if length argv < 2 then uthn (printf_u os (line ''Missing arguments'') []) (uexit os 1)
      else
        ubnd (ucall os Uptime) (\<lambda>start.
        ubnd (ucall os Fork) (\<lambda>pid.
        if pid = 0 then
          uthn (uexec os (argv ! 1) (tl argv)) (uthn (printf_u os (line ''Child process executing'') []) (uexit os 1))
        else if pid = - 1 then uthn (printf_u os (line ''Error: no child process created'') []) (uexit os 1)
        else
          ubnd (usys os Wait) (\<lambda>(r, d).
          ubnd (ucall os Uptime) (\<lambda>end_time.
          if r < 0 then ustop UUndef
          else uthn (if ld32 (at d) 0 = 0
                     then printf_u os (line ''Time elapsed: %d ticks'') [AInt (of_int end_time - of_int start)]
                     else printf_u os (line ''Error: invalid arguments'') [])
                    (uexit os 0))))))"

text \<open>The \<open>i\<close>th \<^verbatim>\<open>struct pstat\<close>, of 56 bytes, and the name of a state. The table has six entries and no string for
  \<open>UNUSED\<close> and \<open>USED\<close>; the kernel gives no number above 5.\<close>

definition pstat_at :: "byte list \<Rightarrow> nat \<Rightarrow> bytes" where
  "pstat_at d i = at (drop (56 * i) d)"

definition ps_state :: "u32 \<Rightarrow> byte list option" where
  "ps_state s = (if s = 2 then Some (str ''sleeping'') else if s = 3 then Some (str ''runnable'')
     else if s = 4 then Some (str ''running '') else if s = 5 then Some (str ''zombie  '') else None)"

definition ps_line :: "'w os \<Rightarrow> bytes \<Rightarrow> ('w, unit) U" where
  "ps_line os p =
     printf_u os (str ''%d'' @ [9] @ str ''%s'' @ [9] @ str ''%l'' @ [9] @ str ''%d'' @ [9] @ line ''%s'')
       [AInt (ld32 p 4), AStr (ps_state (ld32 p 8)), APtr (ld64 p 16), AInt (ld32 p 24),
        AStr (Some (takeWhile (\<lambda>c. c \<noteq> 0) (get_bytes p 28 16)))]"

definition ps_main :: "'w os \<Rightarrow> ('w, unit) U" where
  "ps_main os = ubnd (usys os Getprocs) (\<lambda>(n, d).
     if n < 0 then uexit os (- 1)
     else
       uthn (printf_u os (str ''pid'' @ [9] @ str ''state'' @ [9, 9] @ str ''size'' @ [9] @ str ''ppid'' @ [9] @ line ''name'') []) (
       uthn (ueach (\<lambda>i. ps_line os (pstat_at d i)) [0..<nat n])
            (uexit os 0)))"

text \<open>\<^verbatim>\<open>newargv\<close> has room for 16 pointers with the null one.\<close>

definition pexec_main :: "'w os \<Rightarrow> byte list list \<Rightarrow> ('w, unit) U" where
  "pexec_main os argv =
     (if length argv < 3 then uthn (printf_u os (line ''Usage: pexec <priority> <comm> [args...]'') []) (uexit os (- 1))
      else
        uthn (ucall os (Setpriority (atoi (argv ! 1)))) (
        if length argv - 2 \<ge> 16 then ustop UUndef
        else
          ubnd (ucall os Fork) (\<lambda>rc.
          uthn (if rc = 0 then uexec os (argv ! 2) (drop 2 argv) else uret ()) (
          uthn (ucall os Wait) (uexit os 0)))))"

definition uptime_main :: "'w os \<Rightarrow> ('w, unit) U" where
  "uptime_main os = ubnd (ucall os Uptime) (\<lambda>ticks.
     uthn (printf_u os (line ''%d clock ticks'') [AInt (of_int ticks)]) (uexit os 0))"

section \<open>init.c, zombie.c, stressfs.c, forktest.c\<close>

text \<open>\<open>init\<close> runs for ever: the two loops have fuel.\<close>

fun init_wait :: "nat \<Rightarrow> 'w os \<Rightarrow> int \<Rightarrow> ('w, unit) U" where
  "init_wait 0 os pid = ustop UMore"
| "init_wait (Suc k) os pid = ubnd (ucall os Wait) (\<lambda>wpid.
     if wpid = pid then uret ()
     else if wpid < 0 then uthn (printf_u os (line ''init: wait returned an error'') []) (uexit os 1)
     else init_wait k os pid)"

fun init_loop :: "nat \<Rightarrow> 'w os \<Rightarrow> ('w, unit) U" where
  "init_loop 0 os = ustop UMore"
| "init_loop (Suc k) os =
     uthn (printf_u os (line ''init: starting sh'') []) (
     ubnd (ucall os Fork) (\<lambda>pid.
     if pid < 0 then uthn (printf_u os (line ''init: fork failed'') []) (uexit os 1)
     else if pid = 0 then
       uthn (uexec os (str ''sh'') [str ''sh'']) (
       uthn (printf_u os (line ''init: exec sh failed'') []) (uexit os 1))
     else uthn (init_wait k os pid) (init_loop k os)))"

definition init_main :: "nat \<Rightarrow> 'w os \<Rightarrow> ('w, unit) U" where
  "init_main fuel os = ubnd (ucall os (Open (str ''console'') 2)) (\<lambda>fd.
     uthn (if fd < 0 then uthn (ucall os (Mknod (str ''console'') 1 0)) (uthn (ucall os (Open (str ''console'') 2)) (uret ()))
           else uret ()) (
     uthn (ucall os (Dup 0)) (
     uthn (ucall os (Dup 0))
          (init_loop fuel os))))"

definition zombie_main :: "'w os \<Rightarrow> ('w, unit) U" where
  "zombie_main os = ubnd (ucall os Fork) (\<lambda>pid.
     uthn (if pid > 0 then uthn (ucall os (Sleep 5)) (uret ()) else uret ()) (uexit os 0))"

text \<open>The value of \<open>i\<close> after the loop of forks, with \<open>k\<close> rounds left.\<close>

fun stress_forks :: "nat \<Rightarrow> 'w os \<Rightarrow> nat \<Rightarrow> ('w, nat) U" where
  "stress_forks 0 os i = uret i"
| "stress_forks (Suc k) os i = ubnd (ucall os Fork) (\<lambda>pid. if pid > 0 then uret i else stress_forks k os (i + 1))"

definition stressfs_main :: "'w os \<Rightarrow> ('w, unit) U" where
  "stressfs_main os =
     (let data = replicate 512 (of_char CHR ''a'') in
      uthn (printf_u os (line ''stressfs starting'') []) (
      ubnd (stress_forks 4 os 0) (\<lambda>i.
      uthn (printf_u os (line ''write %d'') [AInt (of_nat i)]) (
      let file = str ''stressfs'' @ [of_char CHR ''0'' + of_nat i] in
      ubnd (ucall os (Open file (0x200 OR 0x002))) (\<lambda>fd.
      uthn (ueach (\<lambda>_. uthn (ucall os (Write fd data)) (uret ())) [0..<20]) (
      uthn (ucall os (Close fd)) (
      uthn (printf_u os (line ''read'') []) (
      ubnd (ucall os (Open file 0)) (\<lambda>fd.
      uthn (ueach (\<lambda>_. uthn (ucall os (Read fd 512)) (uret ())) [0..<20]) (
      uthn (ucall os (Close fd)) (
      uthn (ucall os Wait) (uexit os 0))))))))))))"

definition print :: "'w os \<Rightarrow> byte list \<Rightarrow> ('w, unit) U" where
  "print os s = uthn (ucall os (Write 1 s)) (uret ())"

text \<open>The number of forks that succeeded, of at most \<open>k\<close> more; a child exits.\<close>

fun fork_many :: "nat \<Rightarrow> 'w os \<Rightarrow> nat \<Rightarrow> ('w, nat) U" where
  "fork_many 0 os n = uret n"
| "fork_many (Suc k) os n = ubnd (ucall os Fork) (\<lambda>pid.
     if pid < 0 then uret n else if pid = 0 then uexit os 0 else fork_many k os (n + 1))"

fun wait_many :: "nat \<Rightarrow> 'w os \<Rightarrow> ('w, unit) U" where
  "wait_many 0 os = uret ()"
| "wait_many (Suc n) os = ubnd (ucall os Wait) (\<lambda>r.
     if r < 0 then uthn (print os (line ''wait stopped early'')) (uexit os 1) else wait_many n os)"

definition forktest :: "'w os \<Rightarrow> ('w, unit) U" where
  "forktest os =
     uthn (print os (line ''fork test'')) (
     ubnd (fork_many 1000 os 0) (\<lambda>n.
     if n = 1000 then uthn (print os (line ''fork claimed to work N times!'')) (uexit os 1)
     else
       uthn (wait_many n os) (
       ubnd (ucall os Wait) (\<lambda>r.
       if r \<noteq> - 1 then uthn (print os (line ''wait got too many'')) (uexit os 1)
       else print os (line ''fork test OK'')))))"

definition forktest_main :: "'w os \<Rightarrow> ('w, unit) U" where
  "forktest_main os = uthn (forktest os) (uexit os 0)"

section \<open>grind.c: the random number generator\<close>

text \<open>The arithmetic is on 64-bit values, all far below the limit, and the division is that of non-negative numbers.\<close>

definition do_rand :: "u64 \<Rightarrow> int \<times> u64" where
  "do_rand ctx =
     (let x = uint (ctx mod 0x7ffffffe) + 1;
          hi = x div 127773;
          lo = x mod 127773;
          x = 16807 * lo - 2836 * hi;
          x = (if x < 0 then x + 0x7fffffff else x);
          x = x - 1
      in (x, of_int x))"

section \<open>What the programs do\<close>

text \<open>Schrage's method: the result is that of the multiplication modulo the prime, done without the wide product.\<close>

lemma schrage:
  fixes x :: int
  assumes x: "1 \<le> x" "x \<le> 0x7ffffffe"
  defines "y \<equiv> 16807 * (x mod 127773) - 2836 * (x div 127773)"
  shows "(if y < 0 then y + 0x7fffffff else y) = 16807 * x mod 0x7fffffff"
proof -
  define hi lo where h: "hi = x div 127773" "lo = x mod 127773"
  have hl: "x = 127773 * hi + lo" "0 \<le> lo" "lo < 127773" "0 \<le> hi" "hi \<le> 16807" using x by (simp_all add: h)
  have y: "y = 16807 * lo - 2836 * hi" by (simp add: y_def h)
  have "16807 * x = y + 0x7fffffff * hi" unfolding y hl(1) by (simp add: algebra_simps)
  then have m: "16807 * x mod 0x7fffffff = y mod 0x7fffffff" by (simp only: mod_mult_self2)
  have b: "- 0x7fffffff < y" "y < 0x7fffffff" using hl y by linarith+
  show ?thesis
  proof (cases "y < 0")
    case True
    then have "(y + 0x7fffffff) mod 0x7fffffff = y + 0x7fffffff" using b by (intro mod_pos_pos_trivial) auto
    then show ?thesis using True m by simp
  next
    case False
    then have "y mod 0x7fffffff = y" using b by (intro mod_pos_pos_trivial) auto
    then show ?thesis using False m by simp
  qed
qed

lemma mult_not_0_mod_p:
  fixes x :: int
  assumes x: "1 \<le> x" "x \<le> 0x7ffffffe"
  shows "16807 * x mod 0x7fffffff \<noteq> 0"
proof -
  have "coprime 0x7fffffff (16807 :: int)" unfolding coprime_iff_gcd_eq_1 by code_simp
  moreover have "\<not> 0x7fffffff dvd x" using x zdvd_imp_le [of "0x7fffffff" x] by linarith
  ultimately show ?thesis by (simp only: mod_eq_0_iff_dvd coprime_dvd_mult_right_iff not_False_eq_True)
qed

text \<open>C38: \<open>do_rand\<close> of grind is the Park-Miller generator: for every 64-bit state the result is
  \<open>16807 x mod (2^31 - 1) - 1\<close> for the state reduced to \<open>x\<close> in \<open>1..2^31 - 2\<close>, computed without the wide
  product; it is in the range the comment gives and is the next state.\<close>

theorem do_rand_is_park_miller:
  "fst (do_rand ctx) = 16807 * (uint ctx mod 0x7ffffffe + 1) mod 0x7fffffff - 1
   \<and> 0 \<le> fst (do_rand ctx) \<and> fst (do_rand ctx) \<le> 0x7ffffffd \<and> uint (snd (do_rand ctx)) = fst (do_rand ctx)"
proof -
  define x where x: "x = uint ctx mod 0x7ffffffe + 1"
  have "0 \<le> uint ctx mod 0x7ffffffe" "uint ctx mod 0x7ffffffe < 0x7ffffffe" by simp_all
  then have xb: "1 \<le> x" "x \<le> 0x7ffffffe" using x by linarith+
  have r: "fst (do_rand ctx) = 16807 * x mod 0x7fffffff - 1"
    unfolding schrage [OF xb, symmetric] by (simp add: do_rand_def Let_def uint_mod x)
  have "0 \<le> 16807 * x mod 0x7fffffff" "16807 * x mod 0x7fffffff < 0x7fffffff" by (simp_all add: pos_mod_bound pos_mod_sign)
  with mult_not_0_mod_p [OF xb] have b: "0 \<le> fst (do_rand ctx)" "fst (do_rand ctx) \<le> 0x7ffffffd" unfolding r by linarith+
  have "snd (do_rand ctx) = of_int (fst (do_rand ctx))" by (simp only: do_rand_def Let_def fst_conv snd_conv)
  then have "uint (snd (do_rand ctx)) = fst (do_rand ctx) mod 2 ^ 64" by (simp add: uint_word_of_int)
  also have "\<dots> = fst (do_rand ctx)" using b by (intro mod_pos_pos_trivial) auto
  finally show ?thesis using r b x by simp
qed

text \<open>A read of a stream that is not at its end.\<close>

lemma stream_read:
  assumes "stream_io os fd inp outp" "0 < n"
  obtains k w' where "os (Read fd n) w = ((int k, take k (inp w)), w')" "k \<le> length (inp w)" "inp w \<noteq> [] \<longrightarrow> 0 < k"
    "inp w' = drop k (inp w)" "outp w' = outp w"
  using assms unfolding stream_io_def by blast

lemma cat_copies:
  "stream_io os fd inp outp \<Longrightarrow> length (inp w) < fuel \<Longrightarrow>
    \<exists>w'. cat fuel os fd w = (URet (), w') \<and> outp w' = outp w @ inp w \<and> inp w' = []"
proof (induction fuel arbitrary: w)
  case (Suc fuel)
  obtain k w1 where k: "os (Read fd 512) w = ((int k, take k (inp w)), w1)" "k \<le> length (inp w)" "inp w \<noteq> [] \<longrightarrow> 0 < k"
    "inp w1 = drop k (inp w)" "outp w1 = outp w" using stream_read [OF Suc.prems(1), of 512 w] by auto
  show ?case
  proof (cases "k = 0")
    case True
    then show ?thesis using k by (auto simp: user_simps)
  next
    case False
    obtain d w2 where w2: "os (Write 1 (take k (inp w))) w1 = ((int (length (take k (inp w))), d), w2)"
      "outp w2 = outp w1 @ take k (inp w)" "inp w2 = inp w1" using Suc.prems(1) unfolding stream_io_def by blast
    have "cat (Suc fuel) os fd w = cat fuel os fd w2" using k(1,2) w2(1) False by (simp add: user_simps min_def)
    moreover obtain w3 where "cat fuel os fd w2 = (URet (), w3)" "outp w3 = outp w2 @ inp w2" "inp w3 = []"
    proof -
      have "length (inp w2) < fuel" using Suc.prems(2) w2(3) k(2,4) False by simp
      then show ?thesis using that Suc.IH [OF Suc.prems(1), of w2] by blast
    qed
    ultimately show ?thesis using w2(2,3) k(4,5) by simp
  qed
qed simp

text \<open>What \<open>wc\<close> is to count: newlines, beginnings of runs of other bytes than blanks, and bytes.\<close>

definition blank :: "byte \<Rightarrow> bool" where
  "blank b \<longleftrightarrow> b \<in> {9, 10, 11, 13, 32}"

definition word_starts :: "byte list \<Rightarrow> nat set" where
  "word_starts s = set (filter (\<lambda>i. \<not> blank (s ! i) \<and> (i = 0 \<or> blank (s ! (i - 1)))) [0..<length s])"

definition wc_counts :: "byte list \<Rightarrow> counts" where
  "wc_counts s = \<lparr>c_l = of_nat (count_list s 10), c_w = of_nat (card (word_starts s)), c_c = of_nat (length s),
     inword = (s \<noteq> [] \<and> \<not> blank (last s))\<rparr>"

lemma strchr_blank: "strchr_u [32, 13, 9, 10, 11] b = None \<longleftrightarrow> \<not> blank b"
  by (auto simp: strchr_u_None blank_def simp del: strchr_u.simps)

lemma word_starts_snoc:
  "word_starts (s @ [b]) =
    (if \<not> blank b \<and> (s = [] \<or> blank (last s)) then insert (length s) (word_starts s) else word_starts s)"
  by (cases s rule: rev_cases) (auto simp: word_starts_def nth_append less_Suc_eq split: if_splits)

lemma finite_word_starts: "finite (word_starts s)" "length s \<notin> word_starts s"
  by (simp_all add: word_starts_def)

lemma wc_byte_counts: "wc_byte b (wc_counts s) = wc_counts (s @ [b])"
proof -
  have "b = 10 \<Longrightarrow> blank b" by (simp add: blank_def)
  then show ?thesis
    by (auto simp: wc_byte_def wc_counts_def Let_def strchr_blank word_starts_snoc finite_word_starts simp del: strchr_u.simps)
qed

lemma wc_bytes_counts: "fold wc_byte t (wc_counts s) = wc_counts (s @ t)"
  by (induction t arbitrary: s) (simp_all add: wc_byte_counts)

lemma wc_loop_counts:
  "stream_io os fd inp outp \<Longrightarrow> length (inp w) < fuel \<Longrightarrow>
    \<exists>w'. wc_loop fuel os fd name (wc_counts s) w =
         printf_u os (line ''%d %d %d %s'') [AInt (c_l (wc_counts (s @ inp w))), AInt (c_w (wc_counts (s @ inp w))),
           AInt (c_c (wc_counts (s @ inp w))), AStr (Some name)] w'
      \<and> outp w' = outp w \<and> inp w' = []"
proof (induction fuel arbitrary: w s)
  case (Suc fuel)
  obtain k w1 where k: "os (Read fd 512) w = ((int k, take k (inp w)), w1)" "k \<le> length (inp w)" "inp w \<noteq> [] \<longrightarrow> 0 < k"
    "inp w1 = drop k (inp w)" "outp w1 = outp w" using stream_read [OF Suc.prems(1), of 512 w] by auto
  show ?case
  proof (cases "k = 0")
    case True
    then show ?thesis using k by (auto simp: user_simps)
  next
    case False
    then have run: "wc_loop (Suc fuel) os fd name (wc_counts s) w = wc_loop fuel os fd name (wc_counts (s @ take k (inp w))) w1"
      using k(1) by (simp add: user_simps wc_bytes_counts)
    have "length (inp w1) < fuel" using Suc.prems(2) k(2,4) False by simp
    from Suc.IH [OF Suc.prems(1) this, of "s @ take k (inp w)"] show ?thesis unfolding run k(4,5) by simp
  qed
qed simp

text \<open>C39: \<open>wc\<close> ends and prints the number of newlines, of words and of bytes of its input modulo \<open>2^32\<close>, however the reads
  cut the input into pieces; a word is a maximal run of bytes that are not blanks, so one that two reads share counts once.\<close>

theorem wc_counts_input:
  assumes "stream_io os fd inp outp" "length (inp w) < fuel"
  shows "\<exists>w'. wc fuel os fd name w =
       printf_u os (line ''%d %d %d %s'') [AInt (of_nat (count_list (inp w) 10)), AInt (of_nat (card (word_starts (inp w)))),
         AInt (of_nat (length (inp w))), AStr (Some name)] w'
     \<and> outp w' = outp w \<and> inp w' = []"
proof -
  have "wc_counts [] = \<lparr>c_l = 0, c_w = 0, c_c = 0, inword = False\<rparr>" by (simp add: wc_counts_def word_starts_def)
  then show ?thesis using wc_loop_counts [OF assms, of name "[]"] by (simp add: wc_def wc_counts_def)
qed

theorem wc_counts_input_witness:
  "\<exists>w'. wc 20 pair_os 0 (str ''f'') (str ''ab c'' @ [10], []) =
       printf_u pair_os (line ''%d %d %d %s'') [AInt 1, AInt 2, AInt 5, AStr (Some (str ''f''))] w' \<and> snd w' = [] \<and> fst w' = []"
proof -
  let ?s = "str ''ab c'' @ [10]"
  have "card (word_starts ?s) = 2" "length ?s = 5" "count_list ?s 10 = 1" by code_simp+
  then show ?thesis using wc_counts_input [OF pair_os_stream, of "(?s, [])" 20 0 "str ''f''"] by simp
qed

end
