(* ===== verification/Fs_Blocks.thy ===== *)
theory Fs_Blocks
  imports Fs
begin

text \<open>
  The blocks of files. Inside a transaction the blocks are a map \<open>V\<close> from block numbers to bytes; the
  routines of kernel/fs.c change that map by reading a block, changing it, logging it and releasing it.
  The locale \<open>transaction\<close> states what bio.c and log.c promise for these steps. On top of it the bitmap is a set of used
  blocks and an inode is a function from offsets to bytes; \<open>balloc\<close> takes the first free block and \<open>bmap\<close> gives a file
  the block for an offset without changing what the file or any other file reads as.
\<close>

section \<open>Blocks within a transaction\<close>

text \<open>\<open>st s V Q B\<close>: the blocks read as \<open>V\<close>, the buffers \<open>Q\<close> are locked by the process, the blocks \<open>B\<close> are in the
  transaction. \<open>home\<close> are the blocks that may be logged, and \<open>opn\<close> that an operation has begun.\<close>

locale transaction =
  fixes rd :: "u32 \<Rightarrow> ('s, nat) K"
    and upd :: "nat \<Rightarrow> (bytes \<Rightarrow> bytes) \<Rightarrow> ('s, unit) K"
    and lw :: "nat \<Rightarrow> ('s, unit) K"
    and rel :: "nat \<Rightarrow> ('s, unit) K"
    and dat :: "'s \<Rightarrow> nat \<Rightarrow> bytes"
    and st :: "'s \<Rightarrow> (u32 \<Rightarrow> bytes) \<Rightarrow> (u32 \<Rightarrow> nat option) \<Rightarrow> u32 set \<Rightarrow> bool"
    and dsk :: "'s \<Rightarrow> u32 \<Rightarrow> bytes"
    and home :: "'s \<Rightarrow> u32 set"
    and opn :: "'s \<Rightarrow> bool"
    and keep :: "'s \<Rightarrow> 's \<Rightarrow> bool"
  assumes rd_ok: "st s V Q B \<Longrightarrow> Q n = None \<Longrightarrow> card B + card (dom Q) < NBUF \<Longrightarrow>
      \<exists>i t. rd n s = Done i t \<and> st t V (Q(n \<mapsto> i)) B \<and> dat t i = V n \<and> keep s t"
    and upd_ok: "st s V Q B \<Longrightarrow> Q n = Some i \<Longrightarrow> block_ok (f (V n)) \<Longrightarrow>
      \<exists>t. upd i f s = Done () t \<and> st t (V(n := f (V n))) Q B \<and> keep s t"
    and lw_ok: "st s V Q B \<Longrightarrow> Q n = Some i \<Longrightarrow> n \<in> home s \<Longrightarrow> opn s \<Longrightarrow> Suc (card B) < LOGSIZE \<Longrightarrow>
      \<exists>t. lw i s = Done () t \<and> st t V Q (insert n B) \<and> keep s t"
    and rel_ok: "st s V Q B \<Longrightarrow> Q n = Some i \<Longrightarrow> n \<in> B \<or> V n = dsk s n \<Longrightarrow>
      \<exists>t. rel i s = Done () t \<and> st t V (Q(n := None)) B \<and> keep s t"
    and clean: "st s V Q B \<Longrightarrow> Q n = None \<Longrightarrow> n \<notin> B \<Longrightarrow> V n = dsk s n"
    and keep_refl: "keep s s"
    and keep_trans: "keep s t \<Longrightarrow> keep t u \<Longrightarrow> keep s u"
    and keep_same: "keep s t \<Longrightarrow> dsk t = dsk s \<and> home t = home s \<and> opn t = opn s"
begin

text \<open>A block is read and released again.\<close>

lemma read_ok:
  assumes "st s V Q B" "Q n = None" "card B + card (dom Q) < NBUF"
  shows "\<exists>i t u. rd n s = Done i t \<and> st t V (Q(n \<mapsto> i)) B \<and> dat t i = V n \<and> keep s t
    \<and> rel i t = Done () u \<and> st u V Q B \<and> keep s u"
proof -
  obtain i t where t: "rd n s = Done i t" "st t V (Q(n \<mapsto> i)) B" "dat t i = V n" "keep s t"
    using rd_ok [OF assms] by blast
  have "n \<in> B \<or> V n = dsk t n" using clean [OF assms(1,2)] keep_same [OF t(4)] by auto
  with rel_ok [OF t(2), of n i] obtain u where u: "rel i t = Done () u" "st u V ((Q(n \<mapsto> i))(n := None)) B" "keep t u"
    by auto
  have "(Q(n \<mapsto> i))(n := None) = Q" using assms(2) by auto
  with t u keep_trans [OF t(4) u(3)] show ?thesis by auto
qed

text \<open>A locked block is changed, logged and released.\<close>

lemma write_back_ok:
  assumes "st t V (Q(n \<mapsto> i)) B" "Q n = None" "block_ok (f (V n))" "n \<in> home t" "opn t" "Suc (card B) < LOGSIZE"
  shows "\<exists>u v w. upd i f t = Done () u \<and> lw i u = Done () v \<and> rel i v = Done () w
    \<and> st w (V(n := f (V n))) Q (insert n B) \<and> keep t w"
proof -
  obtain u where u: "upd i f t = Done () u" "st u (V(n := f (V n))) (Q(n \<mapsto> i)) B" "keep t u"
    using upd_ok [OF assms(1), of n i f] assms(3) by auto
  obtain v where v: "lw i u = Done () v" "st v (V(n := f (V n))) (Q(n \<mapsto> i)) (insert n B)" "keep u v"
    using lw_ok [OF u(2), of n i] assms(4-6) keep_same [OF u(3)] by auto
  obtain w where w: "rel i v = Done () w" "st w (V(n := f (V n))) ((Q(n \<mapsto> i))(n := None)) (insert n B)" "keep v w"
    using rel_ok [OF v(2), of n i] by auto
  have "(Q(n \<mapsto> i))(n := None) = Q" using assms(2) by auto
  moreover have "keep t w" using u(3) v(3) w(3) keep_trans by blast
  ultimately show ?thesis using u v w by auto
qed

lemma rewrite_ok:
  assumes "st s V Q B" "Q n = None" "card B + card (dom Q) < NBUF" "block_ok (f (V n))" "n \<in> home s" "opn s"
    "Suc (card B) < LOGSIZE"
  shows "\<exists>t. bnd (rd n) (\<lambda>i. thn (upd i f) (thn (lw i) (rel i))) s = Done () t
    \<and> st t (V(n := f (V n))) Q (insert n B) \<and> keep s t"
proof -
  obtain i t where t: "rd n s = Done i t" "st t V (Q(n \<mapsto> i)) B" "keep s t" using rd_ok [OF assms(1-3)] by blast
  obtain u v w where w: "upd i f t = Done () u" "lw i u = Done () v" "rel i v = Done () w"
    "st w (V(n := f (V n))) Q (insert n B)" "keep t w"
    using write_back_ok [of t V Q n i B f] t(2) assms(2,4) keep_same [OF t(3)] assms(5-7) by auto
  then show ?thesis using t keep_trans [OF t(3) w(5)] by (auto simp: bnd_app thn_app)
qed

end

definition tx :: "'x log_state_scheme \<Rightarrow> (u32 \<Rightarrow> bytes) \<Rightarrow> (u32 \<Rightarrow> nat option) \<Rightarrow> u32 set \<Rightarrow> bool" where
  "tx s V Q B \<longleftrightarrow> log_inv s V Q (card B) \<and> lh_block s ` {..<card B} = B \<and> finite (dom Q)"

definition in_op :: "'x log_state_scheme \<Rightarrow> bool" where
  "in_op s \<longleftrightarrow> 1 \<le> lg_outstanding s \<and> LkLog \<notin> set (held s) \<and> int LOGSIZE \<le> lg_size s"

definition tx_keep :: "'x log_state_scheme \<Rightarrow> 'x log_state_scheme \<Rightarrow> bool" where
  "tx_keep s t \<longleftrightarrow> log_frame s t \<and> disk t = disk s"

lemma tx_bio: "tx s V Q B \<Longrightarrow> bio_st s V Q (pins B)"
  by (auto simp: tx_def log_inv_def)

lemma tx_frame:
  assumes "tx s V Q B" "bio_frame s t" "disk t = disk s" "\<And>n. block_ok (V' n)" "bio_st t V' Q' (pins B)" "finite (dom Q')"
  shows "tx t V' Q' B" "tx_keep s t"
  using assms log_inv_frame [of s V Q "card B" t V' Q'] bio_frame_log(7) [OF assms(2)] bio_log_frame [OF assms(2)]
  by (auto simp: tx_def tx_keep_def)

lemma tx_blocks: "tx s V Q B \<Longrightarrow> block_ok (V n)"
  by (simp add: tx_def log_inv_def)

lemma busy_card: "finite B \<Longrightarrow> finite (dom Q) \<Longrightarrow> card (busy_blocks Q (pins B)) \<le> card B + card (dom Q)"
proof -
  have "busy_blocks Q (pins B) = B \<union> dom Q" by (auto simp: busy_blocks_def pins_def)
  then show ?thesis by (simp add: card_Un_le)
qed

lemma tx_finite: "tx s V Q B \<Longrightarrow> finite B"
  unfolding tx_def by (metis finite_imageI finite_lessThan)

interpretation tr: transaction "bread ROOTDEV" "\<lambda>i f. modb i (b_data_update f)" log_write brelse
    "\<lambda>s i. b_data (bufs s i)" tx disk "\<lambda>s. - log_area (lg_start s)" in_op tx_keep
proof (unfold_locales, goal_cases)
  case (1 s V Q B n)
  then have "card (busy_blocks Q (pins B)) < NBUF" using busy_card [of B Q] tx_finite [OF 1(1)] by (auto simp: tx_def)
  then have "room Q (pins B) n" using 1 by (simp add: room_def)
  from bc.rd_ok [OF tx_bio [OF 1(1)] this] show ?case
    using tx_frame [OF 1(1)] tx_blocks [OF 1(1)] 1(1) by (fastforce simp: tx_def)
next
  case (2 s V Q B n i f)
  from bc.upd_ok [OF tx_bio [OF 2(1)] 2(2), of f] obtain t where
    t: "modb i (b_data_update f) s = Done () t" "bio_st t (V(n := f (V n))) Q (pins B)" "bio_frame s t" "disk t = disk s"
    by blast
  have "block_ok ((V(n := f (V n))) m)" for m using tx_blocks [OF 2(1)] 2(3) by simp
  from tx_frame [OF 2(1) t(3,4) this t(2)] 2(1) t(1) show ?case by (auto simp: tx_def)
next
  case (3 s V Q B n i)
  let ?k = "card B"
  have inv: "log_inv s V Q ?k" "lh_block s ` {..<?k} = B" using 3(1) by (auto simp: tx_def)
  have *: "n \<notin> log_area (lg_start s)" "int ?k < lg_size s - 1" "1 \<le> lg_outstanding s" "LkLog \<notin> set (held s)"
    using 3(3-5) by (auto simp: in_op_def)
  have c: "(if n \<in> B then ?k else Suc ?k) = card (insert n B)" using tx_finite [OF 3(1)] by (simp add: insert_absorb)
  from log_write_ok [OF inv(1) 3(2) *(1,2) _ *(3,4)] 3(5) obtain t where
    t: "log_write i s = Done () t" "log_inv t V Q (card (insert n B))" "log_frame s t"
      "lh_block t ` {..<card (insert n B)} = insert n B" "disk t = disk s" unfolding inv(2) c by blast
  then show ?case using 3(1) by (auto simp: tx_def tx_keep_def)
next
  case (4 s V Q B n i)
  have "pins B n = 0 \<Longrightarrow> V n = disk s n" using 4(3) by (auto simp: pins_def split: if_splits)
  from bc.rel_ok [OF tx_bio [OF 4(1)] 4(2) this] obtain t where
    t: "brelse i s = Done () t" "bio_st t V (Q(n := None)) (pins B)" "bio_frame s t" "disk t = disk s" by blast
  have "finite (dom (Q(n := None)))" using 4(1) by (auto simp: tx_def)
  from tx_frame [OF 4(1) t(3,4) tx_blocks [OF 4(1)] t(2) this] t(1) show ?case by blast
next
  case (5 s V Q B n)
  then show ?case using cacheD(3) [of s V Q "pins B" n] tx_bio [OF 5(1)] by (auto simp: bio_st_def blk_ok_def pins_def)
next
  case (6 s)
  then show ?case by (simp add: tx_keep_def bio_log_frame)
next
  case (7 s t u)
  then show ?case using log_frame_trans by (auto simp: tx_keep_def)
next
  case (8 s t)
  then show ?case using log_frame_fields [of s t] by (auto simp: tx_keep_def in_op_def)
qed

lemma tx_keep_fs:
  assumes "tx_keep s (t :: 'x fs_scheme)"
  shows "fs_sb t = fs_sb s" "inodes t = inodes s" "mem t = mem s" "curproc t = curproc s" "lg_start t = lg_start s"
    "in_op t = in_op s" "curproc s = Some p \<Longrightarrow> procs t p = procs s p"
  using assms tr.keep_same [OF assms] log_frame_fields [of s t]
  by (cases s; cases t; force simp: tx_keep_def log_frame_def bio_frame_def procs_kept_def)+

section \<open>The bitmap\<close>

text \<open>The file system fits in one bitmap block, as the one that mkfs makes.\<close>

definition ubit :: "bytes \<Rightarrow> nat \<Rightarrow> bool" where
  "ubit d b \<longleftrightarrow> bit (d (b div 8)) (b mod 8)"

definition set_ubit :: "bytes \<Rightarrow> nat \<Rightarrow> bytes" where
  "set_ubit d b = d(b div 8 := d (b div 8) OR bit_of b)"

definition bmap_blk :: "superblock \<Rightarrow> u32" where
  "bmap_blk sb = sb_bmapstart sb"

definition fsize :: "superblock \<Rightarrow> nat" where
  "fsize sb = unat (sb_size sb)"

definition one_bitmap :: "superblock \<Rightarrow> bool" where
  "one_bitmap sb \<longleftrightarrow> 0 < fsize sb \<and> fsize sb \<le> 8192"

lemma bit_of_test: "d (b div 8) AND bit_of b = 0 \<longleftrightarrow> \<not> ubit d b"
  by (simp add: ubit_def bit_of_def push_bit_eq_mult and_exp_eq_0_iff_not_bit)

lemma ubit_set: "ubit (set_ubit d b) c \<longleftrightarrow> c = b \<or> ubit d c"
proof (cases "c div 8 = b div 8")
  case True
  have "bit (bit_of b) (c mod 8) \<longleftrightarrow> c mod 8 = b mod 8"
    by (auto simp: bit_of_def push_bit_eq_mult bit_exp_iff)
  moreover have "c mod 8 = b mod 8 \<longleftrightarrow> c = b" using True div_mult_mod_eq [of c 8] div_mult_mod_eq [of b 8] by metis
  ultimately show ?thesis using True by (auto simp: ubit_def set_ubit_def bit_or_iff)
qed (auto simp: ubit_def set_ubit_def)

lemma block_ok_set_ubit: "block_ok d \<Longrightarrow> b < 8192 \<Longrightarrow> block_ok (set_ubit d b)"
  by (auto simp: block_ok_def set_ubit_def BSIZE_def)

lemma block_ok_0 [simp]: "block_ok (\<lambda>_. 0)"
  by (simp add: block_ok_def)

lemma memset_block: "block_ok d \<Longrightarrow> memset d 0 0 BSIZE = (\<lambda>_. 0)"
  by (auto simp: memset_eq block_ok_def fun_eq_iff)

lemma bzero_ok:
  assumes "tx s V Q B" "in_op s" "Q n = None" "n \<notin> log_area (lg_start s)" "card B + card (dom Q) < NBUF" "Suc (card B) < LOGSIZE"
  shows "\<exists>t. bzero ROOTDEV n s = Done () t \<and> tx t (V(n := (\<lambda>_. 0))) Q (insert n B) \<and> tx_keep s t"
proof -
  have m: "memset (V n) 0 0 BSIZE = (\<lambda>_. 0)" using memset_block [OF tx_blocks [OF assms(1)]] .
  then show ?thesis
    using tr.rewrite_ok [OF assms(1,3,5), of "\<lambda>d. memset d 0 0 BSIZE"] assms by (simp add: bzero_def)
qed

definition alloc_view :: "superblock \<Rightarrow> nat \<Rightarrow> (u32 \<Rightarrow> bytes) \<Rightarrow> u32 \<Rightarrow> bytes" where
  "alloc_view sb b V = V(bmap_blk sb := set_ubit (V (bmap_blk sb)) b, of_nat b := (\<lambda>_. 0))"

lemma balloc_ok:
  assumes s: "tx s V Q B" "in_op s" and sb: "one_bitmap (fs_sb s)"
    and b: "b < fsize (fs_sb s)" "\<not> ubit (V (bmap_blk (fs_sb s))) b" "\<And>c. c < b \<Longrightarrow> ubit (V (bmap_blk (fs_sb s))) c"
    and Q: "Q (bmap_blk (fs_sb s)) = None" "Q (of_nat b) = None"
    and h: "bmap_blk (fs_sb s) \<notin> log_area (lg_start s)" "of_nat b \<notin> log_area (lg_start s)"
    and room: "Suc (card B + card (dom Q)) < NBUF" "Suc (Suc (card B)) < LOGSIZE"
  shows "\<exists>t. balloc ROOTDEV s = Done (of_nat b) t
    \<and> tx t (alloc_view (fs_sb s) b V) Q (insert (of_nat b) (insert (bmap_blk (fs_sb s)) B)) \<and> tx_keep s t"
proof -
  let ?m = "bmap_blk (fs_sb s)"
  have sz: "fsize (fs_sb s) \<le> 8192" "0 < fsize (fs_sb s)" using sb by (auto simp: one_bitmap_def)
  have one: "(unat (sb_size (fs_sb s)) + 8191) div 8192 = 1" using sz unfolding fsize_def by linarith
  have bb: "BBLOCK 0 (fs_sb s) = ?m" by (simp add: BBLOCK_def bmap_blk_def)
  have BPB: "unat BPB = 8192" by (simp add: BPB_def BSIZE_def)
  have fb: "free_bit (V ?m) 0 (sb_size (fs_sb s)) = Some b"
    using b sz by (simp add: free_bit_def BPB first_idx_Some bit_of_test fsize_def)
  obtain i t where t: "bread ROOTDEV ?m s = Done i t" "tx t V (Q(?m \<mapsto> i)) B" "b_data (bufs t i) = V ?m" "tx_keep s t"
    using tr.rd_ok [OF s(1) Q(1)] room by auto
  note kt = tx_keep_fs [OF t(4)]
  obtain u v w where w: "modb i (b_data_update (\<lambda>d. set_ubit d b)) t = Done () u" "log_write i u = Done () v" "brelse i v = Done () w"
    "tx w (V(?m := set_ubit (V ?m) b)) Q (insert ?m B)" "tx_keep t w"
    using tr.write_back_ok [of t V Q ?m i B "\<lambda>d. set_ubit d b"] t(2) Q h kt s(2) room b sz
      block_ok_set_ubit [OF tx_blocks [OF s(1)], of b ?m] by auto
  have kw: "tx_keep s w" using t(4) w(5) tr.keep_trans by blast
  have c: "card (insert ?m B) \<le> Suc (card B)" using card_insert_le_m1 by (simp add: card_insert_if tx_finite [OF s(1)])
  obtain x where x: "bzero ROOTDEV (of_nat b) w = Done () x" "tx_keep w x"
      "tx x ((V(?m := set_ubit (V ?m) b))(of_nat b := (\<lambda>_. 0))) Q (insert (of_nat b) (insert ?m B))"
    using bzero_ok [OF w(4), of "of_nat b"] tx_keep_fs [OF kw] s(2) Q(2) h room c by auto
  have "balloc ROOTDEV s = Done (of_nat b) x"
    using t w(1-3) x(1) fb by (simp add: balloc_def one bnd_app thn_app bb set_ubit_def)
  moreover have "tx_keep s x" using kw x(2) tr.keep_trans by blast
  ultimately show ?thesis using x by (auto simp: alloc_view_def)
qed

section \<open>Files as functions from offsets to bytes\<close>

abbreviation ind_addr :: "inode \<Rightarrow> u32" where
  "ind_addr ip \<equiv> i_addrs ip NDIRECT"

definition faddr :: "(u32 \<Rightarrow> bytes) \<Rightarrow> inode \<Rightarrow> nat \<Rightarrow> u32" where
  "faddr V ip bn = (if bn < NDIRECT then i_addrs ip bn
     else if ind_addr ip = 0 then 0 else ld32 (V (ind_addr ip)) (4 * (bn - NDIRECT)))"

definition fblocks :: "(u32 \<Rightarrow> bytes) \<Rightarrow> inode \<Rightarrow> u32 set" where
  "fblocks V ip = insert (ind_addr ip) (faddr V ip ` {..<MAXFILE}) - {0}"

text \<open>A block that is not allocated reads as zeros.\<close>

definition fbyte :: "(u32 \<Rightarrow> bytes) \<Rightarrow> inode \<Rightarrow> bytes" where
  "fbyte V ip k = (if k < MAXFILE * BSIZE \<and> faddr V ip (k div BSIZE) \<noteq> 0
     then V (faddr V ip (k div BSIZE)) (k mod BSIZE) else 0)"

definition content :: "(u32 \<Rightarrow> bytes) \<Rightarrow> inode \<Rightarrow> byte list" where
  "content V ip = get_bytes (fbyte V ip) 0 (unat (i_size ip))"

definition iblocks :: "superblock \<Rightarrow> u32 set" where
  "iblocks sb = (\<lambda>i. IBLOCK i sb) ` {i. i < sb_ninodes sb}"

definition reserved :: "u32 \<Rightarrow> superblock \<Rightarrow> u32 set" where
  "reserved S sb = insert 0 (insert (bmap_blk sb) (log_area S \<union> iblocks sb))"

definition meta_ok :: "u32 \<Rightarrow> superblock \<Rightarrow> (u32 \<Rightarrow> bytes) \<Rightarrow> bool" where
  "meta_ok S sb V \<longleftrightarrow> one_bitmap sb \<and> bmap_blk sb \<notin> log_area S \<and> bmap_blk sb \<notin> iblocks sb \<and> iblocks sb \<inter> log_area S = {}
     \<and> (\<forall>b \<in> reserved S sb. unat b < fsize sb \<longrightarrow> ubit (V (bmap_blk sb)) (unat b))"

definition file_ok :: "u32 \<Rightarrow> superblock \<Rightarrow> (u32 \<Rightarrow> bytes) \<Rightarrow> inode \<Rightarrow> bool" where
  "file_ok S sb V ip \<longleftrightarrow>
     (\<forall>a \<in> fblocks V ip. unat a < fsize sb \<and> ubit (V (bmap_blk sb)) (unat a) \<and> a \<notin> reserved S sb)
     \<and> inj_on (faddr V ip) {k. k < MAXFILE \<and> faddr V ip k \<noteq> 0}
     \<and> (\<forall>k < MAXFILE. faddr V ip k \<noteq> 0 \<longrightarrow> faddr V ip k \<noteq> ind_addr ip)"

definition free_blocks :: "superblock \<Rightarrow> (u32 \<Rightarrow> bytes) \<Rightarrow> nat set" where
  "free_blocks sb V = {b. b < fsize sb \<and> \<not> ubit (V (bmap_blk sb)) b}"

text \<open>How a file may change: it keeps its blocks and takes new ones from the free blocks, and nothing but its blocks
  and the bitmap changes.\<close>

definition evolves :: "u32 \<Rightarrow> superblock \<Rightarrow> (u32 \<Rightarrow> bytes) \<Rightarrow> inode \<Rightarrow> (u32 \<Rightarrow> bytes) \<Rightarrow> inode \<Rightarrow> bool" where
  "evolves S sb V ip V' ip' \<longleftrightarrow> meta_ok S sb V' \<and> file_ok S sb V' ip'
     \<and> (\<forall>m. m \<noteq> bmap_blk sb \<longrightarrow> m \<notin> fblocks V' ip' \<longrightarrow> V' m = V m)
     \<and> fblocks V ip \<subseteq> fblocks V' ip' \<and> fblocks V' ip' \<subseteq> fblocks V ip \<union> of_nat ` free_blocks sb V
     \<and> (\<forall>c. ubit (V (bmap_blk sb)) c \<longrightarrow> ubit (V' (bmap_blk sb)) c)
     \<and> (\<forall>k < MAXFILE. faddr V ip k \<noteq> 0 \<longrightarrow> faddr V' ip' k = faddr V ip k)
     \<and> (ind_addr ip \<noteq> 0 \<longrightarrow> ind_addr ip' = ind_addr ip)"

lemma evolves_refl: "meta_ok S sb V \<Longrightarrow> file_ok S sb V ip \<Longrightarrow> evolves S sb V ip V ip"
  by (simp add: evolves_def)

lemma evolvesD:
  assumes "evolves S sb V ip V' ip'"
  shows "meta_ok S sb V'" "file_ok S sb V' ip'" "m \<noteq> bmap_blk sb \<Longrightarrow> m \<notin> fblocks V' ip' \<Longrightarrow> V' m = V m"
    "fblocks V ip \<subseteq> fblocks V' ip'" "fblocks V' ip' \<subseteq> fblocks V ip \<union> of_nat ` free_blocks sb V"
    "ubit (V (bmap_blk sb)) c \<Longrightarrow> ubit (V' (bmap_blk sb)) c"
    "k < MAXFILE \<Longrightarrow> faddr V ip k \<noteq> 0 \<Longrightarrow> faddr V' ip' k = faddr V ip k"
    "ind_addr ip \<noteq> 0 \<Longrightarrow> ind_addr ip' = ind_addr ip"
  using assms by (simp_all add: evolves_def)

lemma evolves_trans:
  assumes "evolves S sb V ip V' ip'" "evolves S sb V' ip' V'' ip''"
  shows "evolves S sb V ip V'' ip''"
proof -
  note d = evolvesD [OF assms(1)] and e = evolvesD [OF assms(2)]
  have "free_blocks sb V' \<subseteq> free_blocks sb V" using d(6) by (auto simp: free_blocks_def)
  then have "fblocks V'' ip'' \<subseteq> fblocks V ip \<union> of_nat ` free_blocks sb V" using d(5) e(5) by blast
  moreover have "V'' m = V m" if "m \<noteq> bmap_blk sb" "m \<notin> fblocks V'' ip''" for m
    using d(3) [OF that(1)] e(3) [OF that] e(4) that(2) by auto
  moreover have "faddr V'' ip'' k = faddr V ip k" if "k < MAXFILE" "faddr V ip k \<noteq> 0" for k
    using d(7) [OF that] e(7) [OF that(1)] that(2) by simp
  moreover have "fblocks V ip \<subseteq> fblocks V'' ip''" using d(4) e(4) by blast
  ultimately show ?thesis using d(6,8) e(1,2,6,8) by (simp add: evolves_def)
qed

lemma unat_block: "b < 8192 \<Longrightarrow> unat (of_nat b :: u32) = b"
  by (simp add: unat_of_nat)

lemma fsize_bound: "meta_ok S sb V \<Longrightarrow> fsize sb \<le> 8192"
  by (simp add: meta_ok_def one_bitmap_def)

lemma fblocks_used: "file_ok S sb V ip \<Longrightarrow> a \<in> fblocks V ip \<Longrightarrow> ubit (V (bmap_blk sb)) (unat a) \<and> a \<notin> reserved S sb \<and> unat a < fsize sb"
  by (simp add: file_ok_def)

lemma free_not_used:
  assumes "meta_ok S sb V" "b \<in> free_blocks sb V"
  shows "unat (of_nat b :: u32) = b" "(of_nat b :: u32) \<notin> reserved S sb"
    "file_ok S sb V ip \<Longrightarrow> (of_nat b :: u32) \<notin> fblocks V ip"
proof -
  show u: "unat (of_nat b :: u32) = b" using assms fsize_bound [OF assms(1)] by (intro unat_block) (auto simp: free_blocks_def)
  then show "(of_nat b :: u32) \<notin> reserved S sb" using assms by (auto simp: meta_ok_def free_blocks_def)
  show "(of_nat b :: u32) \<notin> fblocks V ip" if "file_ok S sb V ip"
    using fblocks_used [OF that, of "of_nat b"] assms(2) u by (auto simp: free_blocks_def)
qed

lemma faddr_same_blocks: "(\<And>a. a \<in> fblocks V ip \<Longrightarrow> V' a = V a) \<Longrightarrow> faddr V' ip = faddr V ip"
proof -
  assume "\<And>a. a \<in> fblocks V ip \<Longrightarrow> V' a = V a"
  then have "ind_addr ip \<noteq> 0 \<Longrightarrow> V' (ind_addr ip) = V (ind_addr ip)" by (simp add: fblocks_def)
  then show ?thesis by (intro ext) (simp add: faddr_def)
qed

lemma fbyte_same_blocks: "(\<And>a. a \<in> fblocks V ip \<Longrightarrow> V' a = V a) \<Longrightarrow> fbyte V' ip = fbyte V ip"
proof
  fix k
  assume same: "\<And>a. a \<in> fblocks V ip \<Longrightarrow> V' a = V a"
  have "V' (faddr V ip (k div BSIZE)) = V (faddr V ip (k div BSIZE))" if "k < MAXFILE * BSIZE" "faddr V ip (k div BSIZE) \<noteq> 0"
    using that by (intro same) (auto simp: fblocks_def less_mult_imp_div_less)
  then show "fbyte V' ip k = fbyte V ip k" by (auto simp: fbyte_def faddr_same_blocks [OF same])
qed

text \<open>The other files of the file system.\<close>

lemma evolves_other:
  assumes e: "evolves S sb V ip V' ip'" and m: "meta_ok S sb V" and o: "file_ok S sb V ip2" "fblocks V ip2 \<inter> fblocks V ip = {}"
  shows "fbyte V' ip2 = fbyte V ip2" "file_ok S sb V' ip2" "fblocks V' ip2 = fblocks V ip2" "fblocks V' ip2 \<inter> fblocks V' ip' = {}"
proof -
  have d: "fblocks V ip2 \<inter> fblocks V' ip' = {}"
    using e o(2) free_not_used(3) [OF m _ o(1)] unfolding evolves_def by blast
  have same: "V' a = V a" if "a \<in> fblocks V ip2" for a
    using e d that fblocks_used [OF o(1) that] unfolding evolves_def reserved_def by blast
  have fa: "faddr V' ip2 = faddr V ip2" using faddr_same_blocks same by blast
  then show f: "fblocks V' ip2 = fblocks V ip2" by (simp add: fblocks_def)
  with d show "fblocks V' ip2 \<inter> fblocks V' ip' = {}" by simp
  show "fbyte V' ip2 = fbyte V ip2" using fbyte_same_blocks same by blast
  show "file_ok S sb V' ip2" using o(1) e unfolding file_ok_def f fa evolves_def by blast
qed

text \<open>A free block \<open>b\<close> becomes a data block of the file (\<open>ob\<close> is its index) or its indirect block.\<close>

lemma evolves_add:
  fixes b :: nat and ob :: "nat option"
  defines "a \<equiv> of_nat b :: u32"
  assumes m: "meta_ok S sb V" and f: "file_ok S sb V ip" and b: "b \<in> free_blocks sb V"
    and V': "\<And>m. m \<notin> {bmap_blk sb, a} \<union> ({ind_addr ip'} - {0}) \<Longrightarrow> V' m = V m" "V' (bmap_blk sb) = set_ubit (V (bmap_blk sb)) b"
      "V' a = (\<lambda>_. 0)"
    and addr: "\<And>k. k < MAXFILE \<Longrightarrow> faddr V' ip' k = (if ob = Some k then a else faddr V ip k)"
    and ob: "case ob of None \<Rightarrow> ind_addr ip = 0 \<and> ind_addr ip' = a
      | Some k \<Rightarrow> k < MAXFILE \<and> faddr V ip k = 0 \<and> ind_addr ip' = ind_addr ip"
  shows "evolves S sb V ip V' ip'" "fbyte V' ip' = fbyte V ip" "free_blocks sb V' = free_blocks sb V - {b}"
proof -
  note fr = free_not_used [OF m b, folded a_def]
  have a: "unat a = b" "a \<notin> reserved S sb" "a \<notin> fblocks V ip" "a \<noteq> 0" "b < fsize sb" "\<not> ubit (V (bmap_blk sb)) b"
    using fr f b by (auto simp: reserved_def free_blocks_def)
  have u: "ubit (V' (bmap_blk sb)) c \<longleftrightarrow> c = b \<or> ubit (V (bmap_blk sb)) c" for c by (simp add: V'(2) ubit_set)
  have mem: "faddr V ip k \<in> fblocks V ip" if "k < MAXFILE" "faddr V ip k \<noteq> 0" for k using that by (auto simp: fblocks_def)
  have indm: "ind_addr ip \<noteq> 0 \<Longrightarrow> ind_addr ip \<in> fblocks V ip" by (auto simp: fblocks_def)
  have fb: "fblocks V' ip' = insert a (fblocks V ip)"
  proof (cases ob)
    case None
    then have "faddr V' ip' ` {..<MAXFILE} = faddr V ip ` {..<MAXFILE}" using addr by auto
    then show ?thesis using None ob a(4) by (auto simp: fblocks_def)
  next
    case (Some n)
    then have n: "n < MAXFILE" "faddr V ip n = 0" "ind_addr ip' = ind_addr ip" using ob by auto
    have "faddr V' ip' ` {..<MAXFILE} - {0} = insert a (faddr V ip ` {..<MAXFILE} - {0})"
      using addr Some n a(4) by (auto simp: image_iff split: if_splits)
    then show ?thesis using n(3) by (auto simp: fblocks_def)
  qed
  show "free_blocks sb V' = free_blocks sb V - {b}" using u by (auto simp: free_blocks_def)
  have m': "meta_ok S sb V'" using m u by (simp add: meta_ok_def)
  have nz: "faddr V' ip' k \<noteq> 0 \<longleftrightarrow> ob = Some k \<or> faddr V ip k \<noteq> 0" if "k < MAXFILE" for k using addr [OF that] a(4) by simp
  have inj: "inj_on (faddr V' ip') {k. k < MAXFILE \<and> faddr V' ip' k \<noteq> 0}"
  proof (rule inj_onI, clarsimp)
    fix k j assume kj: "k < MAXFILE" "faddr V' ip' k = faddr V' ip' j" "j < MAXFILE" "faddr V' ip' j \<noteq> 0"
    have old: "inj_on (faddr V ip) {k. k < MAXFILE \<and> faddr V ip k \<noteq> 0}" using f by (simp add: file_ok_def)
    show "k = j"
    proof (cases "ob = Some k \<or> ob = Some j")
      case True
      then show ?thesis using kj addr [OF kj(1)] addr [OF kj(3)] mem [OF kj(1)] mem [OF kj(3)] a(3,4) by (auto split: if_splits)
    next
      case False
      then show ?thesis using kj addr [OF kj(1)] addr [OF kj(3)] inj_onD [OF old, of k j] by simp
    qed
  qed
  have ind: "faddr V' ip' k \<noteq> ind_addr ip'" if k: "k < MAXFILE" "faddr V' ip' k \<noteq> 0" for k
  proof (cases ob)
    case None
    then show ?thesis using addr [OF k(1)] k ob mem [OF k(1)] a(3) by auto
  next
    case (Some n)
    then have "ind_addr ip' = ind_addr ip" using ob by simp
    moreover have "faddr V ip k \<noteq> 0 \<Longrightarrow> faddr V ip k \<noteq> ind_addr ip" using f k(1) by (simp add: file_ok_def)
    ultimately show ?thesis using addr [OF k(1)] k(2) indm a(3,4) by (auto split: if_splits)
  qed
  have f': "file_ok S sb V' ip'"
    unfolding file_ok_def fb using inj ind a u fblocks_used [OF f] by auto
  have out: "V' x = V x" if "x \<noteq> bmap_blk sb" "x \<notin> fblocks V' ip'" for x
  proof (rule V'(1))
    have "ind_addr ip' \<noteq> 0 \<Longrightarrow> ind_addr ip' \<in> fblocks V' ip'" by (auto simp: fblocks_def)
    then show "x \<notin> {bmap_blk sb, a} \<union> ({ind_addr ip'} - {0})" using that fb by auto
  qed
  have "faddr V' ip' k = faddr V ip k" if "k < MAXFILE" "faddr V ip k \<noteq> 0" for k
    using addr [OF that(1)] ob that by (auto split: option.splits)
  moreover have "ind_addr ip \<noteq> 0 \<longrightarrow> ind_addr ip' = ind_addr ip" using ob by (auto split: option.splits)
  moreover have "fblocks V' ip' \<subseteq> fblocks V ip \<union> of_nat ` free_blocks sb V" using fb b by (auto simp: a_def)
  ultimately show "evolves S sb V ip V' ip'" unfolding evolves_def using m' f' out fb u by blast
  show "fbyte V' ip' = fbyte V ip"
  proof
    fix k
    let ?n = "k div BSIZE"
    show "fbyte V' ip' k = fbyte V ip k"
    proof (cases "k < MAXFILE * BSIZE")
      case True
      then have n: "?n < MAXFILE" by (simp add: less_mult_imp_div_less)
      show ?thesis
      proof (cases "ob = Some ?n")
        case True
        then have "faddr V ip ?n = 0" using ob by simp
        then show ?thesis using True addr [OF n] V'(3) by (simp add: fbyte_def)
      next
        case False
        have "V' (faddr V ip ?n) = V (faddr V ip ?n)" if z: "faddr V ip ?n \<noteq> 0"
        proof (rule V'(1))
          have "faddr V ip ?n \<notin> reserved S sb" using fblocks_used [OF f mem [OF n z]] by simp
          moreover have "faddr V ip ?n \<noteq> ind_addr ip'" using ind [OF n] addr [OF n] False z by simp
          ultimately show "faddr V ip ?n \<notin> {bmap_blk sb, a} \<union> ({ind_addr ip'} - {0})"
            using mem [OF n z] a(3) by (auto simp: reserved_def)
        qed
        then show ?thesis using False addr [OF n] by (simp add: fbyte_def)
      qed
    qed (simp add: fbyte_def)
  qed
qed

section \<open>Allocation on behalf of a file\<close>

lemma tx_inodes [simp]: "tx (s\<lparr>inodes := I\<rparr>) V Q B = tx s V Q B"
proof -
  have "bio_st (s\<lparr>inodes := I\<rparr>) V Q P = bio_st s V Q P" for P
    by (rule bio_st_cong) (simp_all add: mypid_def bio_ready_def can_wake_def no_plock_def)
  then show ?thesis by (simp add: tx_def log_inv_def)
qed

lemma in_op_inodes [simp]: "in_op (s\<lparr>inodes := I\<rparr>) = in_op s"
  by (simp add: in_op_def)

text \<open>The transaction goes on, and inodes in memory may have changed.\<close>

definition fs_keep :: "'x fs_scheme \<Rightarrow> 'x fs_scheme \<Rightarrow> bool" where
  "fs_keep s t \<longleftrightarrow> tx_keep (s\<lparr>inodes := inodes t\<rparr>) t"

lemma tx_keep_inodes: "tx_keep s t \<Longrightarrow> tx_keep (s\<lparr>inodes := I\<rparr>) (t\<lparr>inodes := I\<rparr>)"
  by (cases s; cases t; simp add: tx_keep_def log_frame_def bio_frame_def procs_kept_def)

lemma inodes_id [simp]: "s\<lparr>inodes := inodes s\<rparr> = (s :: 'x fs_scheme)"
  by (cases s) simp

lemma fs_keep_tx: "tx_keep s t \<Longrightarrow> fs_keep s t"
  unfolding fs_keep_def using tx_keep_inodes [of s t "inodes t"] by simp

lemma fs_keep_refl [simp]: "fs_keep s s"
  by (simp add: fs_keep_def tr.keep_refl)

lemma fs_keep_inodes [simp]: "fs_keep s (s\<lparr>inodes := I\<rparr>)"
  by (simp add: fs_keep_def tr.keep_refl)

lemma fs_keep_trans: "fs_keep s t \<Longrightarrow> fs_keep t u \<Longrightarrow> fs_keep s u"
  unfolding fs_keep_def using tx_keep_inodes [of "s\<lparr>inodes := inodes t\<rparr>" t "inodes u"] tr.keep_trans by fastforce

lemma fs_keep_fields:
  assumes "fs_keep s t"
  shows "fs_sb t = fs_sb s" "mem t = mem s" "curproc t = curproc s" "lg_start t = lg_start s"
    "in_op t = in_op s" "curproc s = Some p \<Longrightarrow> procs t p = procs s p"
  using tx_keep_fs [OF assms [unfolded fs_keep_def]] by simp_all

lemma balloc_free:
  assumes s: "tx s V Q B" "in_op s" and m: "meta_ok (lg_start s) (fs_sb s) V" and ne: "free_blocks (fs_sb s) V \<noteq> {}"
    and Q: "\<And>n. Q n \<noteq> None \<Longrightarrow> n \<noteq> bmap_blk (fs_sb s) \<and> ubit (V (bmap_blk (fs_sb s))) (unat n)"
    and room: "Suc (card B + card (dom Q)) < NBUF" "Suc (Suc (card B)) < LOGSIZE"
  shows "\<exists>b t. b \<in> free_blocks (fs_sb s) V \<and> balloc ROOTDEV s = Done (of_nat b) t
    \<and> tx t (alloc_view (fs_sb s) b V) Q (insert (of_nat b) (insert (bmap_blk (fs_sb s)) B)) \<and> tx_keep s t"
proof -
  let ?F = "free_blocks (fs_sb s) V" and ?m = "bmap_blk (fs_sb s)"
  define b where "b = (LEAST b. b \<in> ?F)"
  have b: "b \<in> ?F" unfolding b_def using ne LeastI_ex [of "\<lambda>b. b \<in> ?F"] by blast
  have l: "c \<notin> ?F" if "c < b" for c using that not_less_Least unfolding b_def by blast
  have "ubit (V ?m) c" if "c < b" for c using l [OF that] b that by (auto simp: free_blocks_def)
  moreover note fr = free_not_used [OF m b]
  moreover have "Q ?m = None" using Q [of ?m] by blast
  moreover have "Q (of_nat b) = None"
  proof (rule ccontr)
    assume "Q (of_nat b) \<noteq> None"
    from Q [OF this] show False using fr(1) b by (simp add: free_blocks_def)
  qed
  ultimately show ?thesis
    using balloc_ok [OF s, of b] m b room by (auto simp: meta_ok_def reserved_def free_blocks_def)
qed

lemma alloc_view_other: "n \<noteq> bmap_blk sb \<Longrightarrow> n \<noteq> of_nat b \<Longrightarrow> alloc_view sb b V n = V n"
  by (simp add: alloc_view_def)

lemma alloc_view_bitmap: "bmap_blk sb \<noteq> of_nat b \<Longrightarrow> alloc_view sb b V (bmap_blk sb) = set_ubit (V (bmap_blk sb)) b"
  by (simp add: alloc_view_def)

lemma alloc_view_new: "alloc_view sb b V (of_nat b) = (\<lambda>_. 0)"
  by (simp add: alloc_view_def)

text \<open>What \<open>bmap\<close> and its parts do to the inode \<open>i\<close>: it may take blocks, and reads as before.\<close>

definition fgrown :: "nat \<Rightarrow> 'x fs_scheme \<Rightarrow> (u32 \<Rightarrow> bytes) \<Rightarrow> u32 set \<Rightarrow> 'x fs_scheme \<Rightarrow> (u32 \<Rightarrow> bytes) \<Rightarrow> u32 set \<Rightarrow> bool" where
  "fgrown i s V B t V' B' \<longleftrightarrow> tx t V' no_open B' \<and> fs_keep s t \<and> (\<exists>f. inodes t = (inodes s)(i := (inodes s i)\<lparr>i_addrs := f\<rparr>))
     \<and> evolves (lg_start s) (fs_sb s) V (inodes s i) V' (inodes t i) \<and> fbyte V' (inodes t i) = fbyte V (inodes s i)"

lemma fgrown_refl:
  "tx s V no_open B \<Longrightarrow> meta_ok (lg_start s) (fs_sb s) V \<Longrightarrow> file_ok (lg_start s) (fs_sb s) V (inodes s i) \<Longrightarrow> fgrown i s V B s V B"
  by (simp add: fgrown_def evolves_refl exI [of _ "i_addrs (inodes s i)"])

lemma fgrown_trans:
  assumes "fgrown i s V B t V' B'" "fgrown i t V' B' u V'' B''"
  shows "fgrown i s V B u V'' B''"
proof -
  obtain f g where "inodes t = (inodes s)(i := (inodes s i)\<lparr>i_addrs := f\<rparr>)" "inodes u = (inodes t)(i := (inodes t i)\<lparr>i_addrs := g\<rparr>)"
    using assms unfolding fgrown_def by blast
  then have "inodes u = (inodes s)(i := (inodes s i)\<lparr>i_addrs := g\<rparr>)" by simp
  moreover have "fs_keep s t" using assms(1) by (simp add: fgrown_def)
  ultimately show ?thesis
    using assms fs_keep_fields [of s t] fs_keep_trans [of s t u] evolves_trans unfolding fgrown_def by metis
qed

text \<open>An inode of the root device whose file may be changed in the running transaction.\<close>

definition wfile :: "nat \<Rightarrow> 'x fs_scheme \<Rightarrow> (u32 \<Rightarrow> bytes) \<Rightarrow> u32 set \<Rightarrow> bool" where
  "wfile i s V B \<longleftrightarrow> tx s V no_open B \<and> in_op s \<and> meta_ok (lg_start s) (fs_sb s) V
     \<and> file_ok (lg_start s) (fs_sb s) V (inodes s i) \<and> i_dev (inodes s i) = ROOTDEV"

lemma wfile_fgrown: "wfile i s V B \<Longrightarrow> fgrown i s V B t V' B' \<Longrightarrow> wfile i t V' B'"
proof -
  assume w: "wfile i s V B" and g: "fgrown i s V B t V' B'"
  have e: "evolves (lg_start s) (fs_sb s) V (inodes s i) V' (inodes t i)" and k: "fs_keep s t"
    and d: "i_dev (inodes t i) = i_dev (inodes s i)" and x: "tx t V' no_open B'" using g by (auto simp: fgrown_def)
  show "wfile i t V' B'" using w x d evolvesD(1,2) [OF e] fs_keep_fields(1,4,5) [OF k] by (simp add: wfile_def)
qed

lemma modi_app [simp]: "modi i f s = Done () (s\<lparr>inodes := (inodes s)(i := f (inodes s i))\<rparr>)"
  by (simp add: modi_def)

lemma geti_app [simp]: "geti i f s = Done (f (inodes s i)) s"
  by (simp add: geti_def)

lemma addrs_update: "i_addrs_update f ip = ip\<lparr>i_addrs := f (i_addrs ip)\<rparr>"
  by (cases ip) simp

lemma finite_free: "finite (free_blocks sb V)"
  by (simp add: free_blocks_def)

lemma card_free_minus: "b \<in> free_blocks sb V \<Longrightarrow> free_blocks sb V' = free_blocks sb V - {b} \<Longrightarrow> card (free_blocks sb V) = Suc (card (free_blocks sb V'))"
  by (simp only: card_Suc_Diff1 [OF finite_free])

text \<open>A block is allocated and entered in the inode as number \<open>n\<close>, a data block or the indirect block.\<close>

lemma take_addr:
  assumes w: "wfile i s V B" and n: "n \<le> NDIRECT" "i_addrs (inodes s i) n = 0" and fr: "free_blocks (fs_sb s) V \<noteq> {}"
    and room: "Suc (Suc (card B)) < LOGSIZE"
  shows "\<exists>a t V' B'. bnd (balloc ROOTDEV) (\<lambda>addr. thn (modi i (i_addrs_update (\<lambda>f. f(n := addr)))) (ret addr)) s = Done a t
    \<and> fgrown i s V B t V' B' \<and> a \<noteq> 0 \<and> V' a = (\<lambda>_. 0) \<and> i_addrs (inodes t i) = (i_addrs (inodes s i))(n := a)
    \<and> B' = insert a (insert (bmap_blk (fs_sb s)) B)
    \<and> card (free_blocks (fs_sb s) V) = Suc (card (free_blocks (fs_sb s) V'))"
proof -
  let ?ip = "inodes s i" and ?sb = "fs_sb s" and ?S = "lg_start s"
  have w': "tx s V no_open B" "in_op s" "meta_ok ?S ?sb V" "file_ok ?S ?sb V ?ip" using w by (auto simp: wfile_def)
  obtain b t where b: "b \<in> free_blocks ?sb V" "balloc ROOTDEV s = Done (of_nat b) t"
      "tx t (alloc_view ?sb b V) no_open (insert (of_nat b) (insert (bmap_blk ?sb) B))" "tx_keep s t"
    using balloc_free [OF w'(1-3) fr] room by (auto simp: NBUF_def LOGSIZE_def)
  let ?a = "of_nat b :: u32"
  note kt = tx_keep_fs [OF b(4)]
  let ?ip' = "?ip\<lparr>i_addrs := (i_addrs ?ip)(n := ?a)\<rparr>" and ?V = "alloc_view ?sb b V"
  have a: "?a \<notin> reserved ?S ?sb" "?a \<notin> fblocks V ?ip" using free_not_used [OF w'(3) b(1)] w'(4) by auto
  then have a0: "?a \<noteq> 0" "bmap_blk ?sb \<noteq> ?a" by (auto simp: reserved_def)
  have V': "\<And>m. m \<notin> {bmap_blk ?sb, ?a} \<union> ({ind_addr ?ip'} - {0}) \<Longrightarrow> ?V m = V m"
    "?V (bmap_blk ?sb) = set_ubit (V (bmap_blk ?sb)) b" "?V ?a = (\<lambda>_. 0)"
    using a0 by (auto simp: alloc_view_other alloc_view_bitmap alloc_view_new)
  have ind: "?V (ind_addr ?ip) = V (ind_addr ?ip)" if "ind_addr ?ip \<noteq> 0"
  proof (rule alloc_view_other)
    have "ind_addr ?ip \<in> fblocks V ?ip" using that by (auto simp: fblocks_def)
    then show "ind_addr ?ip \<noteq> bmap_blk ?sb" "ind_addr ?ip \<noteq> ?a" using fblocks_used [OF w'(4)] a by (auto simp: reserved_def)
  qed
  let ?ob = "if n = NDIRECT then None else Some n"
  have ld0: "ld32 (\<lambda>_. 0) x = 0" for x by (simp add: ld32_def le_load_zero)
  have addr: "faddr ?V ?ip' k = (if ?ob = Some k then ?a else faddr V ?ip k)" if "k < MAXFILE" for k
    using n ind V'(3) a0 by (auto simp: faddr_def ld0)
  have ob: "case ?ob of None \<Rightarrow> ind_addr ?ip = 0 \<and> ind_addr ?ip' = ?a
      | Some k \<Rightarrow> k < MAXFILE \<and> faddr V ?ip k = 0 \<and> ind_addr ?ip' = ind_addr ?ip"
    using n by (auto simp: faddr_def MAXFILE_def)
  note ev = evolves_add [OF w'(3,4) b(1) V' addr ob]
  let ?t = "t\<lparr>inodes := (inodes s)(i := ?ip')\<rparr>"
  have "bnd (balloc ROOTDEV) (\<lambda>addr. thn (modi i (i_addrs_update (\<lambda>f. f(n := addr)))) (ret addr)) s = Done ?a ?t"
    using b(2) kt(2) by (simp add: bnd_app thn_app addrs_update [of "\<lambda>f. f(n := ?a)"])
  moreover have "fs_keep s ?t" using fs_keep_trans [OF fs_keep_tx [OF b(4)] fs_keep_inodes] .
  then have "fgrown i s V B ?t ?V (insert ?a (insert (bmap_blk ?sb) B))"
    unfolding fgrown_def using b(3) ev(1,2) by (auto intro!: exI [of _ "(i_addrs ?ip)(n := ?a)"])
  ultimately show ?thesis using a0(1) card_free_minus [OF b(1) ev(3)]
    by (intro exI [of _ ?a] exI [of _ ?t] exI [of _ ?V] exI [of _ "insert ?a (insert (bmap_blk ?sb) B)"]) (simp add: V'(3))
qed

text \<open>The last part of \<open>bmap\<close>: entry \<open>j\<close> of the indirect block.\<close>

abbreviation bmap_entry :: "nat \<Rightarrow> u32 \<Rightarrow> ('x fs_scheme, u32) K" where
  "bmap_entry j ind \<equiv>
     bnd (bread ROOTDEV ind) (\<lambda>bp.
     bnd (bnd (getb bp (\<lambda>b. ld32 (b_data b) (4 * j))) (\<lambda>addr.
          if addr = 0 then
            bnd (balloc ROOTDEV) (\<lambda>addr.
            thn (modb bp (b_data_update (\<lambda>d. st32 d (4 * j) addr))) (
            thn (log_write bp) (ret addr)))
          else ret addr)) (\<lambda>addr.
     thn (brelse bp) (ret addr)))"

lemma ld32_entry: "j \<noteq> k \<Longrightarrow> ld32 (st32 d (4 * j) v) (4 * k) = ld32 d (4 * k)"
  by (rule ld32_st32_other) auto

lemma take_entry:
  assumes w: "wfile i s V B" and j: "j < NINDIRECT" and ind: "ind_addr (inodes s i) \<noteq> 0"
    and z: "ld32 (V (ind_addr (inodes s i))) (4 * j) = 0"
    and fr: "free_blocks (fs_sb s) V \<noteq> {}" and room: "Suc (Suc (Suc (card B))) < LOGSIZE"
  shows "\<exists>a t V' B'. bmap_entry j (ind_addr (inodes s i)) s = Done a t \<and> fgrown i s V B t V' B' \<and> inodes t = inodes s
    \<and> a \<noteq> 0 \<and> a = faddr V' (inodes t i) (NDIRECT + j) \<and> B' = {a, bmap_blk (fs_sb s), ind_addr (inodes s i)} \<union> B
    \<and> card (free_blocks (fs_sb s) V) = Suc (card (free_blocks (fs_sb s) V'))"
proof -
  let ?ip = "inodes s i" and ?sb = "fs_sb s" and ?S = "lg_start s" and ?m = "bmap_blk (fs_sb s)"
  let ?n = "ind_addr ?ip"
  have w': "tx s V no_open B" "in_op s" "meta_ok ?S ?sb V" "file_ok ?S ?sb V ?ip" using w by (auto simp: wfile_def)
  have nm: "?n \<in> fblocks V ?ip" using ind by (simp add: fblocks_def)
  note nu = fblocks_used [OF w'(4) nm]
  obtain x t where t: "bread ROOTDEV ?n s = Done x t" "tx t V (no_open(?n \<mapsto> x)) B" "b_data (bufs t x) = V ?n" "tx_keep s t"
    using tr.rd_ok [OF w'(1), of ?n] room by (auto simp: NBUF_def LOGSIZE_def)
  note kt = tx_keep_fs [OF t(4)]
  have Q: "m \<noteq> ?m \<and> ubit (V ?m) (unat m)" if "(no_open(?n \<mapsto> x)) m \<noteq> None" for m
    using that nu by (auto simp: reserved_def split: if_splits)
  obtain b u where b: "b \<in> free_blocks ?sb V" "balloc ROOTDEV t = Done (of_nat b) u"
      "tx u (alloc_view ?sb b V) (no_open(?n \<mapsto> x)) (insert (of_nat b) (insert ?m B))" "tx_keep t u"
    using balloc_free [OF t(2), unfolded kt, OF w'(2,3) fr Q] room by (auto simp: NBUF_def LOGSIZE_def)
  let ?a = "of_nat b :: u32" and ?V1 = "alloc_view ?sb b V"
  have ku: "tx_keep s u" using t(4) b(4) tr.keep_trans by blast
  have a: "?a \<notin> reserved ?S ?sb" "?a \<notin> fblocks V ?ip" using free_not_used [OF w'(3) b(1)] w'(4) by auto
  then have a0: "?a \<noteq> 0" "?m \<noteq> ?a" "?n \<noteq> ?a" "?n \<noteq> ?m" "?n \<notin> log_area ?S" using nm nu by (auto simp: reserved_def)
  have V1n: "?V1 ?n = V ?n" using a0 by (simp add: alloc_view_other)
  let ?f = "\<lambda>d. st32 d (4 * j) ?a"
  let ?B1 = "insert ?a (insert ?m B)"
  have cB: "card ?B1 \<le> Suc (Suc (card B))"
    using card_insert_le_m1 tx_finite [OF w'(1)] by (simp add: card_insert_if)
  have "block_ok (?f (?V1 ?n))"
    using block_ok_st32 [OF tx_blocks [OF w'(1)], of "4 * j" ?n] j V1n by (simp add: NINDIRECT_def BSIZE_def)
  then obtain v1 v2 v where v: "modb x (b_data_update ?f) u = Done () v1" "log_write x v1 = Done () v2" "brelse x v2 = Done () v"
      "tx v (?V1(?n := ?f (?V1 ?n))) no_open (insert ?n ?B1)" "tx_keep u v"
    using tr.write_back_ok [of u ?V1 no_open ?n x ?B1 ?f] b(3) a0(5) tx_keep_fs [OF ku] w'(2) cB room by auto
  let ?V = "?V1(?n := ?f (?V1 ?n))"
  have kv: "tx_keep s v" using ku v(5) tr.keep_trans by blast
  have run: "bmap_entry j ?n s = Done ?a v"
    using t z b(2) v(1-3) by (simp add: bnd_app thn_app)
  have V': "\<And>m. m \<notin> {?m, ?a} \<union> ({?n} - {0}) \<Longrightarrow> ?V m = V m" "?V ?m = set_ubit (V ?m) b" "?V ?a = (\<lambda>_. 0)"
    using a0 ind alloc_view_bitmap [of ?sb b V] alloc_view_new [of ?sb b V] by (simp_all add: alloc_view_other)
  have Vn: "?V ?n = ?f (V ?n)" using V1n by simp
  have addr: "faddr ?V ?ip k = (if Some (NDIRECT + j) = Some k then ?a else faddr V ?ip k)" if "k < MAXFILE" for k
  proof (cases "k < NDIRECT")
    case False
    then have "faddr ?V ?ip k = ld32 (?f (V ?n)) (4 * (k - NDIRECT))" "faddr V ?ip k = ld32 (V ?n) (4 * (k - NDIRECT))"
      using ind Vn by (simp_all only: faddr_def if_False)
    moreover have "j = k - NDIRECT \<longleftrightarrow> NDIRECT + j = k" using False by auto
    ultimately show ?thesis using ld32_entry [of j "k - NDIRECT" "V ?n" ?a] by (cases "j = k - NDIRECT") simp_all
  qed (simp add: faddr_def)
  have ob: "case Some (NDIRECT + j) of None \<Rightarrow> ind_addr ?ip = 0 \<and> ind_addr ?ip = ?a
      | Some k \<Rightarrow> k < MAXFILE \<and> faddr V ?ip k = 0 \<and> ind_addr ?ip = ind_addr ?ip"
    using j z by (simp add: faddr_def MAXFILE_def)
  note ev = evolves_add [OF w'(3,4) b(1) V' addr ob]
  have "fgrown i s V B v ?V (insert ?n ?B1)"
    unfolding fgrown_def using v(4) ev(1,2) fs_keep_tx [OF kv] tx_keep_fs(2) [OF kv]
    by (auto intro!: exI [of _ "i_addrs ?ip"])
  moreover have "?a = faddr ?V (inodes v i) (NDIRECT + j)" using addr [of "NDIRECT + j"] tx_keep_fs(2) [OF kv] j
    by (simp add: MAXFILE_def)
  moreover have "insert ?n ?B1 = {?a, ?m, ?n} \<union> B" by auto
  ultimately show ?thesis using run a0(1) tx_keep_fs(2) [OF kv] card_free_minus [OF b(1) ev(3)]
    by (intro exI [of _ ?a] exI [of _ v] exI [of _ ?V] exI [of _ "insert ?n ?B1"]) simp
qed

lemma bmap_indirect:
  assumes "i_dev (inodes s i) = ROOTDEV" "NDIRECT \<le> n" "n < MAXFILE"
  shows "bmap i n s = bnd (if ind_addr (inodes s i) = 0 then bnd (balloc ROOTDEV) (\<lambda>addr.
       thn (modi i (i_addrs_update (\<lambda>a. a(NDIRECT := addr)))) (ret addr)) else ret (ind_addr (inodes s i)))
     (bmap_entry (n - NDIRECT)) s"
proof -
  have "n - NDIRECT < NINDIRECT" using assms by (simp add: MAXFILE_def)
  with assms show ?thesis by (simp add: bmap_def bnd_app Let_def)
qed

text \<open>A block that the file has already: \<open>bmap\<close> only reads.\<close>

lemma bmap_mapped:
  assumes s: "tx s V no_open B" "i_dev (inodes s i) = ROOTDEV" and n: "n < MAXFILE" "faddr V (inodes s i) n \<noteq> 0"
  shows "\<exists>t. bmap i n s = Done (faddr V (inodes s i) n) t \<and> tx t V no_open B \<and> tx_keep s t"
proof (cases "n < NDIRECT")
  case True
  then show ?thesis using s n tr.keep_refl [of s] by (auto simp: bmap_def faddr_def bnd_app)
next
  case False
  let ?d = "ind_addr (inodes s i)"
  have d: "?d \<noteq> 0" "ld32 (V ?d) (4 * (n - NDIRECT)) \<noteq> 0" "faddr V (inodes s i) n = ld32 (V ?d) (4 * (n - NDIRECT))"
    using n(2) False by (auto simp: faddr_def split: if_splits)
  have "card B < NBUF" using s(1) by (simp add: tx_def log_inv_def NBUF_def LOGSIZE_def)
  then obtain x t u where "bread ROOTDEV ?d s = Done x t" "b_data (bufs t x) = V ?d" "brelse x t = Done () u"
      "tx u V no_open B" "tx_keep s u"
    using tr.read_ok [OF s(1), of ?d] by auto
  then show ?thesis using bmap_indirect [OF s(2) _ n(1)] False d by (auto simp: bnd_app thn_app)
qed

definition bmapped :: "nat \<Rightarrow> nat \<Rightarrow> 'x fs_scheme \<Rightarrow> (u32 \<Rightarrow> bytes) \<Rightarrow> u32 set \<Rightarrow> u32 \<Rightarrow> 'x fs_scheme \<Rightarrow> (u32 \<Rightarrow> bytes) \<Rightarrow> u32 set \<Rightarrow> bool" where
  "bmapped i n s V B a t V' B' \<longleftrightarrow> bmap i n s = Done a t \<and> fgrown i s V B t V' B' \<and> a \<noteq> 0 \<and> a = faddr V' (inodes t i) n
    \<and> B' \<subseteq> B \<union> {bmap_blk (fs_sb s), a} \<union> ({ind_addr (inodes t i)} - {0})
    \<and> card (free_blocks (fs_sb s) V) \<le> card (free_blocks (fs_sb s) V') + of_bool (faddr V (inodes s i) n = 0)
        + of_bool (NDIRECT \<le> n \<and> ind_addr (inodes s i) = 0 \<and> ind_addr (inodes t i) \<noteq> 0)"

lemma bmap_ok:
  assumes w: "wfile i s V B" and n: "n < MAXFILE" and room: "card B + 5 < LOGSIZE"
    and fr: "of_bool (faddr V (inodes s i) n = 0) + of_bool (NDIRECT \<le> n \<and> ind_addr (inodes s i) = 0) \<le> card (free_blocks (fs_sb s) V)"
  shows "\<exists>a t V' B'. bmapped i n s V B a t V' B'"
proof (cases "faddr V (inodes s i) n = 0")
  case False
  have w': "tx s V no_open B" "i_dev (inodes s i) = ROOTDEV" using w by (auto simp: wfile_def)
  obtain t where t: "bmap i n s = Done (faddr V (inodes s i) n) t" "tx t V no_open B" "tx_keep s t"
    using bmap_mapped [OF w' n False] by blast
  note kt = tx_keep_fs [OF t(3)]
  have "fgrown i s V B t V B"
    using w t(2) fs_keep_tx [OF t(3)] kt(2) unfolding fgrown_def wfile_def
    by (simp add: evolves_refl exI [of _ "i_addrs (inodes s i)"])
  then show ?thesis using t(1) False kt(2) by (auto simp: bmapped_def)
next
  case z: True
  have dev: "i_dev (inodes s i) = ROOTDEV" using w by (simp add: wfile_def)
  have ne: "free_blocks (fs_sb s) V \<noteq> {}" using fr z by (auto split: if_splits)
  show ?thesis
  proof (cases "n < NDIRECT")
    case True
    then have "i_addrs (inodes s i) n = 0" using z by (simp add: faddr_def)
    from take_addr [OF w _ this ne] True room obtain a t V' B' where
      r: "bnd (balloc ROOTDEV) (\<lambda>addr. thn (modi i (i_addrs_update (\<lambda>f. f(n := addr)))) (ret addr)) s = Done a t"
        "fgrown i s V B t V' B'" "a \<noteq> 0" "i_addrs (inodes t i) = (i_addrs (inodes s i))(n := a)"
        "B' = insert a (insert (bmap_blk (fs_sb s)) B)" "card (free_blocks (fs_sb s) V) = Suc (card (free_blocks (fs_sb s) V'))"
      by auto
    have "bmap i n s = Done a t" using r(1) True z dev by (simp add: bmap_def bnd_app faddr_def)
    with r True z show ?thesis by (auto simp: bmapped_def faddr_def)
  next
    case False
    let ?j = "n - NDIRECT"
    have j: "?j < NINDIRECT" "NDIRECT + ?j = n" using False n by (auto simp: MAXFILE_def)
    show ?thesis
    proof (cases "ind_addr (inodes s i) = 0")
      case nz: False
      then have "ld32 (V (ind_addr (inodes s i))) (4 * ?j) = 0" using z False by (simp add: faddr_def)
      from take_entry [OF w j(1) nz this ne] room obtain a t V' B' where
        r: "bmap_entry ?j (ind_addr (inodes s i)) s = Done a t" "fgrown i s V B t V' B'" "inodes t = inodes s" "a \<noteq> 0"
          "a = faddr V' (inodes t i) n" "B' = {a, bmap_blk (fs_sb s), ind_addr (inodes s i)} \<union> B"
          "card (free_blocks (fs_sb s) V) = Suc (card (free_blocks (fs_sb s) V'))" unfolding j(2) by auto
      have "bmap i n s = Done a t" using bmap_indirect [OF dev _ n] False nz r(1) by (simp add: bnd_app)
      with r nz z show ?thesis by (intro exI [of _ a] exI [of _ t] exI [of _ V'] exI [of _ B']) (auto simp: bmapped_def)
    next
      case iz: True
      from take_addr [OF w _ iz ne] room obtain d t V1 B1 where
        t: "bnd (balloc ROOTDEV) (\<lambda>addr. thn (modi i (i_addrs_update (\<lambda>f. f(NDIRECT := addr)))) (ret addr)) s = Done d t"
          "fgrown i s V B t V1 B1" "d \<noteq> 0" "V1 d = (\<lambda>_. 0)" "i_addrs (inodes t i) = (i_addrs (inodes s i))(NDIRECT := d)"
          "B1 = insert d (insert (bmap_blk (fs_sb s)) B)" "card (free_blocks (fs_sb s) V) = Suc (card (free_blocks (fs_sb s) V1))"
        by auto
      have w1: "wfile i t V1 B1" using wfile_fgrown [OF w t(2)] .
      have sb: "fs_sb t = fs_sb s" using t(2) fs_keep_fields(1) by (auto simp: fgrown_def)
      have d: "ind_addr (inodes t i) = d" using t(5) by simp
      then have "ld32 (V1 (ind_addr (inodes t i))) (4 * ?j) = 0" using t(4) by (simp add: ld32_def le_load_zero)
      moreover have "free_blocks (fs_sb t) V1 \<noteq> {}" using fr z iz False t(7) sb by auto
      moreover have "Suc (Suc (Suc (card B1))) < LOGSIZE"
        using room t(6) tx_finite [of s V no_open B] w by (auto simp: card_insert_if wfile_def)
      ultimately have "\<exists>a u V' B'. bmap_entry ?j d t = Done a u \<and> fgrown i t V1 B1 u V' B' \<and> inodes u = inodes t
          \<and> a \<noteq> 0 \<and> a = faddr V' (inodes u i) n \<and> B' = {a, bmap_blk (fs_sb s), d} \<union> B1
          \<and> card (free_blocks (fs_sb s) V1) = Suc (card (free_blocks (fs_sb s) V'))"
        using take_entry [OF w1 j(1), unfolded d sb j(2)] t(3) unfolding d sb by blast
      then obtain a u V' B' where
        r: "bmap_entry ?j d t = Done a u" "fgrown i t V1 B1 u V' B'" "inodes u = inodes t" "a \<noteq> 0"
          "a = faddr V' (inodes u i) n" "B' = {a, bmap_blk (fs_sb s), d} \<union> B1"
          "card (free_blocks (fs_sb s) V1) = Suc (card (free_blocks (fs_sb s) V'))"
        by blast
      have "bmap i n s = Done a u" using bmap_indirect [OF dev _ n] False iz t(1) r(1) by (simp add: bnd_app)
      moreover have "fgrown i s V B u V' B'" using fgrown_trans [OF t(2) r(2)] .
      ultimately show ?thesis using r t(3,6,7) d z iz False
        by (intro exI [of _ a] exI [of _ u] exI [of _ V'] exI [of _ B']) (auto simp: bmapped_def)
    qed
  qed
qed

end
