(* ===== verification/Fs_Data.thy ===== *)
theory Fs_Data
  imports Fs_Blocks PageTable
begin

text \<open>
  Reading and writing files: \<open>readi\<close> delivers the contents of the file and \<open>writei\<close> replaces a range of them, for kernel
  and user memory, with what they leave alone.
\<close>

section \<open>Reading\<close>

lemma tx_mem [simp]: "tx (s\<lparr>mem := m\<rparr>) V Q B = tx s V Q B"
proof -
  have "bio_st (s\<lparr>mem := m\<rparr>) V Q P = bio_st s V Q P" for P
    by (rule bio_st_cong) (simp_all add: mypid_def bio_ready_def can_wake_def no_plock_def)
  then show ?thesis by (simp add: tx_def log_inv_def)
qed

lemma tx_keep_mem: "tx_keep s t \<Longrightarrow> tx_keep (s\<lparr>mem := m\<rparr>) (t\<lparr>mem := m\<rparr>)"
  by (cases s; cases t; simp add: tx_keep_def log_frame_def bio_frame_def procs_kept_def)

lemma mem_id [simp]: "s\<lparr>mem := mem s\<rparr> = (s :: 'x fs_scheme)"
  by (cases s) simp

definition no_hole :: "(u32 \<Rightarrow> bytes) \<Rightarrow> inode \<Rightarrow> nat \<Rightarrow> nat \<Rightarrow> bool" where
  "no_hole V ip a b \<longleftrightarrow> b \<le> MAXFILE * BSIZE \<and> (\<forall>k. a \<le> k \<longrightarrow> k < b \<longrightarrow> faddr V ip (k div BSIZE) \<noteq> 0)"

text \<open>Within one block.\<close>

lemma in_block: "x < BSIZE - off mod BSIZE \<Longrightarrow> (off + x) div BSIZE = off div BSIZE \<and> (off + x) mod BSIZE = off mod BSIZE + x"
proof -
  assume x: "x < BSIZE - off mod BSIZE"
  have "off + x = BSIZE * (off div BSIZE) + (off mod BSIZE + x)" by simp
  moreover have "off mod BSIZE + x < BSIZE" using x by linarith
  ultimately show ?thesis by (metis div_mult_self4 mod_mult_self4 div_less mod_less add.right_neutral less_nat_zero_code)
qed

lemma chunk_bytes:
  assumes "no_hole V ip off (off + n)" "m \<le> n" "m \<le> BSIZE - off mod BSIZE"
  shows "get_bytes (V (faddr V ip (off div BSIZE))) (off mod BSIZE) m = get_bytes (fbyte V ip) off m"
proof (rule nth_equalityI)
  fix x assume "x < length (get_bytes (V (faddr V ip (off div BSIZE))) (off mod BSIZE) m)"
  then have x: "x < m" by simp
  have "(off + x) div BSIZE = off div BSIZE \<and> (off + x) mod BSIZE = off mod BSIZE + x" using x assms(3) by (intro in_block) simp
  moreover have "faddr V ip ((off + x) div BSIZE) \<noteq> 0" "off + x < MAXFILE * BSIZE" using assms(1,2) x by (auto simp: no_hole_def)
  ultimately show "get_bytes (V (faddr V ip (off div BSIZE))) (off mod BSIZE) m ! x = get_bytes (fbyte V ip) off m ! x"
    using x by (simp add: fbyte_def)
qed simp

lemma get_bytes_split: "m \<le> n \<Longrightarrow> get_bytes f a m @ get_bytes f (a + m) (n - m) = get_bytes f a n"
  using get_bytes_append [of f a m "n - m"] by simp

text \<open>The block of one iteration, locked, and what is in it.\<close>

lemma read_block:
  assumes s: "tx s V no_open B" "i_dev (inodes s i) = ROOTDEV" and n: "0 < n" "no_hole V (inodes s i) off (off + n)"
  shows "\<exists>x t. bnd (bmap i (off div BSIZE)) (\<lambda>addr. bnd (geti i i_dev) (\<lambda>dev. bread dev addr)) s = Done x t
    \<and> tx t V (no_open(faddr V (inodes s i) (off div BSIZE) \<mapsto> x)) B \<and> tx_keep s t
    \<and> b_data (bufs t x) = V (faddr V (inodes s i) (off div BSIZE))
    \<and> (faddr V (inodes s i) (off div BSIZE) \<notin> B \<longrightarrow> V (faddr V (inodes s i) (off div BSIZE)) = disk t (faddr V (inodes s i) (off div BSIZE)))"
proof -
  let ?a = "faddr V (inodes s i) (off div BSIZE)"
  have "?a \<noteq> 0" "off div BSIZE < MAXFILE" using n by (auto simp: no_hole_def less_mult_imp_div_less)
  then obtain t where t: "bmap i (off div BSIZE) s = Done ?a t" "tx t V no_open B" "tx_keep s t"
    using bmap_mapped [OF s] by blast
  have "card B < NBUF" using s(1) by (simp add: tx_def log_inv_def NBUF_def LOGSIZE_def)
  then obtain x u where u: "bread ROOTDEV ?a t = Done x u" "tx u V (no_open(?a \<mapsto> x)) B" "b_data (bufs u x) = V ?a" "tx_keep t u"
    using tr.rd_ok [OF t(2), of ?a] by auto
  have "?a \<notin> B \<longrightarrow> V ?a = disk u ?a" using tr.clean [OF t(2)] tr.keep_same [OF u(4)] by auto
  then show ?thesis using t u s(2) tx_keep_fs(2) [OF t(3)] tr.keep_trans [OF t(3) u(4)] by (auto simp: bnd_app)
qed

lemma close_block:
  assumes "tx t V (no_open(n \<mapsto> x)) B" "n \<in> B \<or> V n = disk t n"
  shows "\<exists>u. brelse x t = Done () u \<and> tx u V no_open B \<and> tx_keep t u"
proof -
  have "(no_open(n \<mapsto> x))(n := None) = no_open" by auto
  then show ?thesis using tr.rel_ok [OF assms(1), of n x] assms(2) by simp
qed

lemma readi_loop_local:
  "tx s V no_open B \<Longrightarrow> i_dev (inodes s i) = ROOTDEV \<Longrightarrow> no_hole V (inodes s i) off (off + n) \<Longrightarrow>
    \<exists>t. readi_loop i LocalDst off n s = Done (int n, get_bytes (fbyte V (inodes s i)) off n) t \<and> tx t V no_open B \<and> tx_keep s t"
proof (induction n arbitrary: off s rule: less_induct)
  case (less n)
  let ?ip = "inodes s i"
  show ?case
  proof (cases "n = 0")
    case True
    then show ?thesis using less.prems(1) tr.keep_refl [of s] by (subst readi_loop.simps) (simp add: get_bytes_def)
  next
    case False
    let ?m = "min n (BSIZE - off mod BSIZE)"
    obtain x t where t: "bnd (bmap i (off div BSIZE)) (\<lambda>addr. bnd (geti i i_dev) (\<lambda>dev. bread dev addr)) s = Done x t"
        "tx t V (no_open(faddr V ?ip (off div BSIZE) \<mapsto> x)) B" "tx_keep s t" "b_data (bufs t x) = V (faddr V ?ip (off div BSIZE))"
        "faddr V ?ip (off div BSIZE) \<notin> B \<longrightarrow> V (faddr V ?ip (off div BSIZE)) = disk t (faddr V ?ip (off div BSIZE))"
      using read_block [OF less.prems(1,2) _ less.prems(3)] False by auto
    obtain u where u: "brelse x t = Done () u" "tx u V no_open B" "tx_keep t u" using close_block [OF t(2)] t(5) by blast
    have k: "tx_keep s u" using t(3) u(3) tr.keep_trans by blast
    note ku = tx_keep_fs [OF k]
    have m: "0 < ?m" "?m \<le> n" using False mod_BSIZE_less [of off] by auto
    then have mm: "n - ?m < n" "no_hole V (inodes u i) (off + ?m) (off + ?m + (n - ?m))" "i_dev (inodes u i) = ROOTDEV"
      using less.prems(2,3) ku(2) by (auto simp: no_hole_def)
    obtain v where v: "readi_loop i LocalDst (off + ?m) (n - ?m) u = Done (int (n - ?m), get_bytes (fbyte V ?ip) (off + ?m) (n - ?m)) v"
        "tx v V no_open B" "tx_keep u v"
      using less.IH [OF mm(1) u(2) mm(3,2)] ku(2) by auto
    have ch: "get_bytes (V (faddr V ?ip (off div BSIZE))) (off mod BSIZE) ?m = get_bytes (fbyte V ?ip) off ?m"
      by (rule chunk_bytes [OF less.prems(3)]) simp_all
    have "readi_loop i LocalDst off n s = Done (int n, get_bytes (fbyte V ?ip) off ?m @ get_bytes (fbyte V ?ip) (off + ?m) (n - ?m)) v"
      using False t(1,4) u(1) v(1) ch m(2)
      by (subst readi_loop.simps) (simp add: Let_def bnd_app thn_app either_copyout_def dst_plus.simps)
    then show ?thesis using v(2) tr.keep_trans [OF k v(3)] get_bytes_split [OF m(2)] by metis
  qed
qed

lemma copied_transfer:
  assumes "mem s' = mem s" "\<And>i. i < k \<Longrightarrow> bs' ! i = bs ! i" "copied pt a bs k s t"
  shows "copied pt a bs' k s' (s'\<lparr>mem := mem t\<rparr>)"
  using assms unfolding copied_def uacc_def upa_def uphys_def pte_of_def by auto

lemma umem_mem: "mem s' = mem s \<Longrightarrow> umem_ok s' pt T = umem_ok s pt T" "mem s' = mem s \<Longrightarrow> uacc s' pt = uacc s pt"
  unfolding umem_ok_def uacc_def upa_def uphys_def pte_of_def by simp_all

text \<open>Reading into user memory: the bytes arrive up to the first address that is not the user's.\<close>

lemma readi_loop_user:
  "tx s V no_open B \<Longrightarrow> i_dev (inodes s i) = ROOTDEV \<Longrightarrow> no_hole V (inodes s i) off (off + n) \<Longrightarrow>
   curproc s = Some p \<Longrightarrow> p_pagetable (procs s p) = pt \<Longrightarrow> umem_ok s pt T \<Longrightarrow>
    \<exists>r bs k t. readi_loop i (UserDst a) off n s = Done (r, bs) t \<and> tx t V no_open B \<and> tx_keep (s\<lparr>mem := mem t\<rparr>) t
      \<and> copied pt a (get_bytes (fbyte V (inodes s i)) off n) k s (s\<lparr>mem := mem t\<rparr>)
      \<and> (if r = - 1 then k < n \<and> \<not> uacc s pt (a + of_nat k) else r = int n \<and> k = n)"
proof (induction n arbitrary: off s a rule: less_induct)
  case (less n)
  let ?ip = "inodes s i"
  let ?bs = "get_bytes (fbyte V ?ip) off n"
  show ?case
  proof (cases "n = 0")
    case True
    have "copied pt a ?bs 0 s s" using exI [of "\<lambda>m. s = s\<lparr>mem := m\<rparr>" "mem s"] by (simp add: copied_def)
    with True show ?thesis using less.prems(1) tr.keep_refl [of s]
      by (subst readi_loop.simps) (auto intro!: exI [of _ 0])
  next
    case False
    let ?m = "min n (BSIZE - off mod BSIZE)" and ?a = "faddr V ?ip (off div BSIZE)"
    let ?c = "get_bytes (fbyte V ?ip) off ?m"
    obtain x t where t: "bnd (bmap i (off div BSIZE)) (\<lambda>addr. bnd (geti i i_dev) (\<lambda>dev. bread dev addr)) s = Done x t"
        "tx t V (no_open(?a \<mapsto> x)) B" "tx_keep s t" "b_data (bufs t x) = V ?a" "?a \<notin> B \<longrightarrow> V ?a = disk t ?a"
      using read_block [OF less.prems(1,2) _ less.prems(3)] False by auto
    note kt = tx_keep_fs [OF t(3)]
    have m: "0 < ?m" "?m \<le> n" "?m < 2 ^ 64" using False mod_BSIZE_less [of off] by (auto simp: BSIZE_def)
    have ch: "get_bytes (V ?a) (off mod BSIZE) ?m = ?c" by (rule chunk_bytes [OF less.prems(3)]) simp_all
    have pt: "umem_ok t pt T" "curproc t = Some p" "p_pagetable (procs t p) = pt"
      using less.prems(4-6) kt(3,4,7) umem_mem(1) by auto
    obtain r t1 k where c: "copyout pt a ?c t = Done r t1" "copied pt a ?c k t t1"
        "if r = 0 then k = ?m else r = - 1 \<and> k < ?m \<and> \<not> uacc t pt (a + of_nat k)"
      using copyout_ok [OF pt(1), of ?c a] m(3) unfolding length_get_bytes by blast
    obtain mm where t1: "t1 = t\<lparr>mem := mm\<rparr>" using c(2) by (auto simp: copied_def)
    have eo: "either_copyout (UserDst a) ?c t = Done r t1"
      using c(1) pt(2,3) by (simp add: either_copyout_def kernel_simps)
    have "tx t1 V (no_open(?a \<mapsto> x)) B" "?a \<in> B \<or> V ?a = disk t1 ?a" using t(2,5) t1 by auto
    from close_block [OF this] obtain u where u: "brelse x t1 = Done () u" "tx u V no_open B" "tx_keep t1 u" by blast
    note ku = tx_keep_fs [OF u(3)]
    have mu: "mem u = mem t1" using ku(3) .
    have k: "tx_keep (s\<lparr>mem := mem u\<rparr>) u"
      using tr.keep_trans [OF tx_keep_mem [OF t(3), of mm]] u(3) t1 ku(3) by simp
    have iu: "inodes u = inodes s" using ku(2) kt(2) t1 by simp
    have cs: "copied pt a bs' k s (s\<lparr>mem := mem u\<rparr>)" if "\<And>j. j < k \<Longrightarrow> bs' ! j = ?c ! j" for bs'
      using copied_transfer [OF kt(3) [symmetric] that c(2)] mu by simp
    show ?thesis
    proof (cases "r = 0")
      case r: False
      then have r': "r = - 1" "k < ?m" "\<not> uacc s pt (a + of_nat k)" using c(3) umem_mem(2) [OF kt(3)] by (auto split: if_splits)
      have run: "readi_loop i (UserDst a) off n s = Done (- 1, []) u"
        using False t(1,4) eo u(1) ch r'(1) by (subst readi_loop.simps) (simp add: Let_def bnd_app thn_app)
      have "copied pt a ?bs k s (s\<lparr>mem := mem u\<rparr>)" using r'(2) m by (intro cs) simp
      with run u(2) k r' show ?thesis
        by (intro exI [of _ "- 1"] exI [of _ "[]"] exI [of _ k] exI [of _ u]) simp
    next
      case r: True
      then have km: "k = ?m" using c(3) by simp
      have cu: "copied pt a ?c (length ?c) s (s\<lparr>mem := mem u\<rparr>)" using cs [of ?c] km by simp
      have n': "n - ?m < n" "no_hole V (inodes u i) (off + ?m) (off + ?m + (n - ?m))" "i_dev (inodes u i) = ROOTDEV"
        "curproc u = Some p" "p_pagetable (procs u p) = pt"
        using m less.prems(2,3) iu ku(4,7) pt(2,3) t1 by (auto simp: no_hole_def)
      have uu: "umem_ok u pt T" using copied_umem [OF less.prems(6) cu] umem_mem(1) [of u "s\<lparr>mem := mem u\<rparr>"] by simp
      obtain q rs j v where v: "readi_loop i (UserDst (a + of_nat ?m)) (off + ?m) (n - ?m) u = Done (q, rs) v"
          "tx v V no_open B" "tx_keep (u\<lparr>mem := mem v\<rparr>) v"
          "copied pt (a + of_nat ?m) (get_bytes (fbyte V ?ip) (off + ?m) (n - ?m)) j u (u\<lparr>mem := mem v\<rparr>)"
          "if q = - 1 then j < n - ?m \<and> \<not> uacc u pt (a + of_nat ?m + of_nat j) else q = int (n - ?m) \<and> j = n - ?m"
        using less.IH [OF n'(1) u(2) n'(3,2,4,5) uu, of "a + of_nat ?m"] iu by metis
      have run: "readi_loop i (UserDst a) off n s = Done (if q = - 1 then - 1 else int ?m + q, ?c @ rs) v"
        using False t(1,4) eo u(1) ch r v(1)
        by (subst readi_loop.simps) (simp add: Let_def bnd_app thn_app dst_plus.simps)
      let ?s1 = "s\<lparr>mem := mem u\<rparr>"
      have "copied pt (a + of_nat (length ?c)) (get_bytes (fbyte V ?ip) (off + ?m) (n - ?m)) j ?s1 (?s1\<lparr>mem := mem (u\<lparr>mem := mem v\<rparr>)\<rparr>)"
        by (rule copied_transfer [of ?s1 u]) (use v(4) in simp_all)
      moreover have "j \<le> n - ?m" using v(5) by (auto split: if_splits)
      moreover have "n \<le> MAXFILE * BSIZE" using less.prems(3) by (simp add: no_hole_def)
      then have "n < 2 ^ 64" by (simp add: MAXFILE_def NDIRECT_def NINDIRECT_def BSIZE_def)
      ultimately have "copied pt a (?c @ get_bytes (fbyte V ?ip) (off + ?m) (n - ?m)) (length ?c + j) s (?s1\<lparr>mem := mem v\<rparr>)"
        using m(2) by (intro copied_append [OF less.prems(6) _ _ cu]) simp_all
      then have cv: "copied pt a ?bs (?m + j) s (s\<lparr>mem := mem v\<rparr>)" using get_bytes_split [OF m(2)] by simp
      have kv: "tx_keep (s\<lparr>mem := mem v\<rparr>) v" using tr.keep_trans [OF tx_keep_mem [OF k, of "mem v"] v(3)] by simp
      have au: "uacc u pt = uacc s pt"
        using umem_mem(2) [of u "s\<lparr>mem := mem u\<rparr>"] cu same_ptes(1) [of "s\<lparr>mem := mem u\<rparr>" pt s] by (simp add: copied_def)
      show ?thesis
        using run v(2,5) cv kv m(2) au
        by (intro exI [of _ "if q = - 1 then - 1 else int ?m + q"] exI [of _ "?c @ rs"] exI [of _ "?m + j"] exI [of _ v])
          (auto simp: add.assoc split: if_splits)
    qed
  qed
qed

text \<open>The bytes that \<open>readi\<close> is asked for, as far as the file has them.\<close>

definition file_slice :: "(u32 \<Rightarrow> bytes) \<Rightarrow> inode \<Rightarrow> u32 \<Rightarrow> u32 \<Rightarrow> byte list" where
  "file_slice V ip off n = (if off + n < off then [] else take (unat n) (drop (unat off) (content V ip)))"

lemma take_drop_get_bytes: "a + m \<le> n \<Longrightarrow> take m (drop a (get_bytes f 0 n)) = get_bytes f a m"
  by (rule nth_equalityI) auto

lemma readi_range:
  assumes "i_size (inodes s i) = sz"
  shows "readi i dst off n s = (if off > sz \<or> off + n < off then Done (0, []) s
    else readi_loop i dst (unat off) (length (file_slice V (inodes s i) off n)) s)"
    and "\<not> (off > sz \<or> off + n < off) \<Longrightarrow> unat off + length (file_slice V (inodes s i) off n) \<le> unat sz
      \<and> get_bytes (fbyte V (inodes s i)) (unat off) (length (file_slice V (inodes s i) off n)) = file_slice V (inodes s i) off n"
    and "off > sz \<or> off + n < off \<Longrightarrow> file_slice V (inodes s i) off n = []"
proof -
  let ?ip = "inodes s i"
  have l: "length (content V ?ip) = unat sz" using assms by (simp add: content_def)
  have len: "length (file_slice V ?ip off n) = min (unat sz - unat off) (unat n)" if "\<not> off + n < off"
    using that l by (simp add: file_slice_def)
  have n': "unat (if off + n > sz then sz - off else n) = min (unat sz - unat off) (unat n)"
    if "\<not> (off > sz \<or> off + n < off)"
  proof -
    have "unat (off + n) = unat off + unat n" using that by (simp add: unat_plus_simple not_less)
    moreover have "unat (sz - off) = unat sz - unat off" using that by (simp add: unat_sub not_less)
    moreover have "unat off \<le> unat sz" using that by (simp add: word_le_nat_alt not_less)
    ultimately show ?thesis by (auto simp: word_less_nat_alt)
  qed
  show "readi i dst off n s = (if off > sz \<or> off + n < off then Done (0, []) s
    else readi_loop i dst (unat off) (length (file_slice V (inodes s i) off n)) s)"
    using assms n' len by (auto simp: readi_def bnd_app Let_def)
  show "unat off + length (file_slice V ?ip off n) \<le> unat sz
      \<and> get_bytes (fbyte V ?ip) (unat off) (length (file_slice V ?ip off n)) = file_slice V ?ip off n"
    if "\<not> (off > sz \<or> off + n < off)"
  proof -
    have "unat off \<le> unat sz" using that by (simp add: word_le_nat_alt not_less)
    then have b: "unat off + min (unat sz - unat off) (unat n) \<le> unat sz" by simp
    have "file_slice V ?ip off n = take (min (unat sz - unat off) (unat n)) (drop (unat off) (content V ?ip))"
      using that l by (simp add: file_slice_def min_def)
    then show ?thesis using b len that assms take_drop_get_bytes [OF b, of "fbyte V ?ip"] by (simp add: content_def)
  qed
  show "file_slice V ?ip off n = []" if "off > sz \<or> off + n < off"
    using that l by (auto simp: file_slice_def word_less_nat_alt)
qed

lemma readi_local:
  assumes "tx s V no_open B" "i_dev (inodes s i) = ROOTDEV" "no_hole V (inodes s i) 0 (unat (i_size (inodes s i)))"
  shows "\<exists>t. readi i LocalDst off n s = Done (int (length (file_slice V (inodes s i) off n)), file_slice V (inodes s i) off n) t
      \<and> tx t V no_open B \<and> tx_keep s t"
proof -
  let ?ip = "inodes s i"
  let ?bs = "file_slice V ?ip off n"
  note r = readi_range [where s = s and i = i, OF refl]
  have hole: "no_hole V ?ip (unat off) (unat off + length ?bs)" if "\<not> (off > i_size ?ip \<or> off + n < off)"
    using r(2) [OF that, of V] assms(3) by (auto simp: no_hole_def)
  show "\<exists>t. readi i LocalDst off n s = Done (int (length ?bs), ?bs) t \<and> tx t V no_open B \<and> tx_keep s t"
  proof (cases "off > i_size ?ip \<or> off + n < off")
    case True
    then show ?thesis using r(1) [of LocalDst off n V] r(3) [of off n V] assms(1) tr.keep_refl [of s] by auto
  next
    case False
    then show ?thesis using readi_loop_local [OF assms(1,2) hole] r(1) [of LocalDst off n V] r(2) [of off n V] by simp
  qed
qed

lemma readi_user:
  assumes "tx s V no_open B" "i_dev (inodes s i) = ROOTDEV" "no_hole V (inodes s i) 0 (unat (i_size (inodes s i)))"
    "curproc s = Some p" "umem_ok s (p_pagetable (procs s p)) T"
  shows "\<exists>r xs k t. readi i (UserDst a) off n s = Done (r, xs) t \<and> tx t V no_open B \<and> tx_keep (s\<lparr>mem := mem t\<rparr>) t
      \<and> copied (p_pagetable (procs s p)) a (file_slice V (inodes s i) off n) k s (s\<lparr>mem := mem t\<rparr>)
      \<and> (if r = - 1 then k < length (file_slice V (inodes s i) off n) \<and> \<not> uacc s (p_pagetable (procs s p)) (a + of_nat k)
         else r = int (length (file_slice V (inodes s i) off n)) \<and> k = length (file_slice V (inodes s i) off n))"
proof -
  let ?ip = "inodes s i" and ?pt = "p_pagetable (procs s p)"
  let ?bs = "file_slice V ?ip off n"
  note r = readi_range [where s = s and i = i, OF refl]
  have hole: "no_hole V ?ip (unat off) (unat off + length ?bs)" if "\<not> (off > i_size ?ip \<or> off + n < off)"
    using r(2) [OF that, of V] assms(3) by (auto simp: no_hole_def)
  show "\<exists>r xs k t. readi i (UserDst a) off n s = Done (r, xs) t \<and> tx t V no_open B \<and> tx_keep (s\<lparr>mem := mem t\<rparr>) t
      \<and> copied ?pt a ?bs k s (s\<lparr>mem := mem t\<rparr>)
      \<and> (if r = - 1 then k < length ?bs \<and> \<not> uacc s ?pt (a + of_nat k) else r = int (length ?bs) \<and> k = length ?bs)"
  proof (cases "off > i_size ?ip \<or> off + n < off")
    case True
    have "copied ?pt a ?bs 0 s s" using exI [of "\<lambda>m. s = s\<lparr>mem := m\<rparr>" "mem s"] by (simp add: copied_def)
    then show ?thesis using r(1) [of "UserDst a" off n V] r(3) [of off n V] True assms(1) tr.keep_refl [of s] by (auto intro!: exI [of _ 0])
  next
    case False
    then show ?thesis
      using readi_loop_user [OF assms(1,2) hole assms(4) refl assms(5), of a] r(1) [of "UserDst a" off n V] r(2) [of off n V] by simp
  qed
qed

text \<open>C6: \<open>readi\<close> delivers the contents of the file. For an inode without holes below its size, it returns the number of bytes
  that the file has of the range, copies exactly these bytes to the destination, and changes no block of the file
  system. It returns 0 beyond the end and when the end of the range overflows. When the destination is user memory, the
  bytes arrive in order up to the first address that the user cannot access, which gives -1, and no other memory changes.\<close>

theorem readi_delivers_content:
  assumes "tx s V no_open B" "i_dev (inodes s i) = ROOTDEV" "no_hole V (inodes s i) 0 (unat (i_size (inodes s i)))"
    "curproc s = Some p" "umem_ok s (p_pagetable (procs s p)) T"
  shows "(\<exists>t. readi i LocalDst off n s = Done (int (length (file_slice V (inodes s i) off n)), file_slice V (inodes s i) off n) t
      \<and> tx t V no_open B \<and> tx_keep s t)
    \<and> (\<exists>r xs k t. readi i (UserDst a) off n s = Done (r, xs) t \<and> tx t V no_open B \<and> tx_keep (s\<lparr>mem := mem t\<rparr>) t
      \<and> copied (p_pagetable (procs s p)) a (file_slice V (inodes s i) off n) k s (s\<lparr>mem := mem t\<rparr>)
      \<and> (if r = - 1 then k < length (file_slice V (inodes s i) off n) \<and> \<not> uacc s (p_pagetable (procs s p)) (a + of_nat k)
         else r = int (length (file_slice V (inodes s i) off n)) \<and> k = length (file_slice V (inodes s i) off n)))"
  using readi_local [OF assms(1-3)] readi_user [OF assms] by blast

section \<open>Disk inodes\<close>

lemma put_addrs_low:
  "b + 2 \<le> off \<Longrightarrow> ld16 (put_addrs a n d off) b = ld16 d b" "b + 4 \<le> off \<Longrightarrow> ld32 (put_addrs a n d off) b = ld32 d b"
  by (induction n) (auto simp: ld16_st32_other ld32_st32_other)

lemma put_addrs_entry: "k < n \<Longrightarrow> ld32 (put_addrs a n d off) (off + 4 * k) = a k"
  by (induction n) (auto simp: less_Suc_eq ld32_st32_other)

lemma put_addrs_outside: "x < off \<or> off + 4 * n \<le> x \<Longrightarrow> put_addrs a n d off x = d x"
  by (induction n) (auto simp: st32_outside)

lemma dinode_load_store: "dinode_load (dinode_store ip off d) off ip = ip"
proof -
  let ?d = "st32 (st16 (st16 (st16 (st16 d off (i_type ip)) (off + 2) (i_major ip)) (off + 4) (i_minor ip)) (off + 6) (i_nlink ip))
    (off + 8) (i_size ip)"
  let ?e = "dinode_store ip off d"
  have e: "?e = put_addrs (i_addrs ip) (NDIRECT + 1) ?d (off + 12)" by (simp only: dinode_store_def)
  have "ld16 ?d off = i_type ip" "ld16 ?d (off + 2) = i_major ip" "ld16 ?d (off + 4) = i_minor ip" "ld16 ?d (off + 6) = i_nlink ip"
    "ld32 ?d (off + 8) = i_size ip" by (simp_all add: ld16_st16_other ld16_st32_other)
  then have "ld16 ?e off = i_type ip" "ld16 ?e (off + 2) = i_major ip" "ld16 ?e (off + 4) = i_minor ip" "ld16 ?e (off + 6) = i_nlink ip"
    "ld32 ?e (off + 8) = i_size ip" unfolding e by (subst put_addrs_low; simp)+
  moreover have "(\<lambda>k. if k \<le> NDIRECT then ld32 ?e (off + 12 + 4 * k) else i_addrs ip k) = i_addrs ip"
    unfolding e using put_addrs_entry [of _ "NDIRECT + 1" "i_addrs ip" ?d "off + 12"] by (auto simp: fun_eq_iff simp del: put_addrs.simps)
  ultimately show ?thesis by (simp add: dinode_load_def)
qed

lemma dinode_store_outside: "x < off \<or> off + 64 \<le> x \<Longrightarrow> dinode_store ip off d x = d x"
  by (auto simp: dinode_store_def put_addrs_outside st32_outside st16_outside NDIRECT_def)

lemma dip_off_bound: "dip_off inum + 64 \<le> BSIZE"
proof -
  have "unat (inum mod IPB) < 16" using unat_mod [of inum IPB] by (simp add: IPB_def BSIZE_def)
  then show ?thesis by (simp add: dip_off_def BSIZE_def)
qed

lemma block_ok_dinode: "block_ok d \<Longrightarrow> block_ok (dinode_store ip (dip_off inum) d)"
  using dip_off_bound [of inum] by (simp add: block_ok_def dinode_store_outside)

lemma iupdate_ok:
  assumes s: "tx s V no_open B" "in_op s" "i_dev (inodes s i) = ROOTDEV" "Suc (card B) < LOGSIZE"
    and n: "IBLOCK (i_inum (inodes s i)) (fs_sb s) \<notin> log_area (lg_start s)"
  shows "\<exists>t. iupdate i s = Done () t \<and> tx_keep s t
    \<and> tx t (V(IBLOCK (i_inum (inodes s i)) (fs_sb s) := dinode_store (inodes s i) (dip_off (i_inum (inodes s i)))
        (V (IBLOCK (i_inum (inodes s i)) (fs_sb s))))) no_open (insert (IBLOCK (i_inum (inodes s i)) (fs_sb s)) B)"
proof -
  have "card B < NBUF" using s(4) by (simp add: NBUF_def LOGSIZE_def)
  then show ?thesis
    using tr.rewrite_ok [OF s(1), where n = "IBLOCK (i_inum (inodes s i)) (fs_sb s)" and f = "dinode_store (inodes s i) (dip_off (i_inum (inodes s i)))"] s n
      block_ok_dinode [OF tx_blocks [OF s(1)]] by (auto simp: iupdate_def bnd_app)
qed

section \<open>Writing\<close>

fun src_at :: "'x fs_scheme \<Rightarrow> ksrc \<Rightarrow> byte list \<Rightarrow> bool" where
  "src_at s (KernSrc xs) bs \<longleftrightarrow> take (length bs) xs = bs"
| "src_at s (UserSrc a) bs \<longleftrightarrow> (\<exists>p T. curproc s = Some p \<and> umem_ok s (p_pagetable (procs s p)) T
     \<and> (\<forall>j < length bs. uacc s (p_pagetable (procs s p)) (a + of_nat j)
          \<and> mem s (uphys s (p_pagetable (procs s p)) (a + of_nat j)) = bs ! j))"

lemma src_keep: "src_at s src bs \<Longrightarrow> fs_keep s t \<Longrightarrow> src_at t src bs"
proof (cases src)
  case (UserSrc a)
  assume s: "src_at s src bs" and k: "fs_keep s t"
  note f = fs_keep_fields [OF k]
  have ph: "uphys t pt = uphys s pt" "uacc t pt = uacc s pt" "umem_ok t pt T = umem_ok s pt T" for pt T
    using umem_mem [OF f(2)] same_ptes(3) [of t pt s] f(2) by (simp_all add: pte_of_def)
  obtain p T where p: "curproc s = Some p" "umem_ok s (p_pagetable (procs s p)) T"
    "\<forall>j < length bs. uacc s (p_pagetable (procs s p)) (a + of_nat j) \<and> mem s (uphys s (p_pagetable (procs s p)) (a + of_nat j)) = bs ! j"
    using s UserSrc by auto
  have "procs t p = procs s p" using f(6) [OF p(1)] .
  with p show ?thesis unfolding UserSrc src_at.simps f ph by auto
qed simp

lemma src_chunk:
  assumes "src_at s src bs" "m \<le> length bs"
  shows "either_copyin src m s = Done (0, take m bs) s" "src_at s (src_plus src m) (drop m bs)"
proof -
  show "src_at s (src_plus src m) (drop m bs)"
  proof (cases src)
    case (KernSrc xs)
    then have "take (length (drop m bs)) (drop m xs) = drop m (take (length bs) xs)" by (simp add: drop_take)
    with KernSrc assms show ?thesis by simp
  next
    case (UserSrc a)
    have "a + of_nat m + of_nat j = a + of_nat (m + j)" for j by simp
    with UserSrc assms show ?thesis by (auto simp: add.assoc simp flip: of_nat_add)
  qed
  show "either_copyin src m s = Done (0, take m bs) s"
  proof (cases src)
    case (KernSrc xs)
    with assms have "take m xs = take m bs" by (metis src_at.simps(1) take_take min.absorb1)
    with KernSrc show ?thesis by (simp add: either_copyin_def)
  next
    case (UserSrc a)
    with assms(1) obtain p T where p: "curproc s = Some p" "umem_ok s (p_pagetable (procs s p)) T"
      "\<forall>j < length bs. uacc s (p_pagetable (procs s p)) (a + of_nat j) \<and> mem s (uphys s (p_pagetable (procs s p)) (a + of_nat j)) = bs ! j"
      by auto
    obtain r k where c: "copyin (p_pagetable (procs s p)) a m s
          = Done (r, map (\<lambda>i. mem s (uphys s (p_pagetable (procs s p)) (a + of_nat i))) [0..<k]) s"
        "if r = 0 then k = m else r = - 1 \<and> k < m \<and> \<not> uacc s (p_pagetable (procs s p)) (a + of_nat k)"
      using copyin_ok [OF p(2), of a m] by blast
    have "r = 0" "k = m" using c(2) p(3) assms(2) by (auto split: if_splits)
    moreover have "map (\<lambda>i. mem s (uphys s (p_pagetable (procs s p)) (a + of_nat i))) [0..<m] = take m bs"
      using p(3) assms(2) by (intro nth_equalityI) auto
    ultimately show ?thesis using UserSrc c(1) p(1) by (simp add: either_copyin_def kernel_simps)
  qed
qed

text \<open>The contents of a data block change.\<close>

lemma data_write:
  assumes m: "meta_ok S sb V" and f: "file_ok S sb V ip" and n: "n < MAXFILE" "faddr V ip n \<noteq> 0"
  defines "V' \<equiv> \<lambda>d. V(faddr V ip n := d)"
  shows "evolves S sb V ip (V' d) ip" "faddr (V' d) ip = faddr V ip" "free_blocks sb (V' d) = free_blocks sb V"
    "fbyte (V' d) ip = (\<lambda>k. if k < MAXFILE * BSIZE \<and> k div BSIZE = n then d (k mod BSIZE) else fbyte V ip k)"
proof -
  let ?a = "faddr V ip n"
  have am: "?a \<in> fblocks V ip" using n by (auto simp: fblocks_def)
  then have bm: "?a \<noteq> bmap_blk sb" using fblocks_used [OF f am] by (auto simp: reserved_def)
  have ind: "?a \<noteq> ind_addr ip" using f n by (simp add: file_ok_def)
  have vi: "V' d (ind_addr ip) = V (ind_addr ip)" using ind by (simp add: V'_def)
  show fa: "faddr (V' d) ip = faddr V ip" by (simp add: faddr_def vi fun_eq_iff)
  then have fb: "fblocks (V' d) ip = fblocks V ip" by (simp add: fblocks_def)
  have vb: "V' d (bmap_blk sb) = V (bmap_blk sb)" using bm by (simp add: V'_def)
  then show "free_blocks sb (V' d) = free_blocks sb V" by (simp add: free_blocks_def)
  have "meta_ok S sb (V' d)" "file_ok S sb (V' d) ip" using m f by (simp_all add: meta_ok_def file_ok_def vb fa fb)
  then show "evolves S sb V ip (V' d) ip" unfolding evolves_def fb fa vb using am by (auto simp: V'_def)
  have vd: "V' d x = (if x = ?a then d else V x)" for x by (simp add: V'_def)
  have inj: "j = n" if "j < MAXFILE" "faddr V ip j = ?a" for j
    using f n that inj_onD [of "faddr V ip" "{k. k < MAXFILE \<and> faddr V ip k \<noteq> 0}" j n] by (simp add: file_ok_def)
  show "fbyte (V' d) ip = (\<lambda>k. if k < MAXFILE * BSIZE \<and> k div BSIZE = n then d (k mod BSIZE) else fbyte V ip k)"
  proof
    fix k
    have "k < MAXFILE * BSIZE \<Longrightarrow> k div BSIZE < MAXFILE" by (simp add: less_mult_imp_div_less)
    then show "fbyte (V' d) ip k = (if k < MAXFILE * BSIZE \<and> k div BSIZE = n then d (k mod BSIZE) else fbyte V ip k)"
      using inj [of "k div BSIZE"] n(2) by (auto simp: fbyte_def fa vd)
  qed
qed

lemma chunk_write:
  assumes m: "meta_ok S sb V" and f: "file_ok S sb V ip" and n: "off div BSIZE < MAXFILE" "faddr V ip (off div BSIZE) \<noteq> 0"
    and l: "length bs \<le> BSIZE - off mod BSIZE" "off + length bs \<le> MAXFILE * BSIZE"
  shows "fbyte (V(faddr V ip (off div BSIZE) := put_bytes (V (faddr V ip (off div BSIZE))) (off mod BSIZE) bs)) ip
    = put_bytes (fbyte V ip) off bs"
proof
  fix k
  let ?n = "off div BSIZE"
  have B: "0 < BSIZE" by (simp add: BSIZE_def)
  have kk: "k = BSIZE * (k div BSIZE) + k mod BSIZE" "off = BSIZE * ?n + off mod BSIZE" by simp_all
  have out: "k < off \<or> off + length bs \<le> k" if "k div BSIZE \<noteq> ?n"
  proof (rule ccontr)
    assume "\<not> ?thesis"
    then have "k - off < BSIZE - off mod BSIZE" "off + (k - off) = k" using l by auto
    with in_block [of "k - off" off] that show False by simp
  qed
  show "fbyte (V(faddr V ip ?n := put_bytes (V (faddr V ip ?n)) (off mod BSIZE) bs)) ip k = put_bytes (fbyte V ip) off bs k"
  proof (cases "k < MAXFILE * BSIZE \<and> k div BSIZE = ?n")
    case True
    have e: "off \<le> k \<and> k < off + length bs \<longleftrightarrow> off mod BSIZE \<le> k mod BSIZE \<and> k mod BSIZE < off mod BSIZE + length bs"
      "off \<le> k \<Longrightarrow> k - off = k mod BSIZE - off mod BSIZE"
      using kk True by (metis add_less_cancel_left nat_add_left_cancel_le add.assoc) (metis kk True add_diff_cancel_left)
    have "fbyte V ip k = V (faddr V ip ?n) (k mod BSIZE)" using True n(2) by (simp add: fbyte_def)
    then show ?thesis using True e unfolding data_write(4) [OF m f n] by (auto simp: put_bytes_def)
  next
    case False
    have "k < off \<or> off + length bs \<le> k" using False out l(2) by linarith
    then show ?thesis unfolding data_write(4) [OF m f n] using False by (auto simp: put_bytes_outside)
  qed
qed

definition fchanged :: "nat \<Rightarrow> 'x fs_scheme \<Rightarrow> (u32 \<Rightarrow> bytes) \<Rightarrow> 'x fs_scheme \<Rightarrow> (u32 \<Rightarrow> bytes) \<Rightarrow> u32 set \<Rightarrow> bool" where
  "fchanged i s V t V' B' \<longleftrightarrow> tx t V' no_open B' \<and> fs_keep s t \<and> (\<exists>f. inodes t = (inodes s)(i := (inodes s i)\<lparr>i_addrs := f\<rparr>))
     \<and> evolves (lg_start s) (fs_sb s) V (inodes s i) V' (inodes t i)"

lemma fchanged_trans:
  assumes "fchanged i s V t V' B'" "fchanged i t V' u V'' B''"
  shows "fchanged i s V u V'' B''"
proof -
  obtain f g where "inodes t = (inodes s)(i := (inodes s i)\<lparr>i_addrs := f\<rparr>)" "inodes u = (inodes t)(i := (inodes t i)\<lparr>i_addrs := g\<rparr>)"
    using assms unfolding fchanged_def by blast
  then have "inodes u = (inodes s)(i := (inodes s i)\<lparr>i_addrs := g\<rparr>)" by simp
  moreover have k: "fs_keep s t" "fs_keep t u" using assms by (simp_all add: fchanged_def)
  moreover have "evolves (lg_start s) (fs_sb s) V (inodes s i) V'' (inodes u i)"
    using assms fs_keep_fields(1,4) [OF k(1)] evolves_trans by (auto simp: fchanged_def)
  ultimately show ?thesis using assms(2) fs_keep_trans [OF k] unfolding fchanged_def by blast
qed

lemma wfile_fchanged: "wfile i s V B \<Longrightarrow> fchanged i s V t V' B' \<Longrightarrow> wfile i t V' B'"
proof -
  assume w: "wfile i s V B" and g: "fchanged i s V t V' B'"
  have e: "evolves (lg_start s) (fs_sb s) V (inodes s i) V' (inodes t i)" and k: "fs_keep s t"
    and d: "i_dev (inodes t i) = i_dev (inodes s i)" and x: "tx t V' no_open B'" using g by (auto simp: fchanged_def)
  show "wfile i t V' B'" using w x d evolvesD(1,2) [OF e] fs_keep_fields(1,4,5) [OF k] by (simp add: wfile_def)
qed

text \<open>One iteration of \<open>writei\<close>.\<close>

lemma write_block:
  assumes w: "wfile i s V B" and src: "src_at s src bs" and n: "bs \<noteq> []" "off + length bs \<le> MAXFILE * BSIZE"
    and room: "card B + 5 < LOGSIZE"
    and fr: "of_bool (faddr V (inodes s i) (off div BSIZE) = 0) + of_bool (NDIRECT \<le> off div BSIZE \<and> ind_addr (inodes s i) = 0)
      \<le> card (free_blocks (fs_sb s) V)"
  defines "m \<equiv> min (length bs) (BSIZE - off mod BSIZE)"
  shows "\<exists>a t V' B'. writei_loop i src off (length bs) s = bnd (writei_loop i (src_plus src m) (off + m) (length bs - m)) (\<lambda>tot. ret (m + tot)) t
    \<and> fchanged i s V t V' B' \<and> fbyte V' (inodes t i) = put_bytes (fbyte V (inodes s i)) off (take m bs)
    \<and> a \<noteq> 0 \<and> a = faddr V' (inodes t i) (off div BSIZE)
    \<and> B' \<subseteq> B \<union> {bmap_blk (fs_sb s), a} \<union> ({ind_addr (inodes t i)} - {0})
    \<and> card (free_blocks (fs_sb s) V) \<le> card (free_blocks (fs_sb s) V') + 1
        + of_bool (NDIRECT \<le> off div BSIZE \<and> ind_addr (inodes s i) = 0 \<and> ind_addr (inodes t i) \<noteq> 0)"
proof -
  let ?n = "off div BSIZE" and ?sb = "fs_sb s" and ?S = "lg_start s"
  have nM: "?n < MAXFILE" using n by (auto simp: less_mult_imp_div_less neq_Nil_conv)
  obtain a t V1 B1 where b: "bmapped i ?n s V B a t V1 B1" using bmap_ok [OF w nM room fr] by blast
  then have t: "bmap i ?n s = Done a t" "fgrown i s V B t V1 B1" "a \<noteq> 0" "a = faddr V1 (inodes t i) ?n"
    "B1 \<subseteq> B \<union> {bmap_blk ?sb, a} \<union> ({ind_addr (inodes t i)} - {0})"
    "card (free_blocks ?sb V) \<le> card (free_blocks ?sb V1) + of_bool (faddr V (inodes s i) ?n = 0)
       + of_bool (NDIRECT \<le> off div BSIZE \<and> ind_addr (inodes s i) = 0 \<and> ind_addr (inodes t i) \<noteq> 0)"
    unfolding bmapped_def by blast+
  have cf: "card (free_blocks ?sb V) \<le> card (free_blocks ?sb V1) + 1 + of_bool (NDIRECT \<le> off div BSIZE \<and> ind_addr (inodes s i) = 0 \<and> ind_addr (inodes t i) \<noteq> 0)"
    using t(6) by (cases "faddr V (inodes s i) ?n = 0") simp_all
  have g: "tx t V1 no_open B1" "fs_keep s t" "evolves ?S ?sb V (inodes s i) V1 (inodes t i)"
    "fbyte V1 (inodes t i) = fbyte V (inodes s i)" and fi: "\<exists>f. inodes t = (inodes s)(i := (inodes s i)\<lparr>i_addrs := f\<rparr>)"
    using t(2) by (simp_all add: fgrown_def)
  note kt = fs_keep_fields [OF g(2)] and e = evolvesD [OF g(3)]
  have w1: "wfile i t V1 B1" using wfile_fgrown [OF w t(2)] .
  have dev: "i_dev (inodes t i) = ROOTDEV" using w1 by (simp add: wfile_def)
  have fB: "finite B" using w tx_finite by (auto simp: wfile_def)
  have "card B1 \<le> card (B \<union> {bmap_blk ?sb, a} \<union> ({ind_addr (inodes t i)} - {0}))" using t(5) fB by (intro card_mono) auto
  also have "\<dots> \<le> card B + card {bmap_blk ?sb, a} + card ({ind_addr (inodes t i)} - {0})"
    by (meson card_Un_le add_le_mono order_refl order_trans)
  also have "\<dots> \<le> card B + 2 + 1"
    by (intro add_mono) (auto simp: card_insert_if card_Diff_subset_Int)
  finally have cB: "Suc (card B1) < LOGSIZE" "card B1 < NBUF" using room by (auto simp: LOGSIZE_def NBUF_def)
  obtain x u where u: "bread ROOTDEV a t = Done x u" "tx u V1 (no_open(a \<mapsto> x)) B1" "tx_keep t u"
    using tr.rd_ok [OF g(1), of a] cB by auto
  note ku = tx_keep_fs [OF u(3)]
  have su: "fs_keep s u" using fs_keep_trans [OF g(2) fs_keep_tx [OF u(3)]] .
  have ci: "either_copyin src m u = Done (0, take m bs) u" using src_chunk(1) [OF src_keep [OF src su], of m] by (simp add: m_def)
  have am: "a \<in> fblocks V1 (inodes t i)" using t(3,4) nM by (auto simp: fblocks_def)
  have ah: "a \<notin> log_area ?S" using fblocks_used [OF e(2) am] by (auto simp: reserved_def)
  let ?f = "\<lambda>d. put_bytes d (off mod BSIZE) (take m bs)"
  have "block_ok (?f (V1 a))"
    using tx_blocks [OF g(1), of a] mod_BSIZE_less [of off] by (auto simp: block_ok_def put_bytes_def m_def)
  then obtain v1 v2 v where v: "modb x (b_data_update ?f) u = Done () v1" "log_write x v1 = Done () v2" "brelse x v2 = Done () v"
      "tx v (V1(a := ?f (V1 a))) no_open (insert a B1)" "tx_keep u v"
    using tr.write_back_ok [of u V1 no_open a x B1 ?f] u(2) ah ku kt w cB by (auto simp: wfile_def)
  note kv = tx_keep_fs [OF v(5)]
  let ?V = "V1(a := ?f (V1 a))"
  have iv: "inodes v = inodes t" using kv(2) ku(2) by simp
  have sv: "fs_keep s v" using fs_keep_trans [OF su fs_keep_tx [OF v(5)]] .
  have bsz: "length bs \<noteq> 0" using n by simp
  have run: "writei_loop i src off (length bs) s = bnd (writei_loop i (src_plus src m) (off + m) (length bs - m)) (\<lambda>tot. ret (m + tot)) v"
    using bsz t(1) u(1) dev ci v(1-3) unfolding m_def
    by (subst writei_loop.simps) (simp add: Let_def bnd_app thn_app)
  note dw = data_write [OF e(1,2) nM, folded t(4), OF t(3)]
  have ch: "fchanged i s V v ?V (insert a B1)"
    unfolding fchanged_def iv using v(4) sv fi evolves_trans [OF g(3) dw(1)] by blast
  have "fbyte ?V (inodes v i) = put_bytes (fbyte V (inodes s i)) off (take m bs)"
    using chunk_write [OF e(1,2) nM, folded t(4), OF t(3), of "take m bs"] n(2) unfolding iv g(4) by (auto simp: m_def)
  moreover have "a = faddr ?V (inodes v i) ?n" using t(4) dw(2) iv by simp
  moreover have "insert a B1 \<subseteq> B \<union> {bmap_blk ?sb, a} \<union> ({ind_addr (inodes v i)} - {0})" using t(5) iv by auto
  ultimately show ?thesis using run ch t(3) cf dw(3) iv
    by (intro exI [of _ a] exI [of _ v] exI [of _ ?V] exI [of _ "insert a B1"]) simp
qed

text \<open>The number of blocks that a range of bytes touches.\<close>

definition nblk :: "nat \<Rightarrow> nat \<Rightarrow> nat" where
  "nblk off n = (if n = 0 then 0 else (off mod BSIZE + n - 1) div BSIZE + 1)"

lemma nblk_step:
  assumes "0 < n" and m: "m = min n (BSIZE - off mod BSIZE)"
  shows "nblk (off + m) (n - m) + 1 \<le> nblk off n"
proof (cases "n - m = 0")
  case False
  have B: "off mod BSIZE < BSIZE" "0 < BSIZE" by (simp_all add: BSIZE_def)
  have mm: "m = BSIZE - off mod BSIZE" using False m by auto
  have "off + m = BSIZE * (off div BSIZE) + (off mod BSIZE + m)" by simp
  also have "\<dots> = BSIZE * Suc (off div BSIZE)" using mm B by simp
  finally have z: "(off + m) mod BSIZE = 0" by simp
  have "off mod BSIZE + n - 1 = BSIZE + (n - m - 1)" using mm B False by linarith
  then have "(off mod BSIZE + n - 1) div BSIZE = Suc ((n - m - 1) div BSIZE)" using B(2) by (metis div_add_self1 less_irrefl Suc_eq_plus1)
  then show ?thesis using False assms(1) z by (simp add: nblk_def)
qed (use assms in \<open>simp add: nblk_def\<close>)

lemma fchanged_refl: "wfile i s V B \<Longrightarrow> fchanged i s V s V B"
  by (simp add: wfile_def fchanged_def evolves_refl exI [of _ "i_addrs (inodes s i)"])

lemma card_with_ind: "finite B0 \<Longrightarrow> B \<subseteq> B0 \<union> ({x} - {0 :: u32}) \<Longrightarrow> card B \<le> card B0 + 1"
proof -
  assume f: "finite B0" and s: "B \<subseteq> B0 \<union> ({x} - {0})"
  have "card B \<le> card (insert x B0)" using f s by (intro card_mono) auto
  also have "\<dots> \<le> Suc (card B0)" by (simp add: card_insert_if f)
  finally show ?thesis by simp
qed

lemma writei_loop_ok:
  "wfile i s V B \<Longrightarrow> src_at s src bs \<Longrightarrow> off + length bs \<le> MAXFILE * BSIZE \<Longrightarrow>
   finite B0 \<Longrightarrow> bmap_blk (fs_sb s) \<in> B0 \<Longrightarrow> B \<subseteq> B0 \<union> ({ind_addr (inodes s i)} - {0}) \<Longrightarrow>
   card B0 + nblk off (length bs) + 6 \<le> LOGSIZE \<Longrightarrow>
   nblk off (length bs) + of_bool (ind_addr (inodes s i) = 0 \<and> NDIRECT * BSIZE < off + length bs) \<le> card (free_blocks (fs_sb s) V) \<Longrightarrow>
   \<exists>t V' B'. writei_loop i src off (length bs) s = Done (length bs) t \<and> fchanged i s V t V' B'
     \<and> fbyte V' (inodes t i) = put_bytes (fbyte V (inodes s i)) off bs
     \<and> no_hole V' (inodes t i) off (off + length bs) \<and> card B' \<le> card B0 + nblk off (length bs) + 1"
proof (induction "length bs" arbitrary: bs s V B B0 off src rule: less_induct)
  case less
  show ?case
  proof (cases "bs = []")
    case True
    then have "writei_loop i src off (length bs) s = Done 0 s" by (subst writei_loop.simps) simp
    with True less.prems(3) fchanged_refl [OF less.prems(1)] card_with_ind [OF less.prems(4,6)] show ?thesis
      by (intro exI [of _ s] exI [of _ V] exI [of _ B]) (simp add: no_hole_def nblk_def)
  next
    case False
    let ?m = "min (length bs) (BSIZE - off mod BSIZE)" and ?sb = "fs_sb s"
    have n1: "nblk (off + ?m) (length bs - ?m) + 1 \<le> nblk off (length bs)" using nblk_step [of "length bs" ?m off] False by simp
    have room: "card B + 5 < LOGSIZE" using card_with_ind [OF less.prems(4,6)] less.prems(7) n1 by linarith
    have big: "NDIRECT * BSIZE < off + length bs" if "NDIRECT \<le> off div BSIZE"
    proof -
      have "NDIRECT * BSIZE \<le> off div BSIZE * BSIZE" using that by (rule mult_le_mono1)
      also have "\<dots> \<le> off" by simp
      finally show ?thesis using False by (cases bs) auto
    qed
    then have fr: "of_bool (faddr V (inodes s i) (off div BSIZE) = 0) + of_bool (NDIRECT \<le> off div BSIZE \<and> ind_addr (inodes s i) = 0)
        \<le> card (free_blocks ?sb V)"
      using less.prems(8) n1 by (auto simp: of_bool_def split: if_splits)
    obtain a t V1 B1 where t:
      "writei_loop i src off (length bs) s = bnd (writei_loop i (src_plus src ?m) (off + ?m) (length bs - ?m)) (\<lambda>tot. ret (?m + tot)) t"
      "fchanged i s V t V1 B1" "fbyte V1 (inodes t i) = put_bytes (fbyte V (inodes s i)) off (take ?m bs)"
      "a \<noteq> 0" "a = faddr V1 (inodes t i) (off div BSIZE)" "B1 \<subseteq> B \<union> {bmap_blk ?sb, a} \<union> ({ind_addr (inodes t i)} - {0})"
      "card (free_blocks ?sb V) \<le> card (free_blocks ?sb V1) + 1 + of_bool (NDIRECT \<le> off div BSIZE \<and> ind_addr (inodes s i) = 0 \<and> ind_addr (inodes t i) \<noteq> 0)"
      using write_block [OF less.prems(1,2) False less.prems(3) room fr] by blast
    have ev: "evolves (lg_start s) ?sb V (inodes s i) V1 (inodes t i)" and k: "fs_keep s t" using t(2) by (simp_all add: fchanged_def)
    note kt = fs_keep_fields [OF k] and e = evolvesD [OF ev]
    let ?bs = "drop ?m bs" and ?B0 = "insert a B0"
    have m: "0 < ?m" "?m \<le> length bs" using False mod_BSIZE_less [of off] by auto
    have l: "length ?bs = length bs - ?m" "length ?bs < length bs" using m by simp_all
    have w1: "wfile i t V1 B1" using wfile_fchanged [OF less.prems(1) t(2)] .
    have s1: "src_at t (src_plus src ?m) ?bs" using src_chunk(2) [OF src_keep [OF less.prems(2) k]] by simp
    have c0: "card ?B0 \<le> card B0 + 1" by (simp add: card_insert_if less.prems(4))
    have Bs: "B1 \<subseteq> ?B0 \<union> ({ind_addr (inodes t i)} - {0})" using t(6) less.prems(5,6) e(8) by (cases "ind_addr (inodes s i) = 0") auto
    have fr1: "nblk (off + ?m) (length ?bs) + of_bool (ind_addr (inodes t i) = 0 \<and> NDIRECT * BSIZE < off + ?m + length ?bs)
        \<le> card (free_blocks (fs_sb t) V1)"
      using t(7) less.prems(8) n1 e(8) m(2) l(1) kt(1) big by (auto simp: of_bool_def split: if_splits)
    have p: "off + ?m + length ?bs \<le> MAXFILE * BSIZE" "finite ?B0" "bmap_blk (fs_sb t) \<in> ?B0"
      "card ?B0 + nblk (off + ?m) (length ?bs) + 6 \<le> LOGSIZE"
      using less.prems(3,4,5,7) m(2) l(1) n1 c0 kt(1) by simp_all
    obtain u V' B' where u: "writei_loop i (src_plus src ?m) (off + ?m) (length ?bs) t = Done (length ?bs) u"
      "fchanged i t V1 u V' B'" "fbyte V' (inodes u i) = put_bytes (fbyte V1 (inodes t i)) (off + ?m) ?bs"
      "no_hole V' (inodes u i) (off + ?m) (off + ?m + length ?bs)" "card B' \<le> card ?B0 + nblk (off + ?m) (length ?bs) + 1"
      using less.hyps [OF l(2) w1 s1 p(1-3) Bs p(4) fr1] by blast
    have ev1: "evolves (lg_start t) (fs_sb t) V1 (inodes t i) V' (inodes u i)" using u(2) by (simp add: fchanged_def)
    have "writei_loop i src off (length bs) s = Done (length bs) u" using t(1) u(1) l(1) m(2) by (simp add: bnd_app)
    moreover have "fchanged i s V u V' B'" using fchanged_trans [OF t(2) u(2)] .
    moreover have "put_bytes (fbyte V (inodes s i)) off (take ?m bs @ ?bs) = put_bytes (put_bytes (fbyte V (inodes s i)) off (take ?m bs)) (off + ?m) ?bs"
      unfolding put_bytes_append by simp
    then have "fbyte V' (inodes u i) = put_bytes (fbyte V (inodes s i)) off bs" using u(3) t(3) by simp
    moreover have "faddr V' (inodes u i) (x div BSIZE) \<noteq> 0" if "off \<le> x" "x < off + length bs" for x
    proof (cases "x < off + ?m")
      case True
      then have "x - off < BSIZE - off mod BSIZE" "off + (x - off) = x" using that by auto
      then have "x div BSIZE = off div BSIZE" using in_block [of "x - off" off] by simp
      moreover have "off div BSIZE < MAXFILE" using less.prems(3) False by (auto simp: less_mult_imp_div_less neq_Nil_conv)
      ultimately show ?thesis using evolvesD(7) [OF ev1, of "off div BSIZE"] t(4,5) by simp
    next
      case False
      then show ?thesis using u(4) that m(2) l(1) by (simp add: no_hole_def)
    qed
    moreover have "card B' \<le> card B0 + nblk off (length bs) + 1" using u(5) [unfolded l(1)] c0 n1 by linarith
    ultimately show ?thesis using less.prems(3) by (auto simp: no_hole_def)
  qed
qed

lemma splice_bytes:
  assumes "off \<le> n"
  shows "get_bytes (put_bytes f off bs) 0 (max n (off + length bs))
    = take off (get_bytes f 0 n) @ bs @ drop (off + length bs) (get_bytes f 0 n)"
  using assms by (intro nth_equalityI) (auto simp: put_bytes_def nth_append max_def split: if_splits)

text \<open>The disk copy of an inode agrees with the one in memory.\<close>

definition on_disk :: "(u32 \<Rightarrow> bytes) \<Rightarrow> superblock \<Rightarrow> inode \<Rightarrow> bool" where
  "on_disk V sb ip \<longleftrightarrow> dinode_load (V (IBLOCK (i_inum ip) sb)) (dip_off (i_inum ip)) ip = ip"

text \<open>What \<open>writei\<close> changes: the inode, its disk copy, the bitmap and the blocks of the file, which may have taken free
  blocks.\<close>

definition file_written :: "nat \<Rightarrow> 'x fs_scheme \<Rightarrow> (u32 \<Rightarrow> bytes) \<Rightarrow> 'x fs_scheme \<Rightarrow> (u32 \<Rightarrow> bytes) \<Rightarrow> bool" where
  "file_written i s V t V' \<longleftrightarrow>
     (let ip = inodes s i; ip' = inodes t i; sb = fs_sb s in
      (\<forall>j. j \<noteq> i \<longrightarrow> inodes t j = inodes s j) \<and> (\<exists>f sz. ip' = ip\<lparr>i_addrs := f, i_size := sz\<rparr>) \<and> fs_keep s t
      \<and> meta_ok (lg_start s) sb V' \<and> file_ok (lg_start s) sb V' ip' \<and> no_hole V' ip' 0 (unat (i_size ip')) \<and> on_disk V' sb ip'
      \<and> fblocks V ip \<subseteq> fblocks V' ip' \<and> fblocks V' ip' \<subseteq> fblocks V ip \<union> of_nat ` free_blocks sb V
      \<and> (\<forall>m x. m \<noteq> bmap_blk sb \<longrightarrow> m \<notin> fblocks V' ip' \<longrightarrow>
           m \<noteq> IBLOCK (i_inum ip) sb \<or> x < dip_off (i_inum ip) \<or> dip_off (i_inum ip) + 64 \<le> x \<longrightarrow> V' m x = V m x))"

lemma writei_ok:
  assumes w: "wfile i s V B" and inum: "i_inum (inodes s i) < sb_ninodes (fs_sb s)"
    and hole: "no_hole V (inodes s i) 0 (unat (i_size (inodes s i)))"
    and src: "src_at s src bs" and off: "off \<le> i_size (inodes s i)" "unat off + length bs \<le> MAXFILE * BSIZE"
    and room: "card B + nblk (unat off) (length bs) + 7 \<le> LOGSIZE"
    and fr: "nblk (unat off) (length bs) + of_bool (ind_addr (inodes s i) = 0 \<and> NDIRECT * BSIZE < unat off + length bs)
      \<le> card (free_blocks (fs_sb s) V)"
  shows "\<exists>t V' B'. writei i src off (of_nat (length bs)) s = Done (int (length bs)) t \<and> tx t V' no_open B'
    \<and> content V' (inodes t i) = take (unat off) (content V (inodes s i)) @ bs @ drop (unat off + length bs) (content V (inodes s i))
    \<and> file_written i s V t V'"
proof -
  let ?ip = "inodes s i" and ?sb = "fs_sb s" and ?S = "lg_start s" and ?n = "length bs"
  have sz: "MAXFILE * BSIZE < 2 ^ 31" by (simp add: MAXFILE_def NDIRECT_def NINDIRECT_def BSIZE_def)
  then have un: "unat (of_nat ?n :: u32) = ?n" "unat (off + of_nat ?n) = unat off + ?n" using off(2)
    by (simp_all add: unat_of_nat unat_word_ariths)
  have le: "\<not> off > i_size ?ip" "\<not> off + of_nat ?n < off" "\<not> unat (off + of_nat ?n) > MAXFILE * BSIZE"
    using off un by (auto simp: word_less_nat_alt word_le_nat_alt)
  have fB: "finite B" using w tx_finite by (auto simp: wfile_def)
  let ?B0 = "insert (bmap_blk ?sb) B"
  have c0: "card ?B0 \<le> card B + 1" using fB by (simp add: card_insert_if)
  then have r0: "card ?B0 + nblk (unat off) ?n + 6 \<le> LOGSIZE" using room by linarith
  obtain t V1 B1 where t: "writei_loop i src (unat off) ?n s = Done ?n t" "fchanged i s V t V1 B1"
    "fbyte V1 (inodes t i) = put_bytes (fbyte V ?ip) (unat off) bs" "no_hole V1 (inodes t i) (unat off) (unat off + ?n)"
    "card B1 \<le> card ?B0 + nblk (unat off) ?n + 1"
    using writei_loop_ok [OF w src off(2) _ _ _ r0 fr] fB by blast
  obtain f where f: "inodes t = (inodes s)(i := ?ip\<lparr>i_addrs := f\<rparr>)" using t(2) unfolding fchanged_def by blast
  have g: "tx t V1 no_open B1" "fs_keep s t" "evolves ?S ?sb V ?ip V1 (inodes t i)" using t(2) by (simp_all add: fchanged_def)
  note kt = fs_keep_fields [OF g(2)] and e = evolvesD [OF g(3)]
  let ?e = "off + of_nat ?n" and ?ipt = "inodes t i"
  let ?ip' = "?ipt\<lparr>i_size := if ?e > i_size ?ip then ?e else i_size ?ip\<rparr>"
  let ?t = "t\<lparr>inodes := (inodes t)(i := ?ip')\<rparr>"
  have ft: "i_size ?ipt = i_size ?ip" "i_inum ?ipt = i_inum ?ip" "i_dev ?ipt = i_dev ?ip" by (simp_all add: f)
  have ipt: "?ip' = i_size_update (\<lambda>_. ?e) ?ipt" if "?e > i_size ?ip" using that by simp
  have st: "bnd (geti i i_size) (\<lambda>sz. whenk (?e > sz) (modi i (i_size_update (\<lambda>_. ?e)))) t = Done () ?t"
  proof (cases "?e > i_size ?ip")
    case False
    then have "?ip' = ?ipt" using ft(1) by (cases ?ipt) simp
    then have "?t = t" by simp
    with False show ?thesis using ft(1) by (simp add: bnd_app whenk_app)
  qed (simp add: bnd_app whenk_app ft)
  let ?ib = "IBLOCK (i_inum ?ip) ?sb"
  have ib: "?ib \<in> iblocks ?sb" using inum by (auto simp: iblocks_def)
  then have ibm: "?ib \<notin> log_area ?S" "?ib \<noteq> bmap_blk ?sb" "?ib \<in> reserved ?S ?sb" using e(1) by (auto simp: meta_ok_def reserved_def)
  have "Suc (card B1) < LOGSIZE" using t(5) c0 room by linarith
  then obtain u where u: "iupdate i ?t = Done () u" "tx_keep ?t u"
      "tx u (V1(?ib := dinode_store ?ip' (dip_off (i_inum ?ip)) (V1 ?ib))) no_open (insert ?ib B1)"
    using iupdate_ok [of ?t V1 B1 i] g(1) kt w ft ibm(1) by (auto simp: wfile_def)
  let ?V = "V1(?ib := dinode_store ?ip' (dip_off (i_inum ?ip)) (V1 ?ib))"
  have iu: "inodes u = (inodes t)(i := ?ip')" using tx_keep_fs(2) [OF u(2)] by simp
  have su: "fs_keep s u" using fs_keep_trans [OF g(2) fs_keep_trans [OF fs_keep_inodes fs_keep_tx [OF u(2)]]] .
  have run: "writei i src off (of_nat ?n) s = Done (int ?n) u"
    using le un(1) t(1) st u(1) by (simp add: writei_def bnd_app thn_app Let_def)
  have nib: "?ib \<notin> fblocks V1 ?ipt" using fblocks_used [OF e(2)] ibm(3) by blast
  have indb: "?V (ind_addr ?ipt) = V1 (ind_addr ?ipt)" if "ind_addr ?ipt \<noteq> 0"
    using nib that by (auto simp: fblocks_def)
  have fa: "faddr ?V ?ip' k = faddr V1 ?ipt k" for k using indb by (simp add: faddr_def)
  have fb: "fblocks ?V ?ip' = fblocks V1 ?ipt" by (simp add: fblocks_def fa)
  have fy: "fbyte ?V ?ip' = fbyte V1 ?ipt"
  proof
    fix k
    have "faddr V1 ?ipt (k div BSIZE) \<noteq> ?ib" if "k < MAXFILE * BSIZE" "faddr V1 ?ipt (k div BSIZE) \<noteq> 0"
    proof -
      have "faddr V1 ?ipt (k div BSIZE) \<in> fblocks V1 ?ipt" using that by (auto simp: fblocks_def less_mult_imp_div_less)
      with nib show ?thesis by metis
    qed
    then show "fbyte ?V ?ip' k = fbyte V1 ?ipt k" by (auto simp: fbyte_def fa)
  qed
  have Vb: "?V (bmap_blk ?sb) = V1 (bmap_blk ?sb)" using ibm(2) by simp
  have ok: "meta_ok ?S ?sb ?V" "file_ok ?S ?sb ?V ?ip'"
    using e(1,2) unfolding meta_ok_def file_ok_def Vb fb fa by simp_all
  have us: "unat (i_size ?ip') = max (unat (i_size ?ip)) (unat off + ?n)"
    using un(2) by (simp add: word_less_nat_alt max_def)
  have "content ?V ?ip' = get_bytes (put_bytes (fbyte V ?ip) (unat off) bs) 0 (max (unat (i_size ?ip)) (unat off + ?n))"
    unfolding content_def us fy t(3) ..
  also have "\<dots> = take (unat off) (content V ?ip) @ bs @ drop (unat off + ?n) (content V ?ip)"
    unfolding content_def using off(1) by (intro splice_bytes) (simp add: word_le_nat_alt)
  finally have ct: "content ?V ?ip' = take (unat off) (content V ?ip) @ bs @ drop (unat off + ?n) (content V ?ip)" .
  have nh: "no_hole ?V ?ip' 0 (unat (i_size ?ip'))"
    unfolding no_hole_def us
  proof (intro conjI allI impI)
    show "max (unat (i_size ?ip)) (unat off + ?n) \<le> MAXFILE * BSIZE" using hole off(2) by (simp add: no_hole_def)
    fix k assume k: "k < max (unat (i_size ?ip)) (unat off + ?n)"
    show "faddr ?V ?ip' (k div BSIZE) \<noteq> 0"
    proof (cases "k < unat (i_size ?ip)")
      case True
      then have "faddr V ?ip (k div BSIZE) \<noteq> 0" "k < MAXFILE * BSIZE" using hole by (auto simp: no_hole_def)
      then show ?thesis using e(7) [of "k div BSIZE"] by (simp add: fa less_mult_imp_div_less)
    next
      case False
      then show ?thesis using t(4) k off(1) by (auto simp: fa no_hole_def word_le_nat_alt)
    qed
  qed
  have od: "on_disk ?V ?sb ?ip'" using ft(2) dinode_load_store [of ?ip' "dip_off (i_inum ?ip)"] by (simp add: on_disk_def)
  have fr': "?V m x = V m x" if "m \<noteq> bmap_blk ?sb" "m \<notin> fblocks ?V ?ip'"
      "m \<noteq> ?ib \<or> x < dip_off (i_inum ?ip) \<or> dip_off (i_inum ?ip) + 64 \<le> x" for m x
  proof -
    have "?V m x = V1 m x" using that(3) dinode_store_outside [of x "dip_off (i_inum ?ip)"] by auto
    then show ?thesis using e(3) [of m] that(1,2) fb by simp
  qed
  have ex: "\<exists>f sz. ?ip' = ?ip\<lparr>i_addrs := f, i_size := sz\<rparr>"
    by (intro exI [of _ f] exI [of _ "if ?e > i_size ?ip then ?e else i_size ?ip"]) (simp add: f)
  have oth: "\<forall>j. j \<noteq> i \<longrightarrow> inodes u j = inodes s j" using f by (simp add: iu)
  have ui: "inodes u i = ?ip'" by (simp add: iu)
  have "file_written i s V u ?V"
    unfolding file_written_def Let_def ui fb using oth ex su ok nh od e(4,5) fr' [unfolded fb] by blast
  then show ?thesis using run u(3) ct iu by (intro exI [of _ u] exI [of _ ?V] exI [of _ "insert ?ib B1"]) simp
qed

text \<open>A file that shares no block with the one written keeps its contents.\<close>

lemma written_other:
  assumes fw: "file_written i s V t V'" and m: "meta_ok (lg_start s) (fs_sb s) V" and inum: "i_inum (inodes s i) < sb_ninodes (fs_sb s)"
    and o: "file_ok (lg_start s) (fs_sb s) V ip2" "fblocks V ip2 \<inter> fblocks V (inodes s i) = {}"
  shows "content V' ip2 = content V ip2"
proof -
  let ?sb = "fs_sb s" and ?S = "lg_start s"
  have w: "fblocks V' (inodes t i) \<subseteq> fblocks V (inodes s i) \<union> of_nat ` free_blocks ?sb V"
    "\<And>m x. m \<noteq> bmap_blk ?sb \<Longrightarrow> m \<notin> fblocks V' (inodes t i) \<Longrightarrow> m \<noteq> IBLOCK (i_inum (inodes s i)) ?sb \<Longrightarrow> V' m x = V m x"
  proof -
    show "fblocks V' (inodes t i) \<subseteq> fblocks V (inodes s i) \<union> of_nat ` free_blocks ?sb V"
      using fw by (simp add: file_written_def Let_def)
    show "V' m x = V m x" if "m \<noteq> bmap_blk ?sb" "m \<notin> fblocks V' (inodes t i)" "m \<noteq> IBLOCK (i_inum (inodes s i)) ?sb" for m x
      using fw that by (simp add: file_written_def Let_def)
  qed
  have same: "V' a = V a" if "a \<in> fblocks V ip2" for a
  proof
    fix x
    have "a \<notin> reserved ?S ?sb" using fblocks_used [OF o(1) that] by simp
    then have "a \<noteq> bmap_blk ?sb" "a \<noteq> IBLOCK (i_inum (inodes s i)) ?sb" using inum by (auto simp: reserved_def iblocks_def)
    moreover have "a \<notin> fblocks V' (inodes t i)" using w(1) that o(2) free_not_used(3) [OF m _ o(1)] by blast
    ultimately show "V' a x = V a x" by (intro w(2))
  qed
  have "fbyte V' ip2 = fbyte V ip2" by (rule fbyte_same_blocks) (rule same)
  then show ?thesis by (simp add: content_def)
qed

text \<open>C2: \<open>writei\<close> replaces a range of the file, from kernel or from user memory. When the range begins within the file and ends
  below the largest file size, the free blocks suffice and the transaction has room, it writes all the bytes. The
  contents are then the old ones with the range replaced, the file longer if need be, and \<open>readi\<close> gives the bytes back.
  The inode is well formed (its blocks are distinct data blocks marked in the bitmap, none is missing below its size)
  and its copy in the inode block agrees. Nothing changes but this inode, the bitmap, the blocks of the file and blocks
  that were free; every file that shares no block with it keeps its contents.\<close>

theorem writei_updates_content:
  assumes "wfile i s V B" "i_inum (inodes s i) < sb_ninodes (fs_sb s)" "no_hole V (inodes s i) 0 (unat (i_size (inodes s i)))"
    "src_at s src bs" "off \<le> i_size (inodes s i)" "unat off + length bs \<le> MAXFILE * BSIZE"
    "card B + nblk (unat off) (length bs) + 7 \<le> LOGSIZE"
    "nblk (unat off) (length bs) + of_bool (ind_addr (inodes s i) = 0 \<and> NDIRECT * BSIZE < unat off + length bs)
      \<le> card (free_blocks (fs_sb s) V)"
  shows "\<exists>t V' B'. writei i src off (of_nat (length bs)) s = Done (int (length bs)) t \<and> tx t V' no_open B'
    \<and> content V' (inodes t i) = take (unat off) (content V (inodes s i)) @ bs @ drop (unat off + length bs) (content V (inodes s i))
    \<and> file_written i s V t V'
    \<and> (\<forall>ip2. file_ok (lg_start s) (fs_sb s) V ip2 \<longrightarrow> fblocks V ip2 \<inter> fblocks V (inodes s i) = {} \<longrightarrow> content V' ip2 = content V ip2)
    \<and> (\<exists>u. readi i LocalDst off (of_nat (length bs)) t = Done (int (length bs), bs) u)"
proof -
  let ?n = "of_nat (length bs) :: u32"
  obtain t V' B' where t: "writei i src off ?n s = Done (int (length bs)) t" "tx t V' no_open B'"
    "content V' (inodes t i) = take (unat off) (content V (inodes s i)) @ bs @ drop (unat off + length bs) (content V (inodes s i))"
    "file_written i s V t V'" using writei_ok [OF assms] by blast
  have m: "meta_ok (lg_start s) (fs_sb s) V" "i_dev (inodes s i) = ROOTDEV" using assms(1) by (simp_all add: wfile_def)
  have d: "i_dev (inodes t i) = ROOTDEV" "no_hole V' (inodes t i) 0 (unat (i_size (inodes t i)))"
    using t(4) m(2) by (auto simp: file_written_def Let_def)
  have "MAXFILE * BSIZE < 2 ^ 31" by (simp add: MAXFILE_def NDIRECT_def NINDIRECT_def BSIZE_def)
  then have un: "unat ?n = length bs" "unat (off + ?n) = unat off + length bs" using assms(6)
    by (simp_all add: unat_of_nat unat_word_ariths)
  have "unat off \<le> length (content V (inodes s i))" using assms(5) by (simp add: content_def word_le_nat_alt)
  then have sl: "file_slice V' (inodes t i) off ?n = bs" using un by (simp add: file_slice_def t(3) word_less_nat_alt)
  have "\<exists>u. readi i LocalDst off ?n t = Done (int (length bs), bs) u"
    using readi_local [OF t(2) d, of off ?n] unfolding sl by blast
  then show ?thesis using t written_other [OF t(4) m(1) assms(2)] by blast
qed

text \<open>\<open>writei\<close> refuses a range that begins beyond the end of the file, whose end overflows or that is too long.\<close>

lemma writei_refuses:
  "off > i_size (inodes s i) \<or> off + n < off \<or> unat (off + n) > MAXFILE * BSIZE \<Longrightarrow> writei i src off n s = Done (- 1) s"
  by (auto simp: writei_def bnd_app)

section \<open>An example\<close>

text \<open>A file system with the layout of mkfs and one file of three bytes in block 46.\<close>

definition demo_sb :: superblock where
  "demo_sb = \<lparr>sb_magic = FSMAGIC, sb_size = 1000, sb_nblocks = 954, sb_ninodes = 200, sb_nlog = 30, sb_logstart = 2,
     sb_inodestart = 32, sb_bmapstart = 45\<rparr>"

definition demo_ip :: inode where
  "demo_ip = \<lparr>i_dev = ROOTDEV, i_inum = 2, i_ref = 1, i_valid = True, i_type = T_FILE, i_major = 0, i_minor = 0, i_nlink = 1,
     i_size = 3, i_addrs = (\<lambda>_. 0)(0 := 46)\<rparr>"

definition demo_disk :: "u32 \<Rightarrow> bytes" where
  "demo_disk = (\<lambda>_ _. 0)(45 := (\<lambda>x. if x < 5 then 255 else if x = 5 then 127 else 0),
     46 := (\<lambda>x. if x = 0 then 7 else if x = 1 then 8 else if x = 2 then 9 else 0))"

definition demo_fs :: fs where
  "demo_fs = \<lparr>held = [], mem = demo_mem, freelist = 0, kend = 0, procs = (\<lambda>p. demo_proc\<lparr>p_pid := of_nat p + 1, p_pagetable := 0x80001000\<rparr>),
     curproc = Some 0, initproc = Some 0, nextpid = 65, ticks = 0,
     slocks = (\<lambda>_. \<lparr>sl_locked = 0, sl_name = [], sl_pid = 0\<rparr>),
     bufs = (\<lambda>_. \<lparr>b_valid = 0, b_dev = 0, b_blockno = 0, b_refcnt = 0, b_prev = 0, b_next = 0, b_data = (\<lambda>_. 0)\<rparr>),
     disk = demo_disk, dwrites = [], lg_start = 2, lg_size = 30, lg_outstanding = 1, lg_committing = False,
     lg_dev = ROOTDEV, lh_n = 0, lh_block = (\<lambda>_. 0), fs_sb = demo_sb, inodes = (\<lambda>_. demo_ip)\<rparr>"

lemma demo_fs_boot:
  "\<exists>s. binit demo_fs = Done () s \<and> tx s demo_disk no_open {} \<and> in_op s \<and> lg_start s = 2 \<and> fs_sb s = demo_sb
    \<and> inodes s = (\<lambda>_. demo_ip) \<and> curproc s = Some 0 \<and> mem s = demo_mem \<and> p_pagetable (procs s 0) = 0x80001000"
proof -
  obtain s where s: "binit demo_fs = Done () s" "cache s (disk demo_fs) no_open (\<lambda>_. 0)" "disk s = disk demo_fs"
    "curproc s = Some 0" "held s = []" "bio.more s = bio.more demo_fs" "mem s = demo_mem" "p_pagetable (procs s 0) = 0x80001000"
    using binit_ok [of demo_fs] by (auto simp: demo_fs_def unused_buf_def)
  have lg: "lg_start s = 2" "lg_size s = 30" "lg_outstanding s = 1" "lg_dev s = ROOTDEV" "lh_n s = 0" "fs_sb s = demo_sb"
    "inodes s = (\<lambda>_. demo_ip)"
    using s(6) by (cases s; simp add: demo_fs_def)+
  have "bio_ready s" using s by (simp add: bio_ready_def can_wake_def no_plock_def)
  with s have st: "bio_st s demo_disk no_open (\<lambda>_. 0)" by (simp add: bio_st_def demo_fs_def)
  have "hdr_n (\<lambda>_. 0) = 0" by (simp add: hdr_n_def ld32_def le_load_zero)
  moreover have "\<forall>n. block_ok (demo_disk n)" by (simp add: demo_disk_def block_ok_def BSIZE_def)
  moreover have "demo_disk 2 = (\<lambda>_. 0)" by (simp add: demo_disk_def)
  ultimately have "log_inv s demo_disk no_open 0" using st s lg by (simp add: log_inv_def LOGSIZE_def pins_empty demo_fs_def)
  then show ?thesis using s lg by (intro exI [of _ s]) (simp add: tx_def in_op_def LOGSIZE_def)
qed

lemma demo_bits: "b < 47 \<Longrightarrow> ubit (demo_disk 45) b" "\<not> ubit (demo_disk 45) 47"
proof -
  have "list_all (ubit (demo_disk 45)) [0..<47]" "\<not> ubit (demo_disk 45) 47" by code_simp+
  then show "b < 47 \<Longrightarrow> ubit (demo_disk 45) b" "\<not> ubit (demo_disk 45) 47" by (auto simp: list_all_iff)
qed

lemma demo_areas: "b \<in> log_area 2 \<Longrightarrow> unat b < 32" "b \<in> iblocks demo_sb \<Longrightarrow> 32 \<le> unat b \<and> unat b < 45"
proof -
  assume "b \<in> log_area 2"
  then obtain i where "i < LOGSIZE" "b = 2 + of_nat i" by (auto simp: log_area_def)
  then show "unat b < 32" by (simp add: LOGSIZE_def unat_word_ariths unat_of_nat)
next
  assume "b \<in> iblocks demo_sb"
  then obtain i where i: "i < 200" "b = i div IPB + 32" by (auto simp: iblocks_def IBLOCK_def demo_sb_def)
  have "unat (i div IPB) = unat i div 16" by (simp add: unat_div IPB_def BSIZE_def)
  moreover have "unat i < 200" using i(1) by (simp add: word_less_nat_alt)
  ultimately show "32 \<le> unat b \<and> unat b < 45" using i(2) by (simp add: unat_word_ariths)
qed

lemma demo_reserved: "b \<in> reserved 2 demo_sb \<Longrightarrow> unat b < 46"
  using demo_areas [of b] by (auto simp: reserved_def bmap_blk_def demo_sb_def)

lemma demo_bmap [simp]: "bmap_blk demo_sb = 45" "fsize demo_sb = 1000"
  by (simp_all add: bmap_blk_def fsize_def demo_sb_def)

lemma demo_dev: "i_dev demo_ip = ROOTDEV" "i_size demo_ip = 3" "sb_ninodes demo_sb = 200"
  by (simp_all add: demo_ip_def demo_sb_def)

lemma demo_meta: "meta_ok 2 demo_sb demo_disk"
proof -
  have "(45 :: u32) \<notin> log_area 2" "(45 :: u32) \<notin> iblocks demo_sb" using demo_areas [of 45] by auto
  moreover have "iblocks demo_sb \<inter> log_area 2 = {}" using demo_areas by fastforce
  moreover have "ubit (demo_disk 45) (unat b)" if "b \<in> reserved 2 demo_sb" for b using demo_bits(1) demo_reserved [OF that] by simp
  ultimately show ?thesis by (simp add: meta_ok_def one_bitmap_def)
qed

lemma demo_faddr: "faddr V demo_ip k = (if k = 0 then 46 else 0)"
  by (simp add: faddr_def demo_ip_def NDIRECT_def)

lemma demo_file: "file_ok 2 demo_sb demo_disk demo_ip" "no_hole demo_disk demo_ip 0 3" "content demo_disk demo_ip = [7, 8, 9]"
proof -
  have "0 < MAXFILE" by (simp add: MAXFILE_def NDIRECT_def)
  moreover have "ind_addr demo_ip = 0" by (simp add: demo_ip_def NDIRECT_def)
  moreover from calculation have "fblocks demo_disk demo_ip = {46}" by (auto simp: fblocks_def demo_faddr image_iff)
  moreover have "(46 :: u32) \<notin> reserved 2 demo_sb" using demo_reserved [of 46] by auto
  ultimately show "file_ok 2 demo_sb demo_disk demo_ip"
    using demo_bits(1) [of 46] by (auto simp: file_ok_def demo_faddr inj_on_def)
  show "no_hole demo_disk demo_ip 0 3"
    by (simp add: no_hole_def demo_faddr BSIZE_def MAXFILE_def NDIRECT_def)
  have "fbyte demo_disk demo_ip k = demo_disk 46 k" if "k < 3" for k
    using that by (simp add: fbyte_def demo_faddr BSIZE_def MAXFILE_def NDIRECT_def)
  moreover have "[0..<3] = [0, 1, 2 :: nat]" by code_simp
  then have "content demo_disk demo_ip = map (fbyte demo_disk demo_ip) [0, 1, 2]"
    by (simp add: content_def get_bytes_def demo_dev)
  ultimately show "content demo_disk demo_ip = [7, 8, 9]" by (simp add: demo_disk_def)
qed

lemma demo_wfile:
  "\<exists>s. binit demo_fs = Done () s \<and> wfile 0 s demo_disk {} \<and> inodes s = (\<lambda>_. demo_ip) \<and> fs_sb s = demo_sb \<and> lg_start s = 2
    \<and> curproc s = Some 0"
  using demo_fs_boot demo_meta demo_file(1) by (fastforce simp: wfile_def demo_dev)

theorem readi_delivers_content_witness:
  "\<exists>s t u xs. binit demo_fs = Done () s \<and> readi 0 LocalDst 1 5 s = Done (2, [8, 9]) t
     \<and> readi 0 (UserDst 0xFFF) 1 5 s = Done (- 1, xs) u \<and> mem u (uphys s 0x80001000 0xFFF) = 8"
proof -
  obtain s where s: "binit demo_fs = Done () s" "tx s demo_disk no_open {}" "inodes s = (\<lambda>_. demo_ip)" "curproc s = Some 0"
    "mem s = demo_mem" "p_pagetable (procs s 0) = 0x80001000"
    using demo_fs_boot by blast
  have sl: "file_slice demo_disk demo_ip 1 5 = [8, 9]" by (simp add: file_slice_def demo_file(3))
  have ua: "uacc s 0x80001000 w \<longleftrightarrow> w < PGSIZE" for w by (rule demo_uacc(1) [OF s(5)])
  have um: "umem_ok s (p_pagetable (procs s 0)) {0x80001000, 0x80002000, 0x80003000}" using demo_umem [OF s(5)] s(6) by simp
  have nh: "no_hole demo_disk (inodes s 0) 0 (unat (i_size (inodes s 0)))" using demo_file(2) by (simp add: s(3) demo_dev)
  have "i_dev (inodes s 0) = ROOTDEV" by (simp add: s(3) demo_dev)
  note r = readi_delivers_content [OF s(2) this nh s(4) um, of 1 5 "0xFFF", unfolded s(3,6) sl]
  obtain t where t: "readi 0 LocalDst 1 5 s = Done (2, [8, 9]) t" using r by auto
  obtain x xs k u where u: "readi 0 (UserDst 0xFFF) 1 5 s = Done (x, xs) u"
    "copied 0x80001000 0xFFF [8, 9] k s (s\<lparr>mem := mem u\<rparr>)"
    "if x = - 1 then k < length [8, 9 :: byte] \<and> \<not> uacc s 0x80001000 (0xFFF + of_nat k) else x = int (length [8, 9 :: byte]) \<and> k = length [8, 9 :: byte]"
    using conjunct2 [OF r] by blast
  have c: "uacc s 0x80001000 (0xFFF + of_nat i)" "mem u (uphys s 0x80001000 (0xFFF + of_nat i)) = [8, 9] ! i" if "i < k" for i
    using u(2) that by (simp_all add: copied_def)
  have "\<not> 1 < k" using c(1) [of 1] by (auto simp: ua PGSIZE_def)
  moreover have "k \<noteq> 0" using u(3) by (cases "k = 0") (simp_all add: ua PGSIZE_def split: if_splits)
  ultimately have "k = 1" by simp
  then have "x = - 1" "mem u (uphys s 0x80001000 0xFFF) = 8" using u(3) c(2) [of 0] by (auto split: if_splits)
  with s(1) t u(1) show ?thesis by blast
qed

theorem writei_updates_content_witness:
  "\<exists>s t V' B'. binit demo_fs = Done () s \<and> content demo_disk (inodes s 0) = [7, 8, 9]
     \<and> writei 0 (KernSrc [5, 6]) 2 2 s = Done 2 t \<and> tx t V' no_open B' \<and> content V' (inodes t 0) = [7, 8, 5, 6]
     \<and> (\<exists>u. readi 0 LocalDst 2 2 t = Done (2, [5, 6]) u)"
proof -
  obtain s where s: "binit demo_fs = Done () s" "wfile 0 s demo_disk {}" "inodes s = (\<lambda>_. demo_ip)" "fs_sb s = demo_sb"
    using demo_wfile by blast
  have ip: "i_size demo_ip = 3" "i_inum demo_ip = 2" by (simp_all add: demo_ip_def)
  have nb: "nblk 2 (Suc (Suc 0)) = 1" by (simp add: nblk_def BSIZE_def)
  have "47 \<in> free_blocks demo_sb demo_disk" using demo_bits(2) by (simp add: free_blocks_def)
  then have fr: "1 \<le> card (free_blocks demo_sb demo_disk)" using card_gt_0_iff [of "free_blocks demo_sb demo_disk"] finite_free [of demo_sb demo_disk] by auto
  have "\<exists>t V' B'. writei 0 (KernSrc [5, 6]) 2 (of_nat (length [5, 6 :: byte])) s = Done (int (length [5, 6 :: byte])) t \<and> tx t V' no_open B'
    \<and> content V' (inodes t 0) = take (unat (2 :: u32)) (content demo_disk (inodes s 0)) @ [5, 6] @ drop (unat (2 :: u32) + length [5, 6 :: byte]) (content demo_disk (inodes s 0))
    \<and> file_written 0 s demo_disk t V'
    \<and> (\<forall>ip2. file_ok (lg_start s) (fs_sb s) demo_disk ip2 \<longrightarrow> fblocks demo_disk ip2 \<inter> fblocks demo_disk (inodes s 0) = {} \<longrightarrow> content V' ip2 = content demo_disk ip2)
    \<and> (\<exists>u. readi 0 LocalDst 2 (of_nat (length [5, 6 :: byte])) t = Done (int (length [5, 6 :: byte]), [5, 6]) u)"
    by (rule writei_updates_content [OF s(2)])
      (use demo_file(2) nb fr in \<open>simp_all add: s(3,4) ip demo_dev MAXFILE_def NDIRECT_def BSIZE_def LOGSIZE_def\<close>)
  then show ?thesis using s(1,3) demo_file(3) by auto
qed

end
